(* ===== verification/Smoldot_Prelude.thy ===== *)
theory Smoldot_Prelude
  imports Main "HOL-Library.Word" "HOL-Library.List_Lexorder"
begin

unbundle bit_operations_syntax

text \<open>
  Material shared by the component theories: the names of the machine integer types,
  Rust's \<^verbatim>\<open>Result\<close> as a sum, the parts of \<^verbatim>\<open>Vec\<close> and of \<^verbatim>\<open>Iterator\<close> the components use,
  and the little-endian layout of a \<^verbatim>\<open>u64\<close>.
\<close>

section \<open>Names of types\<close>

type_synonym u8 = "8 word"
type_synonym u16 = "16 word"
type_synonym u32 = "32 word"
type_synonym u64 = "64 word"

text \<open>
  \<^verbatim>\<open>Result<T, E>\<close> is \<open>'e + 'a\<close> with \<open>Inl\<close> for \<^verbatim>\<open>Err\<close>. \<open>and_then\<close> is what the question mark
  operator does to the rest of the function.
\<close>

definition and_then :: "'e + 'a \<Rightarrow> ('a \<Rightarrow> 'e + 'b) \<Rightarrow> 'e + 'b" where
  "and_then r f = (case r of Inl e \<Rightarrow> Inl e | Inr x \<Rightarrow> f x)"

lemma and_then_simps [simp]:
  "and_then (Inl e) f = Inl e"
  "and_then (Inr x) f = f x"
  by (simp_all add: and_then_def)

lemma and_then_eq_Inr: "and_then r f = Inr y \<longleftrightarrow> (\<exists>x. r = Inr x \<and> f x = Inr y)"
  by (cases r) simp_all

text \<open>
  Where the source can also panic, the error side is \<open>'e fail\<close>: an error that is returned, or
  a panic, which ends the program.
\<close>

datatype 'e fail = Err 'e | Panic

type_synonym ('e, 'a) outcome = "'e fail + 'a"

definition ok_or :: "'a option \<Rightarrow> 'e \<Rightarrow> 'e + 'a" where
  "ok_or x e = (case x of None \<Rightarrow> Inl e | Some v \<Rightarrow> Inr v)"

lemma ok_or_simps [simp]: "ok_or None e = Inl e" "ok_or (Some v) e = Inr v"
  by (simp_all add: ok_or_def)

lemma ok_or_eq_Inr: "ok_or x e = Inr v \<longleftrightarrow> x = Some v"
  by (cases x) simp_all

section \<open>Vectors\<close>

text \<open>
  \<^verbatim>\<open>Iterator::position\<close>, \<^verbatim>\<open>Vec::remove\<close> and \<^verbatim>\<open>Vec::insert\<close>. The last two panic out of range;
  the components call them with an index that \<open>position\<close> returned or that is at most the
  length.
\<close>

primrec position :: "('a \<Rightarrow> bool) \<Rightarrow> 'a list \<Rightarrow> nat option" where
  "position P [] = None"
| "position P (x # xs) = (if P x then Some 0 else map_option Suc (position P xs))"

definition vec_remove :: "nat \<Rightarrow> 'a list \<Rightarrow> 'a list" where
  "vec_remove i xs = take i xs @ drop (Suc i) xs"

definition vec_insert :: "nat \<Rightarrow> 'a \<Rightarrow> 'a list \<Rightarrow> 'a list" where
  "vec_insert i x xs = take i xs @ x # drop i xs"

lemma position_None [simp]: "position P xs = None \<longleftrightarrow> (\<forall>x \<in> set xs. \<not> P x)"
  by (induction xs) auto

lemma position_SomeD:
  "position P xs = Some i \<Longrightarrow> i < length xs \<and> P (xs ! i) \<and> (\<forall>j < i. \<not> P (xs ! j))"
proof (induction xs arbitrary: i)
  case (Cons x xs)
  then show ?case by (auto split: if_splits simp: nth_Cons split: nat.splits)
qed simp

lemma position_Some_iff:
  "position P xs = Some i \<longleftrightarrow> i < length xs \<and> P (xs ! i) \<and> (\<forall>j < i. \<not> P (xs ! j))"
proof
  assume *: "i < length xs \<and> P (xs ! i) \<and> (\<forall>j < i. \<not> P (xs ! j))"
  then have "xs ! i \<in> set xs" "P (xs ! i)" by simp_all
  then have "position P xs \<noteq> None" unfolding position_None by blast
  then obtain k where k: "position P xs = Some k" by blast
  from position_SomeD [OF k] * have "k = i" by (meson linorder_neqE_nat)
  with k show "position P xs = Some i" by simp
qed (rule position_SomeD)

lemma length_vec_remove [simp]: "i < length xs \<Longrightarrow> length (vec_remove i xs) = length xs - 1"
  by (simp add: vec_remove_def)

lemma length_vec_insert [simp]: "length (vec_insert i x xs) = Suc (length xs)"
  by (simp add: vec_insert_def)

lemma set_vec_insert [simp]: "set (vec_insert i x xs) = insert x (set xs)"
proof -
  have "set xs = set (take i xs) \<union> set (drop i xs)"
    by (metis append_take_drop_id set_append)
  then show ?thesis by (auto simp: vec_insert_def)
qed

lemma vec_split: "i < length xs \<Longrightarrow> xs = take i xs @ xs ! i # drop (Suc i) xs"
  by (simp add: id_take_nth_drop)

lemma mset_vec_remove: "i < length xs \<Longrightarrow> set (vec_remove i xs) \<subseteq> set xs"
  by (auto simp: vec_remove_def dest: in_set_takeD in_set_dropD)

section \<open>Iterators\<close>

text \<open>
  An iterator is its \<^verbatim>\<open>next\<close> method: from a state to the item it yields, if any, and the state
  after the call. \<open>drain\<close> calls it until it yields nothing, as \<^verbatim>\<open>collect\<close> and a \<^verbatim>\<open>for\<close> loop
  do; its first argument bounds the number of calls, and running out of it is \<open>None\<close>.
\<close>

fun drain :: "nat \<Rightarrow> ('s \<Rightarrow> 'a option \<times> 's) \<Rightarrow> 's \<Rightarrow> ('a list \<times> 's) option" where
  "drain 0 nxt s = None"
| "drain (Suc n) nxt s =
     (case nxt s of
        (None, s') \<Rightarrow> Some ([], s')
      | (Some a, s') \<Rightarrow> map_option (\<lambda>(as, t). (a # as, t)) (drain n nxt s'))"

lemma drain_mono: "drain n nxt s = Some r \<Longrightarrow> n \<le> m \<Longrightarrow> drain m nxt s = Some r"
proof (induction n arbitrary: m s r)
  case (Suc n)
  then obtain k where m: "m = Suc k" "n \<le> k" by (cases m) auto
  obtain x s' where x: "nxt s = (x, s')" by (cases "nxt s")
  show ?case
  proof (cases x)
    case None
    with Suc.prems m x show ?thesis by simp
  next
    case (Some a)
    with Suc.prems x obtain as t where r: "drain n nxt s' = Some (as, t)" "r = (a # as, t)" by auto
    from Suc.IH [OF r(1) m(2)] r(2) x Some m(1) show ?thesis by simp
  qed
qed simp

text \<open>
  An iterator whose remaining items are known in advance, as the list \<open>items s\<close>: every
  call of \<^verbatim>\<open>next\<close> takes the first of them.
\<close>

locale list_iterator =
  fixes nxt :: "'s \<Rightarrow> 'a option \<times> 's"
    and items :: "'s \<Rightarrow> 'a list"
    and invar :: "'s \<Rightarrow> bool"
  assumes nxt_end: "invar s \<Longrightarrow> items s = [] \<Longrightarrow> fst (nxt s) = None"
    and nxt_item: "invar s \<Longrightarrow> items s = a # as \<Longrightarrow>
      fst (nxt s) = Some a \<and> items (snd (nxt s)) = as \<and> invar (snd (nxt s))"
begin

lemma drain_items:
  "invar s \<Longrightarrow> length (items s) < n \<Longrightarrow> \<exists>t. drain n nxt s = Some (items s, t)"
proof (induction n arbitrary: s)
  case (Suc n)
  show ?case
  proof (cases "items s")
    case Nil
    with nxt_end [OF Suc.prems(1)] show ?thesis by (cases "nxt s") auto
  next
    case (Cons a as)
    from nxt_item [OF Suc.prems(1) Cons]
    obtain s' where s': "nxt s = (Some a, s')" "items s' = as" "invar s'"
      by (cases "nxt s") auto
    with Suc.IH [of s'] Suc.prems(2) Cons show ?thesis by auto
  qed
qed simp

lemma drain_complete: "invar s \<Longrightarrow> drain n nxt s = Some (xs, t) \<Longrightarrow> xs = items s"
  using drain_items [of s "Suc (n + length (items s))"] drain_mono [of n nxt s "(xs, t)" "Suc (n + length (items s))"]
  by auto

end

declare drain.simps [simp del]

section \<open>Little-endian integers\<close>

lemma unat_u8_less: "unat (b :: u8) < 256"
  using unsigned_less [of b, where ?'a = nat] by simp

definition u64_to_le_bytes :: "u64 \<Rightarrow> u8 list" where
  "u64_to_le_bytes w = map (\<lambda>i. ucast (drop_bit (8 * i) w)) [0..<8]"

definition u64_from_le_bytes :: "u8 list \<Rightarrow> u64" where
  "u64_from_le_bytes bs = foldr (\<lambda>b acc. ucast b OR push_bit 8 acc) bs 0"

lemma length_u64_to_le_bytes [simp]: "length (u64_to_le_bytes w) = 8"
  by (simp add: u64_to_le_bytes_def)

lemma nth_u64_to_le_bytes: "i < 8 \<Longrightarrow> u64_to_le_bytes w ! i = ucast (drop_bit (8 * i) w)"
  by (simp add: u64_to_le_bytes_def)

lemma bit_le_step:
  fixes acc :: u64 and b :: u8
  shows "bit (ucast b OR push_bit 8 acc) n \<longleftrightarrow>
    n < 64 \<and> (if n < 8 then bit b n else bit acc (n - 8))"
proof (cases "n < 8")
  case True
  then show ?thesis by (simp add: bit_or_iff bit_push_bit_iff bit_unsigned_iff)
next
  case False
  then have "\<not> bit b n" using bit_imp_le_length [of b n] by auto
  with False show ?thesis by (auto simp: bit_or_iff bit_push_bit_iff bit_unsigned_iff)
qed

lemma bit_u64_from_le_bytes:
  "bit (u64_from_le_bytes bs) n \<longleftrightarrow>
     n < 64 \<and> n div 8 < length bs \<and> bit (bs ! (n div 8)) (n mod 8)"
proof (induction bs arbitrary: n)
  case (Cons b bs)
  have step: "u64_from_le_bytes (b # bs) = ucast b OR push_bit 8 (u64_from_le_bytes bs)"
    by (simp add: u64_from_le_bytes_def)
  show ?case
  proof (cases "n < 8")
    case False
    then have "n div 8 = Suc ((n - 8) div 8)" "n mod 8 = (n - 8) mod 8"
      by (simp_all add: le_div_geq le_mod_geq)
    with False show ?thesis by (auto simp: step bit_le_step Cons.IH)
  qed (simp add: step bit_le_step)
qed (simp add: u64_from_le_bytes_def)

lemma u64_le_roundtrip [simp]: "u64_from_le_bytes (u64_to_le_bytes w) = w"
proof (rule bit_word_eqI)
  fix n assume "n < LENGTH(64)"
  then have n: "n < 64" "n div 8 < 8" by simp_all
  then have "8 * (n div 8) + n mod 8 = n" by simp
  with n show "bit (u64_from_le_bytes (u64_to_le_bytes w)) n \<longleftrightarrow> bit w n"
    by (simp only: bit_u64_from_le_bytes nth_u64_to_le_bytes length_u64_to_le_bytes)
      (simp add: bit_unsigned_iff bit_drop_bit_eq)
qed

lemma u64_le_roundtrip_bytes:
  assumes "length bs = 8"
  shows "u64_to_le_bytes (u64_from_le_bytes bs) = bs"
proof (rule nth_equalityI)
  fix i assume "i < length (u64_to_le_bytes (u64_from_le_bytes bs))"
  then have i: "i < 8" by simp
  have "bit (u64_to_le_bytes (u64_from_le_bytes bs) ! i) k \<longleftrightarrow> bit (bs ! i) k" if k: "k < 8" for k
  proof -
    have "(8 * i + k) div 8 = i" "(8 * i + k) mod 8 = k" "8 * i + k < 64"
      using i k by simp_all
    with i k assms show ?thesis
      by (simp add: u64_to_le_bytes_def bit_unsigned_iff bit_drop_bit_eq bit_u64_from_le_bytes)
  qed
  then show "u64_to_le_bytes (u64_from_le_bytes bs) ! i = bs ! i"
    by (intro bit_word_eqI) simp
qed (simp add: assms)

section \<open>Loops that can panic\<close>

text \<open>\<^verbatim>\<open>for x in list { .. }\<close> over a state, where a round may panic.\<close>

fun for_each :: "('x \<Rightarrow> 's \<Rightarrow> 's option) \<Rightarrow> 'x list \<Rightarrow> 's \<Rightarrow> 's option" where
  "for_each f [] s = Some s"
| "for_each f (x # xs) s = Option.bind (f x s) (for_each f xs)"

text \<open>\<^verbatim>\<open>all\<close>, \<^verbatim>\<open>filter\<close> and \<^verbatim>\<open>find\<close> with a closure that can panic.\<close>

fun all_option :: "('x \<Rightarrow> bool option) \<Rightarrow> 'x list \<Rightarrow> bool option" where
  "all_option f [] = Some True"
| "all_option f (x # xs) = Option.bind (f x) (\<lambda>r. if r then all_option f xs else Some False)"

fun filter_option :: "('x \<Rightarrow> bool option) \<Rightarrow> 'x list \<Rightarrow> 'x list option" where
  "filter_option f [] = Some []"
| "filter_option f (x # xs) = Option.bind (f x) (\<lambda>r. map_option (\<lambda>ys. if r then x # ys else ys) (filter_option f xs))"

fun find_option :: "('x \<Rightarrow> bool option) \<Rightarrow> 'x list \<Rightarrow> 'x option option" where
  "find_option f [] = Some None"
| "find_option f (x # xs) = Option.bind (f x) (\<lambda>r. if r then Some (Some x) else find_option f xs)"

text \<open>A loop that keeps a property and cannot panic.\<close>

lemma for_each_keeps:
  assumes "P s" "\<And>x s. x \<in> set xs \<Longrightarrow> P s \<Longrightarrow> \<exists>s'. f x s = Some s' \<and> P s'"
  shows "\<exists>s'. for_each f xs s = Some s' \<and> P s'"
  using assms
proof (induction xs arbitrary: s)
  case (Cons x xs)
  then obtain s' where "f x s = Some s'" "P s'" by force
  with Cons show ?case by simp
qed simp

lemma filter_option_total: "(\<And>x. x \<in> set xs \<Longrightarrow> f x = Some (g x)) \<Longrightarrow> filter_option f xs = Some (filter g xs)"
  by (induction xs) auto

lemma find_option_total: "(\<And>x. x \<in> set xs \<Longrightarrow> f x = Some (g x)) \<Longrightarrow> find_option f xs = Some (List.find g xs)"
  by (induction xs) auto

section \<open>Slabs\<close>

text \<open>The order in which a slab iterates is some order of its keys.\<close>

definition slab_order :: "(('k \<rightharpoonup> 'v) \<Rightarrow> 'k list) \<Rightarrow> bool" where
  "slab_order keys \<longleftrightarrow> (\<forall>N. finite (dom N) \<longrightarrow> distinct (keys N) \<and> set (keys N) = dom N)"

lemma set_map_filter: "set (List.map_filter f xs) = {y. \<exists>x\<in>set xs. f x = Some y}"
  by (force simp: map_filter_def)

lemma map_filter_pairs: "map fst (List.map_filter (\<lambda>i. map_option (Pair i) (f i)) xs) = filter (\<lambda>i. f i \<noteq> None) xs"
  by (induction xs) (auto simp: map_filter_simps split: option.splits)

text \<open>The order of the indices is such an order.\<close>

definition key_order :: "('k::linorder \<rightharpoonup> 'v) \<Rightarrow> 'k list" where
  "key_order N = sorted_list_of_set (dom N)"

lemma slab_order_key_order: "slab_order key_order"
  by (simp add: slab_order_def key_order_def)

end
