(* ===== verification/Nibble.thy ===== *)
theory Nibble
  imports Smoldot_Prelude
begin

text \<open>
  The nibbles of \<^verbatim>\<open>src/trie/nibble.rs\<close>: the \<^verbatim>\<open>Nibble\<close> type, and the two iterators that turn
  bytes into nibbles and back. The iterators are modelled by their \<^verbatim>\<open>next\<close> method and their
  \<^verbatim>\<open>size_hint\<close>; \<open>nibbles_of\<close> and \<open>bytes_of\<close> are the lists they yield, and the lemmas show that
  the two conversions are inverse to each other, keep the lexicographic order of keys, and that
  the size hints are exact.
\<close>

section \<open>Definitions\<close>

datatype nibble = Nibble u8

datatype nibble_from_u8_error = TooLarge

definition nibble_try_from :: "u8 \<Rightarrow> nibble_from_u8_error + nibble" where
  "nibble_try_from val = (if val < 16 then Inr (Nibble val) else Inl TooLarge)"

primrec u8_from_nibble :: "nibble \<Rightarrow> u8" where
  "u8_from_nibble (Nibble n) = n"

definition all_nibbles :: "nibble list" where
  "all_nibbles = map (\<lambda>i. Nibble (of_nat i)) [0..<16]"

text \<open>The order the source derives: that of the inner byte.\<close>

instantiation nibble :: linorder
begin

definition less_eq_nibble :: "nibble \<Rightarrow> nibble \<Rightarrow> bool" where
  "less_eq_nibble a b \<longleftrightarrow> u8_from_nibble a \<le> u8_from_nibble b"

definition less_nibble :: "nibble \<Rightarrow> nibble \<Rightarrow> bool" where
  "less_nibble a b \<longleftrightarrow> u8_from_nibble a < u8_from_nibble b"

instance
proof
  fix a b :: nibble
  show "a \<le> b \<Longrightarrow> b \<le> a \<Longrightarrow> a = b"
    by (cases a; cases b) (simp add: less_eq_nibble_def)
qed (auto simp: less_eq_nibble_def less_nibble_def)

end

subsection \<open>From nibbles to bytes\<close>

fun nibbles_to_bytes_next :: "nibble list \<Rightarrow> u8 option \<times> nibble list" where
  "nibbles_to_bytes_next [] = (None, [])"
| "nibbles_to_bytes_next (n1 # rest) =
     (let n2 = (case rest of [] \<Rightarrow> Nibble 0 | n # _ \<Rightarrow> n);
          byte = push_bit 4 (u8_from_nibble n1) OR u8_from_nibble n2
      in (Some byte, tl rest))"

text \<open>\<^verbatim>\<open>usize\<close> arithmetic in the size hints saturates at the largest \<^verbatim>\<open>usize\<close>, \<open>M\<close>.\<close>

definition saturating_add :: "nat \<Rightarrow> nat \<Rightarrow> nat \<Rightarrow> nat" where
  "saturating_add M a b = min M (a + b)"

definition saturating_mul :: "nat \<Rightarrow> nat \<Rightarrow> nat \<Rightarrow> nat" where
  "saturating_mul M a b = min M (a * b)"

definition checked_add :: "nat \<Rightarrow> nat \<Rightarrow> nat \<Rightarrow> nat option" where
  "checked_add M a b = (if a + b \<le> M then Some (a + b) else None)"

definition checked_mul :: "nat \<Rightarrow> nat \<Rightarrow> nat \<Rightarrow> nat option" where
  "checked_mul M a b = (if a * b \<le> M then Some (a * b) else None)"

definition nibbles_to_bytes_size_hint ::
    "nat \<Rightarrow> nat \<times> nat option \<Rightarrow> nat \<times> nat option" where
  "nibbles_to_bytes_size_hint M hint =
     (let conv = (\<lambda>n. saturating_add M n 1 div 2)
      in (conv (fst hint), map_option conv (snd hint)))"

subsection \<open>From bytes to nibbles\<close>

record bytes_to_nibbles_iter =
  inner :: "u8 list"
  next_nibble :: "nibble option"

definition bytes_to_nibbles :: "u8 list \<Rightarrow> bytes_to_nibbles_iter" where
  "bytes_to_nibbles bytes = \<lparr>inner = bytes, next_nibble = None\<rparr>"

definition bytes_to_nibbles_next ::
    "bytes_to_nibbles_iter \<Rightarrow> nibble option \<times> bytes_to_nibbles_iter" where
  "bytes_to_nibbles_next it =
     (case next_nibble it of
        Some n \<Rightarrow> (Some n, it\<lparr>next_nibble := None\<rparr>)
      | None \<Rightarrow>
          (case inner it of
             [] \<Rightarrow> (None, it)
           | byte # rest \<Rightarrow>
               (Some (Nibble (drop_bit 4 byte)),
                it\<lparr>inner := rest, next_nibble := Some (Nibble (byte AND 0xf))\<rparr>)))"

definition bytes_to_nibbles_size_hint ::
    "nat \<Rightarrow> bytes_to_nibbles_iter \<Rightarrow> nat \<times> nat option \<Rightarrow> nat \<times> nat option" where
  "bytes_to_nibbles_size_hint M it hint =
     (let min = fst hint; max = snd hint
      in if next_nibble it \<noteq> None
         then (saturating_add M (saturating_mul M min 2) 1,
               Option.bind (Option.bind max (\<lambda>m. checked_mul M m 2)) (\<lambda>m. checked_add M m 1))
         else (saturating_mul M min 2, Option.bind max (\<lambda>m. checked_mul M m 2)))"

section \<open>What the iterators yield\<close>

definition nibble_ok :: "nibble \<Rightarrow> bool" where
  "nibble_ok n \<longleftrightarrow> u8_from_nibble n < 16"

fun nibbles_of :: "u8 list \<Rightarrow> nibble list" where
  "nibbles_of [] = []"
| "nibbles_of (b # bs) = Nibble (drop_bit 4 b) # Nibble (b AND 0xf) # nibbles_of bs"

fun bytes_of :: "nibble list \<Rightarrow> u8 list" where
  "bytes_of [] = []"
| "bytes_of [n] = [push_bit 4 (u8_from_nibble n)]"
| "bytes_of (n1 # n2 # ns) =
     (push_bit 4 (u8_from_nibble n1) OR u8_from_nibble n2) # bytes_of ns"

definition b2n_items :: "bytes_to_nibbles_iter \<Rightarrow> nibble list" where
  "b2n_items it = (case next_nibble it of None \<Rightarrow> [] | Some n \<Rightarrow> [n]) @ nibbles_of (inner it)"

interpretation b2n: list_iterator bytes_to_nibbles_next b2n_items "\<lambda>_. True"
  by unfold_locales
    (auto simp: bytes_to_nibbles_next_def b2n_items_def split: option.splits list.splits)

interpretation n2b: list_iterator nibbles_to_bytes_next bytes_of "\<lambda>_. True"
proof unfold_locales
  fix ns :: "nibble list" and b bs
  show "bytes_of ns = [] \<Longrightarrow> fst (nibbles_to_bytes_next ns) = None"
    by (cases ns rule: bytes_of.cases) simp_all
  show "bytes_of ns = b # bs \<Longrightarrow>
      fst (nibbles_to_bytes_next ns) = Some b \<and> bytes_of (snd (nibbles_to_bytes_next ns)) = bs \<and> True"
    by (cases ns rule: bytes_of.cases) simp_all
qed

section \<open>Bytes as pairs of nibbles\<close>

lemma unat_hi: "unat (drop_bit 4 (b :: u8)) = unat b div 16"
  by (simp only: unat_drop_bit_eq) (simp add: drop_bit_eq_div)

lemma low_mask: "(0xf :: u8) = mask 4"
  by (simp add: mask_eq_exp_minus_1)

lemma unat_lo: "unat ((b :: u8) AND 0xf) = unat b mod 16"
proof -
  have "unat (b AND 0xf) = unat b AND mask 4"
    by (simp add: unsigned_and_eq mask_eq_exp_minus_1)
  then show ?thesis by (simp flip: take_bit_eq_mask add: take_bit_eq_mod)
qed

lemma nibbles_ok [simp]: "nibble_ok (Nibble (drop_bit 4 b))" "nibble_ok (Nibble (b AND 0xf))"
  using unat_u8_less [of b]
  by (simp_all add: nibble_ok_def word_less_nat_alt unat_hi unat_lo div_less_iff_less_mult)

lemma nibble_bit: "nibble_ok n \<Longrightarrow> bit (u8_from_nibble n) k \<Longrightarrow> k < 4"
proof (rule ccontr)
  assume n: "nibble_ok n" and b: "bit (u8_from_nibble n) k" and "\<not> k < 4"
  then have "unat (u8_from_nibble n) div 2 ^ k = 0"
    using power_increasing [of 4 k "2 :: nat"] by (simp add: nibble_ok_def word_less_nat_alt)
  then have "\<not> bit (unat (u8_from_nibble n)) k" by (simp add: bit_iff_odd)
  with b show False by (simp add: bit_unsigned_iff)
qed

lemma join_split: "push_bit 4 (drop_bit 4 (b :: u8)) OR (b AND 0xf) = b"
  unfolding low_mask
  by (rule bit_word_eqI) (auto simp: bit_or_iff bit_and_iff bit_push_bit_iff bit_drop_bit_eq bit_mask_iff)

lemma split_join_hi:
  assumes "nibble_ok n1" "nibble_ok n2"
  shows "drop_bit 4 (push_bit 4 (u8_from_nibble n1) OR u8_from_nibble n2) = u8_from_nibble n1"
  by (rule bit_word_eqI)
    (auto simp: bit_or_iff bit_push_bit_iff bit_drop_bit_eq
      dest: nibble_bit [OF assms(1)] nibble_bit [OF assms(2)])

lemma split_join_lo:
  assumes "nibble_ok n2"
  shows "(push_bit 4 (u8_from_nibble n1) OR u8_from_nibble n2) AND 0xf = u8_from_nibble n2"
  unfolding low_mask
  by (rule bit_word_eqI)
    (auto simp: bit_or_iff bit_and_iff bit_push_bit_iff bit_mask_iff dest: nibble_bit [OF assms])

lemma Nibble_u8 [simp]: "Nibble (u8_from_nibble n) = n"
  by (cases n) simp

lemma length_nibbles_of [simp]: "length (nibbles_of bs) = 2 * length bs"
  by (induction bs) simp_all

lemma length_bytes_of [simp]: "length (bytes_of ns) = (length ns + 1) div 2"
  by (induction ns rule: bytes_of.induct) simp_all

lemma nibbles_of_ok: "n \<in> set (nibbles_of bs) \<Longrightarrow> nibble_ok n"
  by (induction bs) auto

lemma bytes_of_nibbles_of [simp]: "bytes_of (nibbles_of bs) = bs"
  by (induction bs) (simp_all add: join_split)

text \<open>An odd list of nibbles comes back with a zero nibble at its end.\<close>

lemma nibbles_of_bytes_of:
  "(\<forall>n \<in> set ns. nibble_ok n) \<Longrightarrow>
     nibbles_of (bytes_of ns) = ns @ (if even (length ns) then [] else [Nibble 0])"
proof (induction ns rule: bytes_of.induct)
  case (2 n)
  then show ?case
    using split_join_hi [of n "Nibble 0"] split_join_lo [of "Nibble 0" n] by (simp add: nibble_ok_def)
qed (simp_all add: split_join_hi split_join_lo del: drop_bit_or)

text \<open>
  The order of keys: comparing the bytes of two keys lexicographically is comparing their
  nibbles lexicographically.
\<close>

lemma div_mod_order:
  "(x :: nat) < y \<longleftrightarrow> x div 16 < y div 16 \<or> x div 16 = y div 16 \<and> x mod 16 < y mod 16"
proof -
  have "x = 16 * (x div 16) + x mod 16" "y = 16 * (y div 16) + y mod 16"
    and "x mod 16 < 16" "y mod 16 < 16" by simp_all
  then show ?thesis by linarith
qed

lemma byte_order:
  "(a :: u8) < b \<longleftrightarrow>
     Nibble (drop_bit 4 a) < Nibble (drop_bit 4 b) \<or>
     Nibble (drop_bit 4 a) = Nibble (drop_bit 4 b) \<and> Nibble (a AND 0xf) < Nibble (b AND 0xf)"
proof -
  note div_mod_order [of "unat a" "unat b"]
  moreover have "drop_bit 4 a = drop_bit 4 b \<longleftrightarrow> unat a div 16 = unat b div 16"
    by (metis unat_hi unsigned_word_eqI)
  ultimately show ?thesis
    by (simp only: less_nibble_def u8_from_nibble.simps nibble.inject word_less_nat_alt unat_hi unat_lo)
qed

lemma byte_eq:
  "(a :: u8) = b \<longleftrightarrow>
     Nibble (drop_bit 4 a) = Nibble (drop_bit 4 b) \<and> Nibble (a AND 0xf) = Nibble (b AND 0xf)"
  by (metis join_split nibble.inject)

lemma nibbles_of_less: "nibbles_of as < nibbles_of bs \<longleftrightarrow> as < bs"
proof (induction as arbitrary: bs)
  case Nil
  then show ?case by (cases bs) simp_all
next
  case (Cons a as)
  show ?case
  proof (cases bs)
    case (Cons b bs')
    then show ?thesis
      using byte_order [of a b] byte_eq [of a b] Cons.IH [of bs'] by auto
  qed simp
qed

lemma nibble_ok_all: "nibble_ok n \<longleftrightarrow> n \<in> set all_nibbles"
proof
  assume "nibble_ok n"
  then have "unat (u8_from_nibble n) < 16" by (simp add: nibble_ok_def word_less_nat_alt)
  then show "n \<in> set all_nibbles"
    by (cases n) (auto simp: all_nibbles_def image_iff intro!: bexI [of _ "unat (u8_from_nibble n)"])
next
  assume "n \<in> set all_nibbles"
  then obtain i where "i < 16" "n = Nibble (of_nat i)" by (auto simp: all_nibbles_def)
  then show "nibble_ok n" by (simp add: nibble_ok_def word_less_nat_alt unat_of_nat)
qed

lemma drain_bytes_to_nibbles:
  "2 * length bs < n \<Longrightarrow> \<exists>t. drain n bytes_to_nibbles_next (bytes_to_nibbles bs) = Some (nibbles_of bs, t)"
  using b2n.drain_items [of "bytes_to_nibbles bs" n] by (simp add: b2n_items_def bytes_to_nibbles_def)

lemma drain_bytes_to_nibbles_eq:
  "drain n bytes_to_nibbles_next (bytes_to_nibbles bs) = Some (ns, t) \<Longrightarrow> ns = nibbles_of bs"
  by (drule b2n.drain_complete [OF TrueI]) (simp add: b2n_items_def bytes_to_nibbles_def)

section \<open>Properties\<close>

text \<open>
  C21: turning bytes into nibbles yields two nibbles for each byte, and turning these nibbles back
  into bytes yields the bytes.
\<close>

theorem bytes_nibbles_roundtrip:
  "\<exists>ns t u. drain (2 * length bs + 1) bytes_to_nibbles_next (bytes_to_nibbles bs) = Some (ns, t) \<and>
     length ns = 2 * length bs \<and> set ns \<subseteq> set all_nibbles \<and>
     drain (length bs + 1) nibbles_to_bytes_next ns = Some (bs, u)"
proof -
  obtain t where t: "drain (2 * length bs + 1) bytes_to_nibbles_next (bytes_to_nibbles bs) = Some (nibbles_of bs, t)"
    using drain_bytes_to_nibbles [of bs "2 * length bs + 1"] by auto
  obtain u where u: "drain (length bs + 1) nibbles_to_bytes_next (nibbles_of bs) = Some (bs, u)"
    using n2b.drain_items [of "nibbles_of bs" "length bs + 1"] by auto
  have "set (nibbles_of bs) \<subseteq> set all_nibbles" using nibbles_of_ok nibble_ok_all by auto
  with t u show ?thesis by auto
qed

text \<open>
  Turning nibbles into bytes and back yields the nibbles, with a zero nibble added at the end
  when their number is odd.
\<close>

lemma nibbles_bytes_roundtrip:
  assumes "set ns \<subseteq> set all_nibbles"
  shows "\<exists>bs t u. drain (length ns + 1) nibbles_to_bytes_next ns = Some (bs, t) \<and>
     drain (length ns + 2) bytes_to_nibbles_next (bytes_to_nibbles bs) =
       Some (ns @ (if even (length ns) then [] else [Nibble 0]), u)"
proof -
  have ok: "\<forall>n \<in> set ns. nibble_ok n" using assms nibble_ok_all by auto
  obtain t where t: "drain (length ns + 1) nibbles_to_bytes_next ns = Some (bytes_of ns, t)"
    using n2b.drain_items [of ns "length ns + 1"] by auto
  obtain u where "drain (length ns + 2) bytes_to_nibbles_next (bytes_to_nibbles (bytes_of ns)) =
      Some (nibbles_of (bytes_of ns), u)"
    using drain_bytes_to_nibbles [of "bytes_of ns" "length ns + 2"] by fastforce
  with t show ?thesis unfolding nibbles_of_bytes_of [OF ok] by blast
qed

text \<open>
  C22: the nibbles of two keys compare, lexicographically, as their bytes do.
\<close>

theorem nibbles_keep_key_order:
  assumes "drain n bytes_to_nibbles_next (bytes_to_nibbles bs) = Some (ns, t)"
    and "drain m bytes_to_nibbles_next (bytes_to_nibbles cs) = Some (ms, u)"
  shows "(ns < ms \<longleftrightarrow> bs < cs) \<and> (ns = ms \<longleftrightarrow> bs = cs)"
  using assms [THEN drain_bytes_to_nibbles_eq] nibbles_of_less by (metis bytes_of_nibbles_of)

theorem nibbles_keep_key_order_witness:
  "\<exists>ns t ms u. drain 3 bytes_to_nibbles_next (bytes_to_nibbles [1]) = Some (ns, t) \<and>
     drain 5 bytes_to_nibbles_next (bytes_to_nibbles [1, 0]) = Some (ms, u) \<and> ns < ms"
proof -
  obtain t where t: "drain 3 bytes_to_nibbles_next (bytes_to_nibbles [1]) = Some (nibbles_of [1], t)"
    using drain_bytes_to_nibbles [of "[1]" 3] by auto
  obtain u where u: "drain 5 bytes_to_nibbles_next (bytes_to_nibbles [1, 0]) = Some (nibbles_of [1, 0], u)"
    using drain_bytes_to_nibbles [of "[1, 0]" 5] by auto
  from nibbles_keep_key_order [OF t u] t u show ?thesis by auto
qed

text \<open>
  When the numbers fit a \<^verbatim>\<open>usize\<close>, the size hint of the iterator over the nibbles is the
  number of nibbles it still yields.
\<close>

lemma nibbles_size_hint_exact:
  assumes "2 * length (inner it) + 1 \<le> M"
  shows "\<exists>ns t. drain (2 * length (inner it) + 2) bytes_to_nibbles_next it = Some (ns, t) \<and>
    bytes_to_nibbles_size_hint M it (length (inner it), Some (length (inner it))) =
      (length ns, Some (length ns))"
proof -
  obtain t where "drain (2 * length (inner it) + 2) bytes_to_nibbles_next it = Some (b2n_items it, t)"
    using b2n.drain_items [of it "2 * length (inner it) + 2"]
    by (cases "next_nibble it") (auto simp: b2n_items_def)
  moreover have "bytes_to_nibbles_size_hint M it (length (inner it), Some (length (inner it))) =
      (length (b2n_items it), Some (length (b2n_items it)))"
    using assms by (auto simp: bytes_to_nibbles_size_hint_def b2n_items_def saturating_mul_def
        saturating_add_def checked_mul_def checked_add_def Let_def split: option.split)
  ultimately show ?thesis by blast
qed

end
