(* ===== verification/Leb128.thy ===== *)
theory Leb128
  imports Smoldot_Prelude
begin

text \<open>
  The variable-length integers and the length-prefixed frames of \<^verbatim>\<open>src/util/leb128.rs\<close>, with
  \<^verbatim>\<open>usize\<close> a 64-bit word. The encoder is modelled by the \<^verbatim>\<open>next\<close> method of its iterator, the
  decoder and the frame by the loops of the source. The lemmas show that the decoder accepts
  exactly what the encoder yields, and that a frame is recovered from any split of its bytes
  into pieces.
\<close>

section \<open>Encoding\<close>

record encode_iter =
  ei_value :: u64
  ei_finished :: bool

definition leb128_encode :: "u64 \<Rightarrow> encode_iter" where
  "leb128_encode v = \<lparr>ei_value = v, ei_finished = False\<rparr>"

definition encode_next :: "encode_iter \<Rightarrow> u8 option \<times> encode_iter" where
  "encode_next it =
     (if ei_finished it then (None, it)
      else if ei_value it < push_bit 7 1 then (Some (ucast (ei_value it)), it\<lparr>ei_finished := True\<rparr>)
      else (Some (push_bit 7 1 OR ucast (ei_value it AND 0x7f)), it\<lparr>ei_value := drop_bit 7 (ei_value it)\<rparr>))"

text \<open>
  Collecting and counting the items. An encoding has at most ten bytes, so that the eleventh call
  of \<^verbatim>\<open>next\<close> at the latest ends the loop; the lemmas below show that the bound is never reached.
\<close>

definition encode_size_hint :: "encode_iter \<Rightarrow> nat option" where
  "encode_size_hint it = map_option (\<lambda>(xs, _). length xs) (drain 11 encode_next it)"

definition encode_usize :: "u64 \<Rightarrow> u8 list option" where
  "encode_usize v = map_option fst (drain 11 encode_next (leb128_encode v))"

section \<open>Decoding\<close>

definition checked_mul :: "u64 \<Rightarrow> u64 \<Rightarrow> u64 option" where
  "checked_mul a b = (if unat a * unat b < 2 ^ 64 then Some (a * b) else None)"

datatype nom_error = LengthValue | Verify | Eof

fun nom_leb128_loop :: "nat \<Rightarrow> u64 \<Rightarrow> u8 list \<Rightarrow> nom_error + (u8 list \<times> u64)" where
  "nom_leb128_loop n out [] = Inl Eof"
| "nom_leb128_loop n out (byte # bytes) =
     (if 7 * n \<ge> 64 then Inl LengthValue
      else case checked_mul (ucast (byte AND 0x7f)) (push_bit (7 * n) 1) of
        None \<Rightarrow> Inl LengthValue
      | Some o' \<Rightarrow>
          let out = out OR o' in
          if byte AND 0x80 = 0 then
            if n \<ge> 1 \<and> byte = 0 then Inl Verify else Inr (bytes, out)
          else nom_leb128_loop (n + 1) out bytes)"

definition nom_leb128_usize :: "u8 list \<Rightarrow> nom_error + (u8 list \<times> u64)" where
  "nom_leb128_usize bytes = nom_leb128_loop 0 0 bytes"

section \<open>Frames\<close>

datatype framed_error = LengthPrefixTooLarge | NonMinimalLengthPrefix | MaxLengthExceeded u64

datatype framed_inner = Length | Body u64

record framed_in_progress =
  max_len :: u64
  buffer :: "u8 list"
  inner :: framed_inner

datatype framed = InProgress framed_in_progress | Finished "u8 list"

definition framed_new :: "u64 \<Rightarrow> framed_in_progress" where
  "framed_new m = \<lparr>max_len = m, buffer = [], inner = Length\<rparr>"

fun decode_leb128_loop :: "nat \<Rightarrow> u64 \<Rightarrow> u8 list \<Rightarrow> (framed_error + u64) option" where
  "decode_leb128_loop n out [] = None"
| "decode_leb128_loop n out (byte # bytes) =
     (if 7 * n \<ge> 64 then Some (Inl LengthPrefixTooLarge)
      else case checked_mul (ucast (byte AND 0x7f)) (push_bit (7 * n) 1) of
        None \<Rightarrow> Some (Inl LengthPrefixTooLarge)
      | Some o' \<Rightarrow>
          let out = out OR o' in
          if byte AND 0x80 = 0 then
            if n \<ge> 1 \<and> byte = 0 then Some (Inl NonMinimalLengthPrefix) else Some (Inr out)
          else decode_leb128_loop (n + 1) out bytes)"

definition decode_leb128 :: "u8 list \<Rightarrow> (framed_error + u64) option" where
  "decode_leb128 bytes = decode_leb128_loop 0 0 bytes"

text \<open>The loop of \<^verbatim>\<open>update\<close>, with the number of bytes read so far.\<close>

definition update_body :: "nat \<Rightarrow> framed_in_progress \<Rightarrow> u64 \<Rightarrow> u8 list \<Rightarrow> nat \<times> framed" where
  "update_body total_read f expected_len data =
     (let missing = unat (expected_len - of_nat (length (buffer f)));
          available = min missing (length data);
          f = f\<lparr>buffer := buffer f @ take available data\<rparr>;
          total_read = total_read + available
      in if unat expected_len = length (buffer f) then (total_read, Finished (buffer f))
         else (total_read, InProgress f))"

fun update_loop :: "nat \<Rightarrow> framed_in_progress \<Rightarrow> u8 list \<Rightarrow> framed_error + nat \<times> framed" where
  "update_loop total_read f [] =
     (case inner f of
        Length \<Rightarrow> Inr (total_read, InProgress f)
      | Body expected_len \<Rightarrow> Inr (update_body total_read f expected_len []))"
| "update_loop total_read f (byte # data) =
     (case inner f of
        Length \<Rightarrow>
          let f = f\<lparr>buffer := buffer f @ [byte]\<rparr> in
          if length (buffer f) \<ge> 2 * 8 then Inl LengthPrefixTooLarge
          else case decode_leb128 (buffer f) of
            None \<Rightarrow> update_loop (total_read + 1) f data
          | Some r \<Rightarrow>
              and_then r (\<lambda>expected_len.
                if expected_len > max_len f then Inl (MaxLengthExceeded (max_len f))
                else update_loop (total_read + 1) (f\<lparr>buffer := [], inner := Body expected_len\<rparr>) data)
      | Body expected_len \<Rightarrow> Inr (update_body total_read f expected_len (byte # data)))"

definition framed_update :: "framed_in_progress \<Rightarrow> u8 list \<Rightarrow> framed_error + nat \<times> framed" where
  "framed_update f data = update_loop 0 f data"

section \<open>The numbers behind the bytes\<close>

function leb :: "nat \<Rightarrow> u8 list" where
  "leb k = (if k < 128 then [of_nat k] else of_nat (128 + k mod 128) # leb (k div 128))"
  by auto
termination by (relation "measure id") auto

declare leb.simps [simp del]

lemma leb_small [simp]: "k < 128 \<Longrightarrow> leb k = [of_nat k]"
  by (simp add: leb.simps)

lemma leb_large: "\<not> k < 128 \<Longrightarrow> leb k = of_nat (128 + k mod 128) # leb (k div 128)"
  by (simp add: leb.simps)

lemma leb_not_Nil [simp]: "leb k \<noteq> []"
  by (cases "k < 128") (simp_all add: leb_large)

lemma leb_length_le: "k < 128 ^ n \<Longrightarrow> 0 < n \<Longrightarrow> length (leb k) \<le> n"
proof (induction k arbitrary: n rule: leb.induct)
  case (1 k)
  show ?case
  proof (cases "k < 128")
    case False
    with "1.prems" obtain m where n: "n = Suc m" "0 < m" by (cases n; cases "n - 1") auto
    then have "k div 128 < 128 ^ m" using "1.prems" by (simp add: less_mult_imp_div_less mult.commute)
    with "1.IH" [OF False _ n(2)] False n show ?thesis by (simp add: leb_large)
  qed (use "1.prems" in simp)
qed

lemma unat_to_u8 [simp]: "unat (ucast (w :: u64) :: u8) = unat w mod 256"
  by (simp add: unsigned_ucast_eq take_bit_eq_mod)

lemma unat_to_u64 [simp]: "unat (ucast (w :: u8) :: u64) = unat w"
proof -
  have "unat w < 2 ^ 64" using unsigned_less [of w, where ?'a = nat] by simp
  then show ?thesis by (simp add: unsigned_ucast_eq take_bit_eq_mod)
qed

lemma low_bits: "unat (w AND 0x7f) = unat w mod 128" for w :: "'a::len word"
proof -
  have "w AND 0x7f = take_bit 7 w" by (simp add: take_bit_eq_mask mask_eq_exp_minus_1)
  then have "unat (w AND 0x7f) = take_bit 7 (unat w)" by (simp only: unsigned_take_bit_eq)
  then show ?thesis by (simp add: take_bit_eq_mod)
qed

lemma bit_7: "bit b 7 \<longleftrightarrow> 128 \<le> unat b" for b :: u8
proof -
  have "bit b 7 \<longleftrightarrow> odd (unat b div 128)" using bit_iff_odd [of "unat b" 7] by (simp add: bit_unsigned_iff)
  moreover have "unat b div 128 < 2" using unat_u8_less [of b] by (simp add: less_mult_imp_div_less)
  then have "odd (unat b div 128) \<longleftrightarrow> 128 \<le> unat b" by (cases "unat b div 128") (auto simp: div_eq_0_iff)
  ultimately show ?thesis by simp
qed

lemma high_bit: "b AND 0x80 = 0 \<longleftrightarrow> unat b < 128" for b :: u8
  using and_exp_eq_0_iff_not_bit [of b 7] bit_7 [of b] by auto

text \<open>The encoder yields the bytes of \<open>leb\<close>.\<close>

lemma unat_of_nat_u8: "k < 256 \<Longrightarrow> unat (of_nat k :: u8) = k"
  by (simp add: unat_of_nat take_bit_eq_mod)

lemma encode_byte: "push_bit 7 1 OR ucast (v AND 0x7f) = (of_nat (128 + unat v mod 128) :: u8)" for v :: u64
proof -
  have m: "(of_nat (unat v mod 128) :: u8) = ucast (v AND 0x7f)"
  unfolding word_unat_eq_iff
  proof -
    have "unat v mod 128 < 256" by (rule less_trans [of _ 128]) simp_all
    then show "unat (of_nat (unat v mod 128) :: u8) = unat (ucast (v AND 0x7f) :: u8)"
      by (simp only: unat_of_nat_u8 unat_to_u8 low_bits mod_less)
  qed
  have "unat (ucast (v AND 0x7f) :: u8) < 128" by (simp add: low_bits less_trans [of _ 128 256])
  then have "ucast (v AND 0x7f) AND (0x80 :: u8) = 0" by (simp only: high_bit)
  then have "(push_bit 7 1 :: u8) AND ucast (v AND 0x7f) = 0" by (simp add: and.commute)
  then have "(push_bit 7 1 :: u8) OR ucast (v AND 0x7f) = push_bit 7 1 + ucast (v AND 0x7f)"
    by (rule disjunctive_add_eq_or [symmetric])
  then show ?thesis by (simp add: m [symmetric] push_bit_of_1)
qed

definition encode_items :: "encode_iter \<Rightarrow> u8 list" where
  "encode_items it = (if ei_finished it then [] else leb (unat (ei_value it)))"

interpretation enc: list_iterator encode_next encode_items "\<lambda>_. True"
proof
  fix it show "encode_items it = [] \<Longrightarrow> fst (encode_next it) = None"
    by (simp add: encode_items_def encode_next_def split: if_splits)
next
  fix it b bs assume it: "encode_items it = b # bs"
  then have nf: "\<not> ei_finished it" by (auto simp: encode_items_def)
  have less: "ei_value it < push_bit 7 1 \<longleftrightarrow> unat (ei_value it) < 128"
    by (simp add: push_bit_of_1 word_less_nat_alt)
  show "fst (encode_next it) = Some b \<and> encode_items (snd (encode_next it)) = bs \<and> True"
  proof (cases "unat (ei_value it) < 128")
    case True
    then have "b = of_nat (unat (ei_value it))" "bs = []" using it nf by (simp_all add: encode_items_def)
    moreover have "(ucast (ei_value it) :: u8) = of_nat (unat (ei_value it))"
      using True by (simp add: word_unat_eq_iff unat_of_nat_u8)
    ultimately have "ucast (ei_value it) = b" "bs = []" by (simp_all only:)
    then show ?thesis using nf less True by (simp add: encode_items_def encode_next_def)
  next
    case False
    have "unat (drop_bit 7 (ei_value it)) = unat (ei_value it) div 128"
      by (simp add: drop_bit_eq_div unat_div)
    with False it nf less show ?thesis by (simp add: encode_items_def encode_next_def leb_large encode_byte [simplified])
  qed
qed

lemma leb_u64_length: "length (leb (unat (v :: u64))) \<le> 10"
proof -
  have "unat v < 128 ^ 10" using unsigned_less [of v, where ?'a = nat] by simp
  then show ?thesis by (rule leb_length_le) simp
qed

lemma encode_usize_leb: "encode_usize v = Some (leb (unat v))"
proof -
  have "length (encode_items (leb128_encode v)) < 11"
    using leb_u64_length [of v] by (simp add: encode_items_def leb128_encode_def)
  from enc.drain_items [OF _ this] show ?thesis
    by (auto simp: encode_usize_def encode_items_def leb128_encode_def)
qed

lemma encode_size_hint_exact: "encode_size_hint it = Some (length (encode_items it))"
proof -
  have "length (encode_items it) < 11"
    using leb_u64_length [of "ei_value it"] by (simp add: encode_items_def)
  from enc.drain_items [OF _ this] show ?thesis by (auto simp: encode_size_hint_def)
qed

section \<open>The decoder accepts the encodings\<close>

lemma unat_shifted: "unat c * 2 ^ m < 2 ^ 64 \<Longrightarrow> unat (push_bit m c) = unat c * 2 ^ m" for c :: u64
proof -
  assume less: "unat c * 2 ^ m < 2 ^ 64"
  have "unat (push_bit m c) = take_bit LENGTH(64) (push_bit m (unat c))" by (rule unsigned_push_bit_eq)
  then show ?thesis using less by (simp add: push_bit_eq_mult take_bit_nat_eq_self)
qed

lemma unat_or_shifted:
  fixes out c :: u64
  assumes "unat out < 2 ^ m" "unat c * 2 ^ m < 2 ^ 64" "m < 64"
  shows "unat (out OR c * push_bit m 1) = unat out + unat c * 2 ^ m"
proof -
  have p: "c * push_bit m 1 = push_bit m c" by (simp add: push_bit_eq_mult push_bit_of_1)
  have "take_bit m out = out"
    using assms(1) by (simp add: word_unat_eq_iff unsigned_take_bit_eq take_bit_nat_eq_self)
  then have "n < m" if "bit out n" for n using that by (metis bit_take_bit_iff)
  then have "out AND push_bit m c = 0" by (intro bit_word_eqI) (auto simp: bit_and_iff bit_push_bit_iff not_less [symmetric])
  then have "out OR push_bit m c = out + push_bit m c" by (rule disjunctive_add_eq_or [symmetric])
  moreover have "unat (push_bit m c) = unat c * 2 ^ m" by (rule unat_shifted [OF assms(2)])
  moreover have "unat out + unat c * 2 ^ m < 2 ^ 64"
  proof -
    obtain d where d: "(2::nat) ^ 64 = d * 2 ^ m" using assms(3) by (metis le_imp_power_dvd dvd_def less_imp_le mult.commute)
    then have "unat c < d" using assms(2) unfolding d by simp
    then have "(unat c + 1) * 2 ^ m \<le> 2 ^ 64" unfolding d by (intro mult_le_mono1) simp
    then show ?thesis using assms(1) by simp
  qed
  ultimately show ?thesis unfolding p by (simp add: unat_add_lem [THEN iffD1])
qed

lemma leb_eq_append_small: "unat b < 128 \<Longrightarrow> b # bs = leb k @ rest \<longleftrightarrow> k = unat b \<and> rest = bs"
proof (cases "k < 128")
  case True
  then show ?thesis by (auto simp: unat_of_nat_u8)
next
  case False
  have "unat (of_nat (128 + k mod 128) :: u8) = 128 + k mod 128" by (rule unat_of_nat_u8) (simp add: less_trans [of _ 128])
  then have "b \<noteq> of_nat (128 + k mod 128)" if "unat b < 128" using that by auto
  then show "unat b < 128 \<Longrightarrow> ?thesis" using False by (auto simp: leb_large)
qed

lemma leb_eq_append_large:
  "\<not> unat b < 128 \<Longrightarrow> b # bs = leb k @ rest \<longleftrightarrow> k mod 128 = unat b mod 128 \<and> 128 \<le> k \<and> bs = leb (k div 128) @ rest"
proof (cases "k < 128")
  case True
  then show "\<not> unat b < 128 \<Longrightarrow> ?thesis" by (auto simp: unat_of_nat_u8)
next
  case False
  assume b: "\<not> unat b < 128"
  then have "unat b = 128 + unat b mod 128" using unat_u8_less [of b] le_mod_geq [of 128 "unat b"] mod_less [of "unat b - 128" 128] by linarith
  moreover have "unat (of_nat (128 + k mod 128) :: u8) = 128 + k mod 128" by (rule unat_of_nat_u8) simp
  ultimately have "b = of_nat (128 + k mod 128) \<longleftrightarrow> k mod 128 = unat b mod 128" unfolding word_unat_eq_iff by linarith
  then show ?thesis using False by (auto simp: leb_large)
qed

text \<open>
  One round of the decoder on a byte: it goes on exactly if the seven low bits fit, and adds
  them to the number.
\<close>

lemma decode_round:
  assumes "unat out < 2 ^ (7 * n)" "7 * n < 64"
  shows "checked_mul (ucast (b AND 0x7f :: u8)) (push_bit (7 * n) 1) = None \<longleftrightarrow> 2 ^ 64 \<le> unat b mod 128 * 2 ^ (7 * n)"
    and "checked_mul (ucast (b AND 0x7f :: u8)) (push_bit (7 * n) 1) = Some v \<Longrightarrow>
      unat (out OR v) = unat out + unat b mod 128 * 2 ^ (7 * n) \<and> unat (out OR v) < 2 ^ (7 * (n + 1))"
proof -
  have p: "unat (push_bit (7 * n) 1 :: u64) = 2 ^ (7 * n)"
    using unat_shifted [of 1 "7 * n"] assms(2) power_strict_increasing_iff [of "2::nat" "7 * n" 64] by simp
  have c: "unat (ucast (b AND 0x7f) :: u64) = unat b mod 128" by (simp add: low_bits)
  show "checked_mul (ucast (b AND 0x7f :: u8)) (push_bit (7 * n) 1) = None \<longleftrightarrow> 2 ^ 64 \<le> unat b mod 128 * 2 ^ (7 * n)"
    unfolding checked_mul_def p c by auto
  assume "checked_mul (ucast (b AND 0x7f :: u8)) (push_bit (7 * n) 1) = Some v"
  then have v: "unat b mod 128 * 2 ^ (7 * n) < 2 ^ 64" "v = ucast (b AND 0x7f) * push_bit (7 * n) 1"
    unfolding checked_mul_def p c by (auto split: if_splits)
  then have eq: "unat (out OR v) = unat out + unat b mod 128 * 2 ^ (7 * n)"
    using unat_or_shifted [OF assms(1), of "ucast (b AND 0x7f)"] assms(2) by (simp add: low_bits)
  have "unat b mod 128 * 2 ^ (7 * n) \<le> 127 * 2 ^ (7 * n)" by (intro mult_le_mono1) (simp add: less_Suc_eq_le [symmetric])
  then have "unat (out OR v) < 128 * 2 ^ (7 * n)" using assms(1) unfolding eq by linarith
  with eq show "unat (out OR v) = unat out + unat b mod 128 * 2 ^ (7 * n) \<and> unat (out OR v) < 2 ^ (7 * (n + 1))"
    by (simp add: power_add)
qed

lemma high_part_fits:
  assumes "7 * n < 64" "0 < k div 128"
  shows "k div 128 * 2 ^ (7 * (n + 1)) < (2::nat) ^ 64 \<longleftrightarrow> k * 2 ^ (7 * n) < 2 ^ 64"
proof -
  have k: "k * 2 ^ (7 * n) = k div 128 * 2 ^ (7 * (n + 1)) + k mod 128 * 2 ^ (7 * n)"
  proof -
    have "k div 128 * 2 ^ (7 * (n + 1)) = k div 128 * 128 * (2::nat) ^ (7 * n)" by (simp add: power_add)
    then show ?thesis by (simp only: add_mult_distrib [symmetric] div_mult_mod_eq)
  qed
  have "k * 2 ^ (7 * n) < 2 ^ 64" if less: "k div 128 * 2 ^ (7 * (n + 1)) < (2::nat) ^ 64"
  proof -
    have "2 ^ (7 * (n + 1)) < (2::nat) ^ 64" using less assms(2) by (metis le_less_trans mult_le_mono1 nat_mult_1 Suc_leI One_nat_def)
    then have "7 * (n + 1) \<le> 64" by (meson less_imp_le one_less_numeral_iff power_less_imp_less_exp semiring_norm(76))
    then obtain d where d: "(2::nat) ^ 64 = d * 2 ^ (7 * (n + 1))" by (metis le_imp_power_dvd dvd_def mult.commute)
    then have "k div 128 < d" using less unfolding d by simp
    then have "(k div 128 + 1) * 2 ^ (7 * (n + 1)) \<le> 2 ^ 64" unfolding d by (intro mult_le_mono1) simp
    moreover have "k mod 128 * 2 ^ (7 * n) < 2 ^ (7 * (n + 1))" by (simp add: power_add)
    ultimately show ?thesis unfolding k by simp
  qed
  then show ?thesis unfolding k by linarith
qed

lemma leb_loop_step:
  assumes "\<not> unat b < 128" "7 * n < 64" "unat out' = unat out + unat b mod 128 * 2 ^ (7 * n)"
  shows "(\<exists>k. b # bs = leb k @ rest \<and> (n = 0 \<or> k \<noteq> 0) \<and> k * 2 ^ (7 * n) < 2 ^ 64 \<and> unat v = unat out + k * 2 ^ (7 * n)) \<longleftrightarrow>
    (\<exists>k. bs = leb k @ rest \<and> (n + 1 = 0 \<or> k \<noteq> 0) \<and> k * 2 ^ (7 * (n + 1)) < 2 ^ 64 \<and>
       unat v = unat out' + k * 2 ^ (7 * (n + 1)))"
    (is "?L \<longleftrightarrow> ?R")
proof -
  have split: "k * 2 ^ (7 * n) = k div 128 * 2 ^ (7 * (n + 1)) + k mod 128 * (2::nat) ^ (7 * n)" for k
  proof -
    have "k div 128 * 2 ^ (7 * (n + 1)) = k div 128 * 128 * (2::nat) ^ (7 * n)" by (simp add: power_add)
    then show ?thesis by (simp only: add_mult_distrib [symmetric] div_mult_mod_eq)
  qed
  show ?thesis
  proof
    assume ?L
    then obtain k where k: "k mod 128 = unat b mod 128" "128 \<le> k" "bs = leb (k div 128) @ rest" "k * 2 ^ (7 * n) < 2 ^ 64"
      "unat v = unat out + k * 2 ^ (7 * n)" using leb_eq_append_large [OF assms(1)] by blast
    then have "0 < k div 128" by (simp add: div_greater_zero_iff)
    with k high_part_fits [OF assms(2) this] show ?R
      unfolding assms(3) split [of k] by (intro exI [of _ "k div 128"]) simp
  next
    assume ?R
    then obtain j where j: "bs = leb j @ rest" "j \<noteq> 0" "j * 2 ^ (7 * (n + 1)) < 2 ^ 64" "unat v = unat out' + j * 2 ^ (7 * (n + 1))"
      by auto
    define k where "k = 128 * j + unat b mod 128"
    have k: "k div 128 = j" "k mod 128 = unat b mod 128" "128 \<le> k" using j(2) by (simp_all add: k_def)
    have "b # bs = leb k @ rest" using leb_eq_append_large [OF assms(1)] k j(1) by simp
    moreover have "k * 2 ^ (7 * n) < 2 ^ 64" using high_part_fits [OF assms(2), of k] j(2,3) k(1) by simp
    moreover have "unat v = unat out + k * 2 ^ (7 * n)" using j(4) unfolding assms(3) split [of k] k by simp
    ultimately show ?L using k(3) by (intro exI [of _ k]) simp
  qed
qed

text \<open>
  The loop returns a number and the rest exactly if the bytes start with the encoding of the
  higher part of the number.
\<close>

lemma nom_leb128_loop_iff:
  "unat out < 2 ^ (7 * n) \<Longrightarrow>
     nom_leb128_loop n out bs = Inr (rest, v) \<longleftrightarrow>
       (\<exists>k. bs = leb k @ rest \<and> (n = 0 \<or> k \<noteq> 0) \<and> k * 2 ^ (7 * n) < 2 ^ 64 \<and> unat v = unat out + k * 2 ^ (7 * n))"
proof (induction bs arbitrary: n out)
  case (Cons b bs)
  let ?p = "2 ^ (7 * n) :: nat"
  show ?case
  proof (cases "7 * n < 64")
    case False
    then have "(2::nat) ^ 64 \<le> ?p" by (intro power_increasing) simp_all
    then have "\<not> k * ?p < 2 ^ 64" if "k \<noteq> 0" for k using that by (cases k) simp_all
    with False show ?thesis by auto
  next
    case True
    note round = decode_round [OF Cons.prems True, of b]
    show ?thesis
    proof (cases "checked_mul (ucast (b AND 0x7f)) (push_bit (7 * n) 1)")
      case None
      have "\<not> k * ?p < 2 ^ 64" if "b # bs = leb k @ rest" for k
      proof -
        have "k mod 128 = unat b mod 128"
          using that leb_eq_append_small [of b bs k rest] leb_eq_append_large [of b bs k rest] by auto
        then have "unat b mod 128 * ?p \<le> k * ?p" by (metis mod_less_eq_dividend mult_le_mono1)
        moreover have "2 ^ 64 \<le> unat b mod 128 * ?p" using round(1) None by blast
        ultimately show ?thesis by linarith
      qed
      with None True show ?thesis by auto
    next
      case (Some w)
      note w = round(2) [OF Some]
      have fits: "unat b mod 128 * ?p < 2 ^ 64" using round(1) Some by auto
      show ?thesis
      proof (cases "unat b < 128")
        case small: True
        have "nom_leb128_loop n out (b # bs) = (if n \<ge> 1 \<and> unat b = 0 then Inl Verify else Inr (bs, out OR w))"
          using small True Some by (simp add: high_bit Let_def unat_eq_0)
        moreover have "out OR w = v \<longleftrightarrow> unat v = unat out + unat b * ?p" using w small by (auto simp: word_unat_eq_iff)
        ultimately show ?thesis using fits small by (auto simp: leb_eq_append_small [OF small])
      next
        case large: False
        have "nom_leb128_loop n out (b # bs) = nom_leb128_loop (n + 1) (out OR w) bs"
          using large True Some by (simp add: high_bit Let_def)
        moreover have "(\<exists>k. b # bs = leb k @ rest \<and> (n = 0 \<or> k \<noteq> 0) \<and> k * ?p < 2 ^ 64 \<and> unat v = unat out + k * ?p) \<longleftrightarrow>
          (\<exists>k. bs = leb k @ rest \<and> (n + 1 = 0 \<or> k \<noteq> 0) \<and> k * 2 ^ (7 * (n + 1)) < 2 ^ 64 \<and>
             unat v = unat (out OR w) + k * 2 ^ (7 * (n + 1)))"
          by (rule leb_loop_step [OF large True]) (simp add: w)
        ultimately show ?thesis using Cons.IH [of "out OR w" "n + 1"] w by simp
      qed
    qed
  qed
qed simp

lemma nom_leb128_usize_iff: "nom_leb128_usize bs = Inr (rest, v) \<longleftrightarrow> bs = leb (unat v) @ rest"
proof -
  have "unat v < 2 ^ 64" using unsigned_less [of v, where ?'a = nat] by simp
  then show ?thesis using nom_leb128_loop_iff [of 0 0 bs rest v] by (auto simp: nom_leb128_usize_def)
qed

section \<open>Receiving a frame\<close>

lemma nom_loop_consumes: "nom_leb128_loop n out bs = Inr (rest, v) \<Longrightarrow> length rest < length bs"
  by (induction n out bs rule: nom_leb128_loop.induct) (fastforce simp: Let_def split: if_splits option.splits)+

lemma decode_loop_prefix:
  "nom_leb128_loop n out (xs @ ys) = Inr (rest, v) \<Longrightarrow> length rest < length ys \<Longrightarrow> decode_leb128_loop n out xs = None"
  by (induction n out xs rule: decode_leb128_loop.induct) (auto simp: Let_def split: if_splits option.splits)

lemma decode_loop_whole: "nom_leb128_loop n out (xs @ ys) = Inr (ys, v) \<Longrightarrow> decode_leb128_loop n out xs = Some (Inr v)"
proof (induction n out xs rule: decode_leb128_loop.induct)
  case (1 n out)
  then show ?case using nom_loop_consumes [of n out ys ys v] by simp
qed (auto simp: Let_def split: if_splits option.splits)

lemma decode_leb128_prefix: "leb (unat v) = xs @ ys \<Longrightarrow> ys \<noteq> [] \<Longrightarrow> decode_leb128 xs = None" for v :: u64
  using decode_loop_prefix [of 0 0 xs ys "[]" v] nom_leb128_usize_iff [of "xs @ ys" "[]" v]
  by (simp add: decode_leb128_def nom_leb128_usize_def)

lemma decode_leb128_whole: "decode_leb128 (leb (unat v)) = Some (Inr v)"
  using decode_loop_whole [of 0 0 "leb (unat v)" "[]" v] nom_leb128_usize_iff [of "leb (unat v)" "[]" v]
  by (simp add: decode_leb128_def nom_leb128_usize_def)

text \<open>The state after the first \<open>c\<close> bytes of the frame of a message.\<close>

definition frame_at :: "u64 \<Rightarrow> u8 list \<Rightarrow> nat \<Rightarrow> framed_in_progress" where
  "frame_at m msg c =
     (let l = leb (length msg) in
      if c < length l then \<lparr>max_len = m, buffer = take c l, inner = Length\<rparr>
      else \<lparr>max_len = m, buffer = take (c - length l) msg, inner = Body (of_nat (length msg))\<rparr>)"

definition frame :: "u8 list \<Rightarrow> u8 list" where
  "frame msg = leb (length msg) @ msg"

lemma update_body_frame:
  assumes "length msg < 2 ^ 64" "length (leb (length msg)) \<le> c" "c \<le> length (frame msg)"
    and data: "take (length (frame msg) - c) data = take (length data) (drop c (frame msg))"
  shows "update_body t (frame_at m msg c) (of_nat (length msg)) data =
    (let a = min (length data) (length (frame msg) - c)
     in (t + a, if c + a = length (frame msg) then Finished msg else InProgress (frame_at m msg (c + a))))"
proof -
  define l where "l = length (leb (length msg))"
  define a where "a = min (length data) (length (frame msg) - c)"
  have len: "length (frame msg) = l + length msg" by (simp add: frame_def l_def)
  have buf: "buffer (frame_at m msg c) = take (c - l) msg" using assms(2) by (simp add: frame_at_def Let_def l_def)
  have e1: "unat (of_nat (length msg) :: u64) = length msg" using assms(1) by (simp add: unat_of_nat take_bit_nat_eq_self)
  have e2: "min (unat (of_nat (length msg) - of_nat (length (buffer (frame_at m msg c))) :: u64)) (length data) = a"
  proof -
    have "(of_nat (length msg) - of_nat (c - l) :: u64) = of_nat (length msg - (c - l))" using assms(3) len by (intro of_nat_diff [symmetric]) simp
    moreover have "length (take (c - l) msg) = c - l" "length msg - (c - l) = length (frame msg) - c"
      using assms(2,3) len l_def by simp_all
    ultimately show ?thesis using assms(1) unfolding buf by (simp only: unat_of_nat) (simp add: take_bit_nat_eq_self len a_def min.commute)
  qed
  have e3: "buffer (frame_at m msg c) @ take a data = take (c + a - l) msg"
  proof -
    have "take a data = take (length data) (drop c (frame msg))"
      using data by (metis a_def min.commute take_all_iff take_take nle_le)
    also have "drop c (frame msg) = drop (c - l) msg" using assms(2) by (simp add: frame_def l_def)
    finally show ?thesis using assms(2,3) len unfolding buf unfolding a_def l_def [symmetric]
      by (simp add: take_add [symmetric] min_def)
  qed
  have "update_body t (frame_at m msg c) (of_nat (length msg)) data =
      (t + a, if length msg = length (take (c + a - l) msg) then Finished (take (c + a - l) msg)
        else InProgress ((frame_at m msg c)\<lparr>buffer := take (c + a - l) msg\<rparr>))"
    unfolding update_body_def Let_def e1 e2 e3 by simp
  moreover have "length msg = length (take (c + a - l) msg) \<longleftrightarrow> c + a = length (frame msg)"
    using assms(2,3) len by (auto simp: a_def l_def)
  moreover have "(frame_at m msg c)\<lparr>buffer := take (c + a - l) msg\<rparr> = frame_at m msg (c + a)"
    using assms(2) by (simp add: frame_at_def Let_def l_def)
  ultimately show ?thesis unfolding Let_def a_def [symmetric] by (simp add: len)
qed

lemma frame_at_Length:
  "c < length (leb (length msg)) \<Longrightarrow> frame_at m msg c = \<lparr>max_len = m, buffer = take c (leb (length msg)), inner = Length\<rparr>"
  by (simp add: frame_at_def)

lemma frame_at_Body: "length (leb (length msg)) \<le> c \<Longrightarrow> inner (frame_at m msg c) = Body (of_nat (length msg))"
  by (simp add: frame_at_def)

lemma update_loop_byte:
  assumes msg: "length msg < 2 ^ 64" "of_nat (length msg) \<le> m" and c: "c < length (leb (length msg))"
    and b: "b = leb (length msg) ! c"
  shows "update_loop t (frame_at m msg c) (b # data) = update_loop (t + 1) (frame_at m msg (c + 1)) data"
proof -
  let ?l = "leb (length msg)" and ?v = "of_nat (length msg) :: u64"
  have v: "unat ?v = length msg" using msg(1) by (simp add: unat_of_nat take_bit_nat_eq_self)
  have short: "length ?l \<le> 10" using leb_u64_length [of ?v] unfolding v .
  have buf: "take c ?l @ [b] = take (c + 1) ?l" using c b by (simp add: take_Suc_conv_app_nth)
  have len: "\<not> 16 \<le> length (take (c + 1) ?l)" using short by simp
  show ?thesis
  proof (cases "c + 1 = length ?l")
    case True
    then have "decode_leb128 (take (c + 1) ?l) = Some (Inr ?v)" using decode_leb128_whole [of ?v] unfolding v by simp
    then show ?thesis using msg(2) len True
      by (simp add: frame_at_Length [OF c] frame_at_def buf [simplified] Let_def not_less [symmetric] del: length_take)
  next
    case False
    then have c': "c + 1 < length ?l" using c by simp
    have "?l = take (c + 1) ?l @ drop (c + 1) ?l" "drop (c + 1) ?l \<noteq> []" using c' by simp_all
    then have "decode_leb128 (take (c + 1) ?l) = None" using decode_leb128_prefix [of ?v] unfolding v by blast
    then show ?thesis using len
      by (simp add: frame_at_Length [OF c] frame_at_Length [OF c' [simplified]] buf [simplified] Let_def del: length_take)
  qed
qed

lemma update_loop_frame:
  assumes "length msg < 2 ^ 64" "of_nat (length msg) \<le> m" "c \<le> length (frame msg)"
    and "take (length (frame msg) - c) data = take (length data) (drop c (frame msg))"
  shows "update_loop t (frame_at m msg c) data =
    (let a = min (length data) (length (frame msg) - c)
     in Inr (t + a, if c + a = length (frame msg) then Finished msg else InProgress (frame_at m msg (c + a))))"
  using assms(3,4)
proof (induction data arbitrary: c t)
  case Nil
  show ?case
  proof (cases "c < length (leb (length msg))")
    case True
    then show ?thesis by (simp add: frame_at_Length frame_def)
  next
    case False
    then show ?thesis
      using update_body_frame [OF assms(1) _ Nil.prems(1), of "[]" t m] by (simp add: frame_at_Body)
  qed
next
  case (Cons b data)
  show ?case
  proof (cases "c < length (leb (length msg))")
    case True
    then have d: "drop c (frame msg) = leb (length msg) ! c # drop (c + 1) (frame msg)" "c + 1 \<le> length (frame msg)"
      by (simp_all add: frame_def Cons_nth_drop_Suc [symmetric] nth_append)
    then have e: "length (frame msg) - c = Suc (length (frame msg) - (c + 1))" by simp
    from Cons.prems(2) have b: "b = leb (length msg) ! c"
      and data: "take (length (frame msg) - (c + 1)) data = take (length data) (drop (c + 1) (frame msg))"
      unfolding d(1) e by simp_all
    have "min (length (b # data)) (length (frame msg) - c) = min (length data) (length (frame msg) - (c + 1)) + 1"
      unfolding e by simp
    with Cons.IH [OF d(2) data, of "t + 1"] show ?thesis
      unfolding update_loop_byte [OF assms(1,2) True b] Let_def by (simp only: ac_simps)
  next
    case False
    then show ?thesis
      using update_body_frame [OF assms(1) _ Cons.prems, of t m] by (simp add: frame_at_Body Let_def)
  qed
qed

text \<open>
  What a connection does with the pieces of data that arrive: it passes them to \<^verbatim>\<open>update\<close>, together
  with what has not been read yet, until the frame is finished. The result is the frame and the
  bytes after it.
\<close>

fun framed_receive :: "framed_in_progress \<Rightarrow> u8 list list \<Rightarrow> framed_error + framed \<times> u8 list" where
  "framed_receive f [] = Inr (InProgress f, [])"
| "framed_receive f (d # ds) =
     and_then (framed_update f d) (\<lambda>(n, r).
       case r of
         Finished msg \<Rightarrow> Inr (Finished msg, drop n d @ concat ds)
       | InProgress f \<Rightarrow> (case ds of
             [] \<Rightarrow> Inr (InProgress f, drop n d)
           | d' # ds' \<Rightarrow> framed_receive f ((drop n d @ d') # ds')))"

lemma take_common_prefix: "xs @ zs = ys @ ws \<Longrightarrow> take (length ys) xs = take (length xs) ys"
  by (metis append_eq_append_conv2 append_take_drop_id take_all_iff take_append append_eq_conv_conj nle_le append_Nil2 diff_is_0_eq take0)

lemma framed_receive_frame:
  assumes "length msg < 2 ^ 64" "of_nat (length msg) \<le> m" "c \<le> length (frame msg)"
    and "d @ concat ds = drop c (frame msg) @ rest"
  shows "framed_receive (frame_at m msg c) (d # ds) = Inr (Finished msg, rest)"
  using assms(3,4)
proof (induction ds arbitrary: d c)
  case (Cons d' ds)
  define a where "a = min (length d) (length (frame msg) - c)"
  have "take (length (frame msg) - c) d = take (length d) (drop c (frame msg))"
    using take_common_prefix [OF Cons.prems(2)] by simp
  from update_loop_frame [OF assms(1,2) Cons.prems(1) this, of 0]
  have u: "framed_update (frame_at m msg c) d =
      Inr (a, if c + a = length (frame msg) then Finished msg else InProgress (frame_at m msg (c + a)))"
    by (simp add: framed_update_def Let_def a_def)
  show ?case
  proof (cases "c + a = length (frame msg)")
    case True
    then have "a = length (drop c (frame msg))" "a \<le> length d" by (simp_all add: a_def)
    then have "drop a d @ concat (d' # ds) = rest" using arg_cong [OF Cons.prems(2), of "drop a"] by simp
    then show ?thesis using u True by simp
  next
    case False
    then have a: "a = length d" "c + a \<le> length (frame msg)" using Cons.prems(1) by (simp_all add: a_def)
    have "d' @ concat ds = drop (c + a) (frame msg) @ rest"
      using arg_cong [OF Cons.prems(2), of "drop a"] a by (simp add: add.commute)
    from Cons.IH [OF a(2) this] show ?thesis
      unfolding framed_receive.simps(2) [of "frame_at m msg c"] using u False a(1) by (simp del: framed_receive.simps)
  qed
next
  case Nil
  then have d: "d = drop c (frame msg) @ rest" by simp
  have "take (length (frame msg) - c) d = take (length d) (drop c (frame msg))" by (simp add: d)
  from update_loop_frame [OF assms(1,2) Nil.prems(1) this, of 0] Nil.prems(1)
  show ?case by (simp add: framed_update_def Let_def d)
qed

text \<open>
  C9: the decoder of variable-length integers accepts exactly the encodings that the encoder yields:
  it returns a number and the rest of the bytes if and only if the bytes are the encoding of the
  number followed by this rest. The encoder always ends, and its size hint is the number of
  bytes it still yields.
\<close>

theorem leb128_roundtrip:
  "\<exists>enc. encode_usize v = Some enc \<and> encode_size_hint (leb128_encode v) = Some (length enc) \<and> length enc \<le> 10 \<and>
     (\<forall>bytes rest. nom_leb128_usize bytes = Inr (rest, v) \<longleftrightarrow> bytes = enc @ rest)"
  using leb_u64_length [of v]
  by (simp add: encode_usize_leb encode_size_hint_exact nom_leb128_usize_iff) (simp add: encode_items_def leb128_encode_def)

text \<open>
  C7: a message that is not longer than the maximum, preceded by the encoding of its length, is
  received whole from any split of the bytes into pieces, and the bytes that follow it are left
  unread.
\<close>

theorem framed_message_received:
  assumes "length msg \<le> unat m" "encode_usize (of_nat (length msg)) = Some prefix"
    and "concat pieces = prefix @ msg @ rest"
  shows "framed_receive (framed_new m) pieces = Inr (Finished msg, rest)"
proof -
  have "length msg < 2 ^ 64" using assms(1) unsigned_less [of m, where ?'a = nat] by simp
  then have v: "unat (of_nat (length msg) :: u64) = length msg" by (simp add: unat_of_nat take_bit_nat_eq_self)
  then have p: "prefix = leb (length msg)" using assms(2) by (simp add: encode_usize_leb)
  have "framed_new m = frame_at m msg 0" by (simp add: framed_new_def frame_at_def)
  moreover have "of_nat (length msg) \<le> m" using assms(1) v by (simp add: word_le_nat_alt)
  moreover obtain d ds where "pieces = d # ds" using assms(3) p by (cases pieces) simp_all
  ultimately show ?thesis
    using framed_receive_frame [of msg m 0 d ds rest] assms(3) p \<open>length msg < 2 ^ 64\<close> by (simp add: frame_def)
qed

theorem framed_message_received_witness:
  "framed_receive (framed_new 10) [[], [3, 7], [8], [9, 5], [6]] = Inr (Finished [7, 8, 9], [5, 6])"
  by (rule framed_message_received [where prefix = "[3]"]) (simp_all add: encode_usize_leb)

end
