(* ===== verification/Allocator.thy ===== *)
theory Allocator
  imports Smoldot_Prelude
begin

text \<open>
  The freeing-bump allocator of \<^verbatim>\<open>src/executor/allocator.rs\<close>, which serves the \<^verbatim>\<open>malloc\<close> and
  \<^verbatim>\<open>free\<close> host functions of the Wasm runtime. The allocator writes its headers into the linear
  memory of the program it serves, through the \<^verbatim>\<open>Memory\<close> trait; the trait is the record
  \<open>memory_ops\<close> of its three methods, which the operations take as an argument the way the
  generic functions of the source take the implementation. \<^verbatim>\<open>u32\<close> arithmetic is that of the
  release profile: it wraps around.
\<close>

section \<open>Constants and errors\<close>

datatype alloc_error =
    RequestedAllocationTooLarge
  | AllocatorOutOfSpace
  | MemoryShrinked
  | Other string

definition MAX_POSSIBLE_ALLOCATION :: u32 where "MAX_POSSIBLE_ALLOCATION = 33554432"
definition ALIGNMENT :: u32 where "ALIGNMENT = 8"
definition HEADER_SIZE :: u32 where "HEADER_SIZE = 8"
definition N_ORDERS :: nat where "N_ORDERS = 23"
definition MIN_POSSIBLE_ALLOCATION :: u32 where "MIN_POSSIBLE_ALLOCATION = 8"
definition NIL_MARKER :: u32 where "NIL_MARKER = 0xFFFFFFFF"

lemmas alloc_consts = MAX_POSSIBLE_ALLOCATION_def ALIGNMENT_def HEADER_SIZE_def N_ORDERS_def
  MIN_POSSIBLE_ALLOCATION_def NIL_MARKER_def

definition error :: "string \<Rightarrow> alloc_error" where
  "error msg = Other msg"

section \<open>Orders\<close>

datatype order = Order u32

definition order_from_raw :: "u32 \<Rightarrow> (alloc_error, order) outcome" where
  "order_from_raw ord =
     (if ord < of_nat N_ORDERS then Inr (Order ord) else Inl (Err (error ''invalid order'')))"

text \<open>
  The integer methods of the standard library: the smallest power of two that is not less
  than the argument (zero when there is none), and the position of the lowest set bit.
\<close>

definition next_power_of_two :: "u32 \<Rightarrow> u32" where
  "next_power_of_two w =
     (case find (\<lambda>i. unat w \<le> 2 ^ i) [0..<32] of Some i \<Rightarrow> push_bit i 1 | None \<Rightarrow> 0)"

definition trailing_zeros :: "u32 \<Rightarrow> u32" where
  "trailing_zeros w =
     (case find (bit w) [0..<32] of Some i \<Rightarrow> of_nat i | None \<Rightarrow> 32)"

definition order_from_size :: "u32 \<Rightarrow> (alloc_error, order) outcome" where
  "order_from_size sz =
     (if sz > MAX_POSSIBLE_ALLOCATION then Inl (Err RequestedAllocationTooLarge)
      else
        let clamped_size = (if sz < MIN_POSSIBLE_ALLOCATION then MIN_POSSIBLE_ALLOCATION else sz);
            power_of_two_size = next_power_of_two clamped_size;
            ord = trailing_zeros power_of_two_size - trailing_zeros MIN_POSSIBLE_ALLOCATION
        in Inr (Order ord))"

primrec order_into_raw :: "order \<Rightarrow> u32" where
  "order_into_raw (Order ord) = ord"

definition order_size :: "order \<Rightarrow> u32" where
  "order_size ord = push_bit (unat (order_into_raw ord)) MIN_POSSIBLE_ALLOCATION"

section \<open>Links and headers\<close>

datatype link = LinkNil | LinkPtr u32

definition link_from_raw :: "u32 \<Rightarrow> link" where
  "link_from_raw raw = (if raw \<noteq> NIL_MARKER then LinkPtr raw else LinkNil)"

fun link_into_raw :: "link \<Rightarrow> u32" where
  "link_into_raw LinkNil = NIL_MARKER"
| "link_into_raw (LinkPtr ptr) = ptr"

datatype header = Free link | Occupied order

record 'm memory_ops =
  read_le_u64 :: "'m \<Rightarrow> u32 \<Rightarrow> (alloc_error, u64) outcome"
  write_le_u64 :: "'m \<Rightarrow> u32 \<Rightarrow> u64 \<Rightarrow> (alloc_error, 'm) outcome"
  mem_size :: "'m \<Rightarrow> (alloc_error, u32) outcome"

definition header_read_from :: "'m memory_ops \<Rightarrow> 'm \<Rightarrow> u32 \<Rightarrow> (alloc_error, header) outcome" where
  "header_read_from M memory header_ptr =
     and_then (read_le_u64 M memory header_ptr) (\<lambda>raw_header.
       let occupied = (raw_header AND 0x100000000 \<noteq> 0);
           header_data = (ucast raw_header :: u32)
       in if occupied then and_then (order_from_raw header_data) (\<lambda>ord. Inr (Occupied ord))
          else Inr (Free (link_from_raw header_data)))"

fun header_raw :: "header \<Rightarrow> u64" where
  "header_raw (Occupied ord) = ucast (order_into_raw ord) OR 0x100000000"
| "header_raw (Free l) = ucast (link_into_raw l) OR 0"

definition header_write_into ::
    "'m memory_ops \<Rightarrow> header \<Rightarrow> 'm \<Rightarrow> u32 \<Rightarrow> (alloc_error, 'm) outcome" where
  "header_write_into M h memory header_ptr = write_le_u64 M memory header_ptr (header_raw h)"

fun header_into_occupied :: "header \<Rightarrow> order option" where
  "header_into_occupied (Occupied ord) = Some ord"
| "header_into_occupied (Free _) = None"

fun header_into_free :: "header \<Rightarrow> link option" where
  "header_into_free (Free l) = Some l"
| "header_into_free (Occupied _) = None"

section \<open>The allocator\<close>

text \<open>\<^verbatim>\<open>FreeLists\<close> is its array of \<^verbatim>\<open>N_ORDERS\<close> heads, indexed by the order.\<close>

type_synonym free_lists = "link list"

definition free_lists_new :: free_lists where
  "free_lists_new = replicate N_ORDERS LinkNil"

definition free_lists_index :: "free_lists \<Rightarrow> order \<Rightarrow> link" where
  "free_lists_index heads ord = heads ! unat (order_into_raw ord)"

definition free_lists_set :: "free_lists \<Rightarrow> order \<Rightarrow> link \<Rightarrow> free_lists" where
  "free_lists_set heads ord l = heads[unat (order_into_raw ord) := l]"

definition free_lists_replace :: "free_lists \<Rightarrow> order \<Rightarrow> link \<Rightarrow> link \<times> free_lists" where
  "free_lists_replace heads ord new = (free_lists_index heads ord, free_lists_set heads ord new)"

record allocator =
  bumper :: u32
  free_lists :: free_lists
  total_size :: u32
  poisoned :: bool
  max_total_size :: u32
  max_bumper :: u32
  last_observed_memory_size :: u32

definition allocator_new :: "u32 \<Rightarrow> allocator" where
  "allocator_new heap_base =
     (let aligned_heap_base = (heap_base + ALIGNMENT - 1) div ALIGNMENT * ALIGNMENT
      in \<lparr>bumper = aligned_heap_base, free_lists = free_lists_new, total_size = 0,
          poisoned = False, max_total_size = 0, max_bumper = aligned_heap_base,
          last_observed_memory_size = 0\<rparr>)"

definition bump :: "u32 \<Rightarrow> u32 \<Rightarrow> u32 \<Rightarrow> (alloc_error, u32 \<times> u32) outcome" where
  "bump bmp sz heap_end =
     (if bmp + sz > heap_end then Inl (Err AllocatorOutOfSpace) else Inr (bmp, bmp + sz))"

definition observe_memory_size :: "'m memory_ops \<Rightarrow> u32 \<Rightarrow> 'm \<Rightarrow> (alloc_error, u32) outcome" where
  "observe_memory_size M last_size mem =
     and_then (mem_size M mem) (\<lambda>sz. if sz < last_size then Inl (Err MemoryShrinked) else Inr sz)"

text \<open>
  \<^verbatim>\<open>PoisonBomb\<close>: the guard raises the flag whenever the function is left through an error.
  \<open>with_poison_bomb\<close> is applied to the body of the function after the guard is created; the body
  returns the state it leaves behind together with its result.
\<close>

fun with_poison_bomb ::
    "(allocator \<times> 'm) \<times> (alloc_error, 'a) outcome \<Rightarrow> (allocator \<times> 'm) \<times> (alloc_error, 'a) outcome"
where
  "with_poison_bomb ((a, m), Inl e) = ((a\<lparr>poisoned := True\<rparr>, m), Inl e)"
| "with_poison_bomb (s, Inr x) = (s, Inr x)"

text \<open>The \<^verbatim>\<open>match\<close> that chooses the place of the allocation.\<close>

definition take_header :: "'m memory_ops \<Rightarrow> allocator \<Rightarrow> 'm \<Rightarrow> order \<Rightarrow> (alloc_error, allocator \<times> u32) outcome" where
  "take_header M a mem ord =
     and_then (mem_size M mem) (\<lambda>msize.
       case free_lists_index (free_lists a) ord of
         LinkPtr header_ptr \<Rightarrow>
           if header_ptr + order_size ord + HEADER_SIZE \<le> msize then
             and_then (header_read_from M mem header_ptr) (\<lambda>h.
             and_then (ok_or (header_into_free h) (Err (error ''free list points to a occupied header'')))
               (\<lambda>next_free.
                  Inr (a\<lparr>free_lists := free_lists_set (free_lists a) ord next_free\<rparr>, header_ptr)))
           else Inl Panic
       | LinkNil \<Rightarrow>
           and_then (bump (bumper a) (order_size ord + HEADER_SIZE) msize) (\<lambda>(res, bumper').
             Inr (a\<lparr>bumper := bumper'\<rparr>, res)))"

text \<open>The book-keeping at the end of \<^verbatim>\<open>allocate\<close>.\<close>

definition update_trackers :: "allocator \<Rightarrow> u32 \<Rightarrow> allocator" where
  "update_trackers a sz =
     (let a = a\<lparr>total_size := total_size a + sz\<rparr>;
          a = (if total_size a > max_total_size a then a\<lparr>max_total_size := total_size a\<rparr> else a)
      in if bumper a > max_bumper a then a\<lparr>max_bumper := bumper a\<rparr> else a)"

definition allocate ::
    "'m memory_ops \<Rightarrow> allocator \<Rightarrow> 'm \<Rightarrow> u32 \<Rightarrow> (allocator \<times> 'm) \<times> (alloc_error, u32) outcome" where
  "allocate M a mem req =
     (if poisoned a then ((a, mem), Inl (Err (error ''the allocator has been poisoned'')))
      else with_poison_bomb
        (case observe_memory_size M (last_observed_memory_size a) mem of
           Inl e \<Rightarrow> ((a, mem), Inl e)
         | Inr sz \<Rightarrow>
             let a = a\<lparr>last_observed_memory_size := sz\<rparr> in
             (case order_from_size req of
                Inl e \<Rightarrow> ((a, mem), Inl e)
              | Inr ord \<Rightarrow>
                  (case take_header M a mem ord of
                     Inl e \<Rightarrow> ((a, mem), Inl e)
                   | Inr (a, header_ptr) \<Rightarrow>
                       (case header_write_into M (Occupied ord) mem header_ptr of
                          Inl e \<Rightarrow> ((a, mem), Inl e)
                        | Inr mem \<Rightarrow>
                            ((update_trackers a (order_size ord + HEADER_SIZE), mem),
                             Inr (header_ptr + HEADER_SIZE)))))))"

definition checked_sub :: "u32 \<Rightarrow> u32 \<Rightarrow> u32 option" where
  "checked_sub a b = (if b \<le> a then Some (a - b) else None)"

definition deallocate ::
    "'m memory_ops \<Rightarrow> allocator \<Rightarrow> 'm \<Rightarrow> u32 \<Rightarrow> (allocator \<times> 'm) \<times> (alloc_error, unit) outcome" where
  "deallocate M a mem ptr =
     (if poisoned a then ((a, mem), Inl (Err (error ''the allocator has been poisoned'')))
      else with_poison_bomb
        (case observe_memory_size M (last_observed_memory_size a) mem of
           Inl e \<Rightarrow> ((a, mem), Inl e)
         | Inr sz \<Rightarrow>
             let a = a\<lparr>last_observed_memory_size := sz\<rparr> in
             (case checked_sub ptr HEADER_SIZE of
                None \<Rightarrow> ((a, mem), Inl (Err (error ''Invalid pointer for deallocation'')))
              | Some header_ptr \<Rightarrow>
                  (case and_then (header_read_from M mem header_ptr) (\<lambda>h.
                       ok_or (header_into_occupied h)
                         (Err (error ''the allocation points to an empty header''))) of
                     Inl e \<Rightarrow> ((a, mem), Inl e)
                   | Inr ord \<Rightarrow>
                       let (prev_head, fl) =
                             free_lists_replace (free_lists a) ord (LinkPtr header_ptr);
                           a = a\<lparr>free_lists := fl\<rparr>
                       in (case header_write_into M (Free prev_head) mem header_ptr of
                             Inl e \<Rightarrow> ((a, mem), Inl e)
                           | Inr mem \<Rightarrow>
                               (case checked_sub (total_size a) (order_size ord + HEADER_SIZE) of
                                  None \<Rightarrow> ((a, mem), Inl (Err (error
                                    ''Unable to subtract from total heap size without overflow'')))
                                | Some t \<Rightarrow> ((a\<lparr>total_size := t\<rparr>, mem), Inr ())))))))"

section \<open>The memory of a byte slice\<close>

definition heap_range :: "u32 \<Rightarrow> u32 \<Rightarrow> nat \<Rightarrow> (nat \<times> nat) option" where
  "heap_range offset len heap_len =
     (let start = unat offset in
      if unat offset + unat len < 2 ^ 32
      then let end = unat (offset + len)
           in if end \<le> heap_len then Some (start, end) else None
      else None)"

definition slice_read_le_u64 :: "u8 list \<Rightarrow> u32 \<Rightarrow> (alloc_error, u64) outcome" where
  "slice_read_le_u64 self ptr =
     and_then (ok_or (heap_range ptr 8 (length self)) (Err (error ''read out of heap bounds'')))
       (\<lambda>(start, end). Inr (u64_from_le_bytes (take (end - start) (drop start self))))"

definition slice_write_le_u64 :: "u8 list \<Rightarrow> u32 \<Rightarrow> u64 \<Rightarrow> (alloc_error, u8 list) outcome" where
  "slice_write_le_u64 self ptr val =
     and_then (ok_or (heap_range ptr 8 (length self)) (Err (error ''write out of heap bounds'')))
       (\<lambda>(start, end). Inr (take start self @ u64_to_le_bytes val @ drop end self))"

definition slice_size :: "u8 list \<Rightarrow> (alloc_error, u32) outcome" where
  "slice_size self = (if length self < 2 ^ 32 then Inr (of_nat (length self)) else Inl Panic)"

definition slice_memory :: "u8 list memory_ops" where
  "slice_memory = \<lparr>read_le_u64 = slice_read_le_u64, write_le_u64 = slice_write_le_u64,
     mem_size = slice_size\<rparr>"

end
