(* ===== verification/Allocator_Safety.thy ===== *)
theory Allocator_Safety
  imports Allocator
begin

text \<open>
  What the allocator guarantees. The locale \<open>linear_memory\<close> states what the allocator relies on
  of an implementation of the \<^verbatim>\<open>Memory\<close> trait; the invariant and the lemmas about \<^verbatim>\<open>allocate\<close> and
  \<^verbatim>\<open>deallocate\<close> are proved once inside it. They are about the allocator together with the program
  it serves: the steps are allocations, deallocations of live pointers, and arbitrary writes of
  the program to its live allocations.
\<close>

section \<open>Orders and headers\<close>

lemma find_least:
  assumes "P i" "i < n" "\<And>j. j < i \<Longrightarrow> \<not> P j"
  shows "find P [0..<n] = Some i"
  using assms by (auto simp: find_Some_iff intro!: exI [of _ i])

lemma trailing_zeros_power: "i < 32 \<Longrightarrow> trailing_zeros (push_bit i 1) = of_nat i"
proof -
  assume i: "i < 32"
  have "find (bit (push_bit i 1 :: u32)) [0..<32] = Some i"
    by (rule find_least) (use i in \<open>auto simp: bit_exp_iff push_bit_eq_mult\<close>)
  then show ?thesis by (simp only: trailing_zeros_def option.case)
qed

lemma trailing_zeros_8: "trailing_zeros 8 = 3"
  using trailing_zeros_power [of 3] by (simp add: push_bit_eq_mult)

lemma next_power_of_two_eq:
  assumes "unat s \<le> 2 ^ i" "i < 32" "i = 0 \<or> 2 ^ (i - 1) < unat s"
  shows "next_power_of_two s = push_bit i 1"
proof -
  have "\<not> unat s \<le> 2 ^ j" if "j < i" for j
  proof -
    have "(2 :: nat) ^ j \<le> 2 ^ (i - 1)" using that by (intro power_increasing) auto
    moreover have "2 ^ (i - 1) < unat s" using assms(3) that by auto
    ultimately show ?thesis by (meson le_trans not_le)
  qed
  then have "find (\<lambda>i. unat s \<le> 2 ^ i) [0..<32] = Some i"
    by (intro find_least) (use assms in auto)
  then show ?thesis by (simp add: next_power_of_two_def)
qed

lemma least_power:
  assumes "(s :: nat) \<le> 8 * 2 ^ n"
  shows "\<exists>k \<le> n. s \<le> 8 * 2 ^ k \<and> (k = 0 \<or> 4 * 2 ^ k < s)"
  using assms
proof (induction n)
  case (Suc n)
  then show ?case
    by (cases "s \<le> 8 * 2 ^ n") (auto intro: exI [of _ "Suc n"] le_SucI)
qed simp

lemma order_from_size_cases:
  "sz > MAX_POSSIBLE_ALLOCATION \<Longrightarrow> order_from_size sz = Inl (Err RequestedAllocationTooLarge)"
  "sz \<le> MAX_POSSIBLE_ALLOCATION \<Longrightarrow>
     \<exists>k < 23. order_from_size sz = Inr (Order (of_nat k)) \<and> unat sz \<le> 8 * 2 ^ k \<and>
       (k = 0 \<or> 4 * 2 ^ k < unat sz)"
proof -
  show "sz > MAX_POSSIBLE_ALLOCATION \<Longrightarrow> order_from_size sz = Inl (Err RequestedAllocationTooLarge)"
    by (simp add: order_from_size_def)
  assume le: "sz \<le> MAX_POSSIBLE_ALLOCATION"
  then have "unat sz \<le> 8 * 2 ^ 22" by (simp add: word_le_nat_alt alloc_consts)
  from least_power [OF this] obtain k
    where k: "k \<le> 22" "unat sz \<le> 8 * 2 ^ k" "k = 0 \<or> 4 * 2 ^ k < unat sz" by auto
  define c where "c = (if sz < MIN_POSSIBLE_ALLOCATION then MIN_POSSIBLE_ALLOCATION else sz)"
  have "unat c = max 8 (unat sz)"
    by (auto simp: c_def word_less_nat_alt alloc_consts)
  moreover have "(8 :: nat) \<le> 8 * 2 ^ k" by simp
  ultimately have "next_power_of_two c = push_bit (k + 3) 1"
    using k by (intro next_power_of_two_eq) (auto simp: power_add)
  moreover have "(of_nat (k + 3) :: u32) - 3 = of_nat k" by simp
  ultimately have "order_from_size sz = Inr (Order (of_nat k))"
    using le k(1) trailing_zeros_power [of "k + 3"]
    by (simp add: order_from_size_def Let_def flip: c_def) (simp add: alloc_consts trailing_zeros_8)
  with k show "\<exists>k < 23. order_from_size sz = Inr (Order (of_nat k)) \<and> unat sz \<le> 8 * 2 ^ k \<and>
       (k = 0 \<or> 4 * 2 ^ k < unat sz)" by (intro exI [of _ k]) auto
qed

lemma unat_order_raw: "k < 23 \<Longrightarrow> unat (of_nat k :: u32) = k"
  by (simp add: unat_of_nat)

lemma unat_order_size: "k < 23 \<Longrightarrow> unat (order_size (Order (of_nat k))) = 8 * 2 ^ k"
proof -
  assume k: "k < 23"
  then have "(2 :: nat) ^ k \<le> 2 ^ 22" by (intro power_increasing) auto
  then have "8 * 2 ^ k < (2 :: nat) ^ 32" by simp
  moreover have "order_size (Order (of_nat k)) = of_nat (8 * 2 ^ k)"
    using k by (simp add: order_size_def alloc_consts unat_order_raw push_bit_eq_mult)
  ultimately show ?thesis by (simp only: unat_of_nat) simp
qed

text \<open>A header survives its way through the memory.\<close>

definition header_ok :: "header \<Rightarrow> bool" where
  "header_ok h \<longleftrightarrow> (case h of Occupied ord \<Rightarrow> order_into_raw ord < of_nat N_ORDERS
     | Free l \<Rightarrow> l \<noteq> LinkPtr NIL_MARKER)"

lemma bit_mark: "bit (0x100000000 :: u64) n \<longleftrightarrow> n = 32"
proof -
  have "(0x100000000 :: u64) = 2 ^ 32" by simp
  then show ?thesis by (simp only: bit_exp_iff) auto
qed

lemma bit_mark_int: "bit (0x100000000 :: int) n \<longleftrightarrow> n = 32"
proof -
  have "(0x100000000 :: int) = 2 ^ 32" by simp
  then show ?thesis by (simp only: bit_exp_iff) auto
qed

lemma ucast_u64_u32 [simp]: "(ucast (ucast (d :: u32) :: u64) :: u32) = d"
  by (rule bit_word_eqI) (auto simp: bit_unsigned_iff)

lemma ucast_header_data: "(ucast (ucast (d :: u32) OR 0x100000000 :: u64) :: u32) = d"
  by (rule bit_word_eqI) (auto simp: bit_unsigned_iff bit_or_iff bit_mark bit_mark_int)

lemma occupied_mark: "(ucast (d :: u32) OR 0x100000000 :: u64) AND 0x100000000 \<noteq> 0"
proof -
  have "bit ((ucast (d :: u32) OR 0x100000000 :: u64) AND 0x100000000) 32"
    by (simp add: bit_and_iff bit_or_iff bit_mark)
  then show ?thesis by (metis bit_0_eq bot_fun_def bot_bool_def)
qed

lemma free_mark: "(ucast (d :: u32) :: u64) AND 0x100000000 = 0"
  by (rule bit_word_eqI) (auto simp: bit_and_iff bit_unsigned_iff bit_mark bit_mark_int dest: bit_imp_le_length)

lemma header_roundtrip:
  assumes "header_ok h" "read_le_u64 M m p = Inr (header_raw h)"
  shows "header_read_from M m p = Inr h"
proof (cases h)
  case (Occupied ord)
  with assms occupied_mark [of "order_into_raw ord"] show ?thesis
    by (cases ord) (simp add: header_read_from_def Let_def ucast_header_data order_from_raw_def header_ok_def)
next
  case (Free l)
  with assms free_mark [of "link_into_raw l"] show ?thesis
    by (cases l) (auto simp: header_read_from_def Let_def link_from_raw_def header_ok_def)
qed

section \<open>The invariant\<close>

text \<open>
  A block is its 8-byte header followed by the \<open>8 * 2 ^ k\<close> bytes of its order \<open>k\<close>; it is named
  by the address of its header. \<open>L\<close> maps the live blocks to their orders (what the program has
  been given and has not freed), \<open>F k\<close> is the free list of order \<open>k\<close>.
\<close>

definition block_len :: "nat \<Rightarrow> nat" where
  "block_len k = 8 + 8 * 2 ^ k"

definition live_blocks :: "(nat \<rightharpoonup> nat) \<Rightarrow> (nat \<times> nat) set" where
  "live_blocks L = {(p, k). L p = Some k}"

definition free_blocks :: "(nat \<Rightarrow> nat list) \<Rightarrow> (nat \<times> nat) set" where
  "free_blocks F = {(p, k). k < 23 \<and> p \<in> set (F k)}"

text \<open>Blocks are aligned, lie between \<open>base\<close> and \<open>lim\<close>, and do not overlap.\<close>

definition blocks_ok :: "nat \<Rightarrow> nat \<Rightarrow> (nat \<times> nat) set \<Rightarrow> bool" where
  "blocks_ok base lim B \<longleftrightarrow>
     (\<forall>(p, k) \<in> B. base \<le> p \<and> 8 dvd p \<and> k < 23 \<and> p + block_len k \<le> lim) \<and>
     (\<forall>(p, k) \<in> B. \<forall>(q, l) \<in> B. (p, k) \<noteq> (q, l) \<longrightarrow>
        p + block_len k \<le> q \<or> q + block_len l \<le> p)"

fun free_chain :: "'m memory_ops \<Rightarrow> 'm \<Rightarrow> link \<Rightarrow> nat list \<Rightarrow> bool" where
  "free_chain M m l [] \<longleftrightarrow> l = LinkNil"
| "free_chain M m l (p # ps) \<longleftrightarrow>
     l = LinkPtr (of_nat p) \<and>
     (case header_read_from M m (of_nat p) of Inr (Free l') \<Rightarrow> free_chain M m l' ps | _ \<Rightarrow> False)"

text \<open>The largest block fits above \<open>n\<close> without wrapping a \<^verbatim>\<open>u32\<close>.\<close>

definition headroom :: "nat \<Rightarrow> bool" where
  "headroom n \<longleftrightarrow> n + block_len 22 < 2 ^ 32"

definition alloc_inv ::
    "'m memory_ops \<Rightarrow> nat \<Rightarrow> allocator \<Rightarrow> 'm \<Rightarrow> (nat \<rightharpoonup> nat) \<Rightarrow> (nat \<Rightarrow> nat list) \<Rightarrow> bool" where
  "alloc_inv M base a m L F \<longleftrightarrow>
     finite (dom L) \<and>
     blocks_ok base (min (unat (bumper a)) (unat (last_observed_memory_size a)))
       (live_blocks L \<union> free_blocks F) \<and>
     (\<forall>k < 23. distinct (F k) \<and> (\<forall>p \<in> set (F k). L p = None)) \<and>
     length (free_lists a) = 23 \<and>
     (\<forall>k < 23. free_chain M m (free_lists a ! k) (F k)) \<and>
     (\<forall>p k. L p = Some k \<longrightarrow> header_read_from M m (of_nat p) = Inr (Occupied (Order (of_nat k)))) \<and>
     unat (total_size a) = (\<Sum>p \<in> dom L. block_len (the (L p))) \<and>
     base + (\<Sum>(p, k) \<in> live_blocks L \<union> free_blocks F. block_len k) = unat (bumper a) \<and>
     headroom (unat (bumper a)) \<and>
     total_size a \<le> max_total_size a \<and> max_bumper a = bumper a \<and> 8 dvd base"

text \<open>
  What the program may do to the memory between two calls: write to the payload of its live
  blocks, and grow the memory. Every aligned-or-not 8-byte read that misses the payloads keeps
  its value.
\<close>

definition program_writes :: "'m memory_ops \<Rightarrow> (nat \<rightharpoonup> nat) \<Rightarrow> 'm \<Rightarrow> 'm \<Rightarrow> bool" where
  "program_writes M L m m' \<longleftrightarrow>
     (\<exists>s s'. mem_size M m = Inr s \<and> mem_size M m' = Inr s' \<and> s \<le> s' \<and>
       (\<forall>p. unat p + 8 \<le> unat s \<longrightarrow>
          (\<forall>q k. L q = Some k \<longrightarrow> unat p + 8 \<le> q + 8 \<or> q + block_len k \<le> unat p) \<longrightarrow>
          read_le_u64 M m' p = read_le_u64 M m p))"

subsection \<open>Arithmetic of blocks\<close>

lemma block_len_bounds: "k < 23 \<Longrightarrow> 16 \<le> block_len k \<and> block_len k \<le> block_len 22"
proof -
  assume "k < 23"
  then have "(2 :: nat) ^ k \<le> 2 ^ 22" by (intro power_increasing) auto
  moreover have "(1 :: nat) \<le> 2 ^ k" by simp
  ultimately show ?thesis unfolding block_len_def by linarith
qed

lemma block_len_22: "block_len 22 = 33554440"
  by (simp add: block_len_def)

lemma headroom_less: "headroom n \<Longrightarrow> k < 23 \<Longrightarrow> n + block_len k < 2 ^ 32"
  using block_len_bounds [of k] unfolding headroom_def by linarith

lemma headroom_mono: "headroom n \<Longrightarrow> m \<le> n \<Longrightarrow> headroom m"
  by (simp add: headroom_def)

lemma unat_block_len: "k < 23 \<Longrightarrow> unat (order_size (Order (of_nat k)) + HEADER_SIZE) = block_len k"
  using block_len_bounds [of k]
  by (simp add: unat_word_ariths unat_order_size HEADER_SIZE_def block_len_def)

lemma unat_add_block:
  assumes "k < 23" "unat w + block_len k < 2 ^ 32"
  shows "unat (w + (order_size (Order (of_nat k)) + HEADER_SIZE)) = unat w + block_len k"
  using assms by (simp only: unat_word_ariths(1) [of w] unat_block_len) simp

lemma unat_addr: "p < 2 ^ 32 \<Longrightarrow> unat (of_nat p :: u32) = p"
  by (simp add: unat_of_nat)

subsection \<open>Sets of blocks\<close>

lemma blocks_okD:
  assumes "blocks_ok base lim B" "(p, k) \<in> B"
  shows "base \<le> p" "8 dvd p" "k < 23" "p + block_len k \<le> lim"
  using assms by (auto simp: blocks_ok_def)

lemma blocks_ok_disjoint:
  "blocks_ok base lim B \<Longrightarrow> (p, k) \<in> B \<Longrightarrow> (q, l) \<in> B \<Longrightarrow> (p, k) \<noteq> (q, l) \<Longrightarrow>
     p + block_len k \<le> q \<or> q + block_len l \<le> p"
  unfolding blocks_ok_def by fast

lemma blocks_ok_same: "blocks_ok base lim B \<Longrightarrow> (p, k) \<in> B \<Longrightarrow> (p, l) \<in> B \<Longrightarrow> k = l"
  using blocks_ok_disjoint [of base lim B p k p l] by (auto simp: block_len_def)

lemma blocks_ok_mono: "blocks_ok base lim B \<Longrightarrow> lim \<le> lim' \<Longrightarrow> blocks_ok base lim' B"
  unfolding blocks_ok_def by (fastforce intro: le_trans)

lemma blocks_ok_insert:
  assumes "blocks_ok base lim B" "base \<le> p" "8 dvd p" "k < 23" "lim \<le> p" "p + block_len k \<le> lim'"
  shows "blocks_ok base lim' (insert (p, k) B)"
proof -
  have below: "q + block_len l \<le> p" if "(q, l) \<in> B" for q l
    using blocks_okD(4) [OF assms(1) that] assms(5) by simp
  have bounds: "base \<le> q \<and> 8 dvd q \<and> l < 23 \<and> q + block_len l \<le> lim'"
    if "(q, l) \<in> insert (p, k) B" for q l
  proof (cases "(q, l) = (p, k)")
    case False
    with that have q: "(q, l) \<in> B" by blast
    from blocks_okD [OF assms(1) q] below [OF q] assms(6) show ?thesis by simp
  qed (use assms in simp)
  have apart: "q + block_len l \<le> q' \<or> q' + block_len l' \<le> q"
    if "(q, l) \<in> insert (p, k) B" "(q', l') \<in> insert (p, k) B" "(q, l) \<noteq> (q', l')" for q l q' l'
    using that below blocks_ok_disjoint [OF assms(1), of q l q' l'] by blast
  show ?thesis unfolding blocks_ok_def using bounds apart by blast
qed

lemma live_blocks_iff [simp]: "(p, k) \<in> live_blocks L \<longleftrightarrow> L p = Some k"
  by (simp add: live_blocks_def)

lemma free_blocks_iff [simp]: "(p, k) \<in> free_blocks F \<longleftrightarrow> k < 23 \<and> p \<in> set (F k)"
  by (simp add: free_blocks_def)

lemma finite_blocks: "finite (dom L) \<Longrightarrow> finite (live_blocks L \<union> free_blocks F)"
proof -
  assume "finite (dom L)"
  then have "finite (live_blocks L)"
    by (rule finite_surj [of _ _ "\<lambda>p. (p, the (L p))"]) (auto simp: live_blocks_def image_iff)
  moreover have "free_blocks F \<subseteq> (\<Union>k < 23. (\<lambda>p. (p, k)) ` set (F k))" by (auto simp: free_blocks_def)
  then have "finite (free_blocks F)" by (rule finite_subset) simp
  ultimately show ?thesis by simp
qed

lemma live_sum:
  "(\<Sum>p \<in> dom L. block_len (the (L p))) = (\<Sum>(p, k) \<in> live_blocks L. block_len k)"
proof -
  have "live_blocks L = (\<lambda>p. (p, the (L p))) ` dom L" by (auto simp: live_blocks_def image_iff)
  moreover have "inj_on (\<lambda>p. (p, the (L p))) (dom L)" by (simp add: inj_on_def)
  ultimately show ?thesis by (simp add: sum.reindex)
qed

lemma live_sum_le:
  "finite (dom L) \<Longrightarrow> (\<Sum>p \<in> dom L. block_len (the (L p))) \<le>
     (\<Sum>(p, k) \<in> live_blocks L \<union> free_blocks F. block_len k)"
  unfolding live_sum by (intro sum_mono2 finite_blocks) auto

lemma live_sum_update:
  assumes "finite (dom L)" "L p = None"
  shows "(\<Sum>q \<in> dom (L(p \<mapsto> k)). block_len (the ((L(p \<mapsto> k)) q))) =
    block_len k + (\<Sum>q \<in> dom L. block_len (the (L q)))"
proof -
  have "(\<Sum>q \<in> dom L. block_len (the ((L(p \<mapsto> k)) q))) = (\<Sum>q \<in> dom L. block_len (the (L q)))"
    using assms(2) by (intro sum.cong) auto
  with assms show ?thesis by (simp add: domIff)
qed

lemma live_sum_delete:
  assumes "finite (dom L)" "L p = Some k"
  shows "(\<Sum>q \<in> dom L. block_len (the (L q))) =
    block_len k + (\<Sum>q \<in> dom (L(p := None)). block_len (the ((L(p := None)) q)))"
proof -
  have L: "(L(p := None))(p \<mapsto> k) = L" using assms(2) by auto
  have "finite (dom (L(p := None)))" "(L(p := None)) p = None" using assms(1) by simp_all
  from live_sum_update [OF this, of k] show ?thesis unfolding L .
qed

lemma blocks_eqI:
  assumes "\<And>q l. L' q = Some l \<or> l < 23 \<and> q \<in> set (F' l) \<longleftrightarrow> L q = Some l \<or> l < 23 \<and> q \<in> set (F l)"
  shows "live_blocks L' \<union> free_blocks F' = live_blocks L \<union> free_blocks F"
  unfolding live_blocks_def free_blocks_def using assms by blast

lemma blocks_take:
  assumes "F k = p # ps" "k < 23" "distinct (F k)" "L p = None"
    and "\<And>l. l < 23 \<Longrightarrow> p \<in> set (F l) \<Longrightarrow> l = k"
  shows "live_blocks (L(p \<mapsto> k)) \<union> free_blocks (F(k := ps)) = live_blocks L \<union> free_blocks F"
proof (rule blocks_eqI)
  fix q l
  show "(L(p \<mapsto> k)) q = Some l \<or> l < 23 \<and> q \<in> set ((F(k := ps)) l) \<longleftrightarrow>
      L q = Some l \<or> l < 23 \<and> q \<in> set (F l)"
  proof (cases "l = k")
    case True
    then show ?thesis using assms(1,2) by (cases "q = p") simp_all
  next
    case False
    then have "p \<notin> set (F l) \<or> \<not> l < 23" using assms(5) by blast
    with False assms(4) show ?thesis by auto
  qed
qed

lemma blocks_give:
  assumes "L p = Some k" "k < 23"
  shows "live_blocks (L(p := None)) \<union> free_blocks (F(k := p # F k)) = live_blocks L \<union> free_blocks F"
proof (rule blocks_eqI)
  fix q l
  show "(L(p := None)) q = Some l \<or> l < 23 \<and> q \<in> set ((F(k := p # F k)) l) \<longleftrightarrow>
      L q = Some l \<or> l < 23 \<and> q \<in> set (F l)"
  proof (cases "l = k")
    case True
    then show ?thesis using assms by (cases "q = p") simp_all
  next
    case False
    then show ?thesis using assms(1) by auto
  qed
qed

subsection \<open>Free lists\<close>

lemma free_chain_cong:
  "(\<And>p. p \<in> set ps \<Longrightarrow> header_read_from M m' (of_nat p) = header_read_from M m (of_nat p)) \<Longrightarrow>
     free_chain M m' l ps = free_chain M m l ps"
proof (induction ps arbitrary: l)
  case (Cons p ps)
  have "header_read_from M m' (of_nat p) = header_read_from M m (of_nat p)" by (simp add: Cons.prems)
  moreover have "free_chain M m' l' ps = free_chain M m l' ps" for l'
    by (rule Cons.IH) (simp add: Cons.prems)
  ultimately show ?case by (simp split: sum.split header.split)
qed simp

lemma free_chain_head: "free_chain M m l ps \<Longrightarrow> l = (case ps of [] \<Rightarrow> LinkNil | p # _ \<Rightarrow> LinkPtr (of_nat p))"
  by (cases ps) auto

lemma index_order [simp]:
  "k < 23 \<Longrightarrow> free_lists_index fl (Order (of_nat k)) = fl ! k"
  "k < 23 \<Longrightarrow> free_lists_set fl (Order (of_nat k)) l = fl[k := l]"
  by (simp_all add: free_lists_index_def free_lists_set_def unat_order_raw)

lemma header_ok_occupied: "k < 23 \<Longrightarrow> header_ok (Occupied (Order (of_nat k)))"
  by (simp add: header_ok_def word_less_nat_alt unat_order_raw N_ORDERS_def)

lemma header_ok_link: "p + 1 < 2 ^ 32 \<Longrightarrow> header_ok (Free (LinkPtr (of_nat p)))"
  using unat_addr [of p] by (auto simp: header_ok_def NIL_MARKER_def)

subsection \<open>How the invariant moves\<close>

lemma update_trackers_simps [simp]:
  "bumper (update_trackers a z) = bumper a"
  "free_lists (update_trackers a z) = free_lists a"
  "total_size (update_trackers a z) = total_size a + z"
  "poisoned (update_trackers a z) = poisoned a"
  "last_observed_memory_size (update_trackers a z) = last_observed_memory_size a"
  "total_size a = t \<Longrightarrow> t + z \<le> max_total_size (update_trackers a z)"
  "max_bumper a \<le> bumper a \<Longrightarrow> max_bumper (update_trackers a z) = bumper a"
  by (auto simp: update_trackers_def Let_def)

lemma alloc_invD:
  assumes "alloc_inv M base a m L F"
  shows "finite (dom L)"
    and "blocks_ok base (min (unat (bumper a)) (unat (last_observed_memory_size a)))
       (live_blocks L \<union> free_blocks F)"
    and "\<And>k. k < 23 \<Longrightarrow> distinct (F k)"
    and "\<And>k p. k < 23 \<Longrightarrow> p \<in> set (F k) \<Longrightarrow> L p = None"
    and "length (free_lists a) = 23"
    and "\<And>k. k < 23 \<Longrightarrow> free_chain M m (free_lists a ! k) (F k)"
    and "\<And>p k. L p = Some k \<Longrightarrow>
       header_read_from M m (of_nat p) = Inr (Occupied (Order (of_nat k)))"
    and "unat (total_size a) = (\<Sum>p \<in> dom L. block_len (the (L p)))"
    and "base + (\<Sum>(p, k) \<in> live_blocks L \<union> free_blocks F. block_len k) = unat (bumper a)"
    and "headroom (unat (bumper a))"
    and "total_size a \<le> max_total_size a" and "max_bumper a = bumper a" and "8 dvd base"
  using assms unfolding alloc_inv_def by blast+

lemma total_size_step:
  assumes fin: "finite (dom L)" and new: "L p = None" "k < 23"
    and total: "unat t = (\<Sum>q \<in> dom L. block_len (the (L q)))"
    and bound: "(\<Sum>(p, k) \<in> live_blocks (L(p \<mapsto> k)) \<union> free_blocks F. block_len k) < 2 ^ 32"
  shows "unat (t + (order_size (Order (of_nat k)) + HEADER_SIZE)) =
    (\<Sum>q \<in> dom (L(p \<mapsto> k)). block_len (the ((L(p \<mapsto> k)) q)))"
proof -
  have "finite (dom (L(p \<mapsto> k)))" using fin by simp
  from live_sum_le [OF this, of F] bound live_sum_update [OF fin new(1), of k]
  have "unat t + block_len k < 2 ^ 32" unfolding total by linarith
  from unat_add_block [OF new(2) this] show ?thesis
    unfolding live_sum_update [OF fin new(1)] total by simp
qed

lemma take_unique:
  assumes "alloc_inv M base a m L F" "k < 23" "F k = p # ps" "l < 23" "p \<in> set (F l)"
  shows "l = k"
  by (rule blocks_ok_same [OF alloc_invD(2) [OF assms(1)], of p]) (use assms in auto)

lemma inv_after_take:
  assumes inv: "alloc_inv M base a m L F" and k: "k < 23" "F k = p # ps"
    and link: "header_read_from M m (of_nat p) = Inr (Free l')"
    and hdr: "header_read_from M m' (of_nat p) = Inr (Occupied (Order (of_nat k)))"
    and frame: "\<And>q l. (q, l) \<in> live_blocks L \<union> free_blocks F \<Longrightarrow> q \<noteq> p \<Longrightarrow>
      header_read_from M m' (of_nat q) = header_read_from M m (of_nat q)"
    and a': "bumper a' = bumper a" "free_lists a' = (free_lists a)[k := l']"
      "total_size a' = total_size a + (order_size (Order (of_nat k)) + HEADER_SIZE)"
      "unat (last_observed_memory_size a) \<le> unat (last_observed_memory_size a')"
      "total_size a' \<le> max_total_size a'" "max_bumper a' = bumper a'"
  shows "alloc_inv M base a' m' (L(p \<mapsto> k)) (F(k := ps))"
proof -
  note D = alloc_invD [OF inv]
  have Lp: "L p = None" using D(4) k by auto
  have dist: "p \<notin> set ps" "distinct ps" using D(3) [OF k(1)] k(2) by simp_all
  have uniq: "l = k" if "l < 23" "p \<in> set (F l)" for l using take_unique [OF inv k that] .
  have B: "live_blocks (L(p \<mapsto> k)) \<union> free_blocks (F(k := ps)) = live_blocks L \<union> free_blocks F"
  proof (rule blocks_take)
    show "F k = p # ps" "k < 23" "distinct (F k)" "L p = None" by (fact k D(3) [OF k(1)] Lp)+
    show "\<And>l. l < 23 \<Longrightarrow> p \<in> set (F l) \<Longrightarrow> l = k" by (rule uniq)
  qed
  have remaining: "q \<in> set (F l) \<and> q \<noteq> p" if "l < 23" "q \<in> set ((F(k := ps)) l)" for q l
  proof (cases "l = k")
    case True
    with that dist(1) k(2) show ?thesis by auto
  next
    case False
    with that uniq [of l] show ?thesis by auto
  qed
  have chain: "free_chain M m' (free_lists a' ! l) ((F(k := ps)) l)" if l: "l < 23" for l
  proof -
    have "free_chain M m (free_lists a' ! l) ((F(k := ps)) l)"
      using D(6) [OF l] D(5) k link l by (cases "l = k") (auto simp: a')
    moreover have "header_read_from M m' (of_nat q) = header_read_from M m (of_nat q)"
      if "q \<in> set ((F(k := ps)) l)" for q
      using remaining [OF l that] l by (intro frame [of q l]) simp_all
    ultimately show ?thesis using free_chain_cong [of "(F(k := ps)) l" M m' m] by blast
  qed
  have bound: "(\<Sum>(p, k) \<in> live_blocks (L(p \<mapsto> k)) \<union> free_blocks (F(k := ps)). block_len k) < 2 ^ 32"
    unfolding B using D(9,10) by (simp add: headroom_def)
  show ?thesis
    unfolding alloc_inv_def B
  proof (intro conjI allI impI)
    show "finite (dom (L(p \<mapsto> k)))" using D(1) by simp
    show "blocks_ok base (min (unat (bumper a')) (unat (last_observed_memory_size a')))
        (live_blocks L \<union> free_blocks F)"
      by (rule blocks_ok_mono [OF D(2)]) (use a' in auto)
    show "unat (total_size a') = (\<Sum>q \<in> dom (L(p \<mapsto> k)). block_len (the ((L(p \<mapsto> k)) q)))"
      unfolding a' by (rule total_size_step [OF D(1) Lp k(1) D(8) bound])
    show "header_read_from M m' (of_nat q) = Inr (Occupied (Order (of_nat l)))"
      if "(L(p \<mapsto> k)) q = Some l" for q l
      using that hdr frame [of q l] D(7) [of q l] by (cases "q = p") auto
    show "\<And>l. l < 23 \<Longrightarrow> distinct ((F(k := ps)) l)" using D(3) dist by simp
    show "\<forall>q \<in> set ((F(k := ps)) l). (L(p \<mapsto> k)) q = None" if l: "l < 23" for l
      using D(4) [OF l] remaining [OF l] by simp
  qed (use D a' chain in auto)
qed

lemma dvd_block_len: "8 dvd block_len k"
  by (simp add: block_len_def)

lemma bumper_aligned: "alloc_inv M base a m L F \<Longrightarrow> 8 dvd unat (bumper a)"
  using alloc_invD(9,13) [of M base a m L F] dvd_block_len
  by (metis (no_types, lifting) case_prod_beta dvd_add dvd_sum)

lemma bumper_fresh:
  assumes "alloc_inv M base a m L F" "(q, l) \<in> live_blocks L \<union> free_blocks F"
  shows "q + block_len l \<le> unat (bumper a)"
  using blocks_okD(4) [OF alloc_invD(2) [OF assms(1)] assms(2)] by simp

lemma inv_after_bump:
  assumes inv: "alloc_inv M base a m L F" and k: "k < 23" and p: "p = unat (bumper a)"
    and hdr: "header_read_from M m' (of_nat p) = Inr (Occupied (Order (of_nat k)))"
    and frame: "\<And>q l. (q, l) \<in> live_blocks L \<union> free_blocks F \<Longrightarrow>
      header_read_from M m' (of_nat q) = header_read_from M m (of_nat q)"
    and a': "unat (bumper a') = p + block_len k" "free_lists a' = free_lists a"
      "total_size a' = total_size a + (order_size (Order (of_nat k)) + HEADER_SIZE)"
      "p + block_len k \<le> unat (last_observed_memory_size a')" "headroom (unat (bumper a'))"
      "total_size a' \<le> max_total_size a'" "max_bumper a' = bumper a'"
  shows "alloc_inv M base a' m' (L(p \<mapsto> k)) F"
proof -
  note D = alloc_invD [OF inv]
  have fresh: "q + block_len l \<le> p" if "(q, l) \<in> live_blocks L \<union> free_blocks F" for q l
    using bumper_fresh [OF inv that] p by simp
  have out: "(p, l) \<notin> live_blocks L \<union> free_blocks F" for l
    using fresh [of p l] block_len_def [of l] by fastforce
  then have Lp: "L p = None" by (cases "L p") auto
  have B: "live_blocks (L(p \<mapsto> k)) \<union> free_blocks F = insert (p, k) (live_blocks L \<union> free_blocks F)"
    using Lp by (auto simp: live_blocks_def split: if_splits)
  have sum: "(\<Sum>(p, k) \<in> live_blocks (L(p \<mapsto> k)) \<union> free_blocks F. block_len k) =
      block_len k + (\<Sum>(p, k) \<in> live_blocks L \<union> free_blocks F. block_len k)"
    unfolding B using finite_blocks [OF D(1), of F] out by simp
  have le: "base \<le> p" using D(9) p by simp
  show ?thesis
    unfolding alloc_inv_def sum
  proof (intro conjI allI impI)
    show "finite (dom (L(p \<mapsto> k)))" using D(1) by simp
    show "blocks_ok base (min (unat (bumper a')) (unat (last_observed_memory_size a')))
        (live_blocks (L(p \<mapsto> k)) \<union> free_blocks F)"
      unfolding B using le bumper_aligned [OF inv] k a'(1,4) p
      by (intro blocks_ok_insert [OF D(2)]) simp_all
    show "unat (total_size a') = (\<Sum>q \<in> dom (L(p \<mapsto> k)). block_len (the ((L(p \<mapsto> k)) q)))"
      unfolding a'(3) by (rule total_size_step [OF D(1) Lp k D(8), of F])
        (use sum D(9) a'(1,5) p in \<open>simp add: headroom_def\<close>)
    show "base + (block_len k + (\<Sum>(p, k) \<in> live_blocks L \<union> free_blocks F. block_len k)) =
        unat (bumper a')" using D(9) a'(1) p by simp
    show "header_read_from M m' (of_nat q) = Inr (Occupied (Order (of_nat l)))"
      if "(L(p \<mapsto> k)) q = Some l" for q l
      using that hdr frame [of q l] D(7) [of q l] by (cases "q = p") auto
    show "free_chain M m' (free_lists a' ! l) (F l)" if "l < 23" for l
      using free_chain_cong [of "F l" M m' m "free_lists a' ! l"] frame [of _ l] D(6) [OF that] that a'(2) by simp
    show "\<forall>q \<in> set (F l). (L(p \<mapsto> k)) q = None" if "l < 23" for l
      using D(4) [OF that] out [of l] that by auto
  qed (use D a' in auto)
qed

lemma inv_after_give:
  assumes inv: "alloc_inv M base a m L F" and Lp: "L p = Some k"
    and hdr: "header_read_from M m' (of_nat p) = Inr (Free (free_lists a ! k))"
    and frame: "\<And>q l. (q, l) \<in> live_blocks L \<union> free_blocks F \<Longrightarrow> q \<noteq> p \<Longrightarrow>
      header_read_from M m' (of_nat q) = header_read_from M m (of_nat q)"
    and a': "bumper a' = bumper a" "free_lists a' = (free_lists a)[k := LinkPtr (of_nat p)]"
      "unat (total_size a') + block_len k = unat (total_size a)"
      "unat (last_observed_memory_size a) \<le> unat (last_observed_memory_size a')"
      "max_total_size a' = max_total_size a" "max_bumper a' = max_bumper a"
  shows "alloc_inv M base a' m' (L(p := None)) (F(k := p # F k))"
proof -
  note D = alloc_invD [OF inv]
  have k: "k < 23" using blocks_okD(3) [OF D(2), of p k] Lp by simp
  have B: "live_blocks (L(p := None)) \<union> free_blocks (F(k := p # F k)) = live_blocks L \<union> free_blocks F"
    by (rule blocks_give) (fact Lp k)+
  have notin: "p \<notin> set (F l)" if "l < 23" for l using D(4) [OF that, of p] Lp by auto
  have same: "free_chain M m' h (F l) = free_chain M m h (F l)" if "l < 23" for l h
    using frame [of _ l] notin [OF that] that by (intro free_chain_cong) auto
  show ?thesis
    unfolding alloc_inv_def B
  proof (intro conjI allI impI)
    show "finite (dom (L(p := None)))" using D(1) by simp
    show "blocks_ok base (min (unat (bumper a')) (unat (last_observed_memory_size a')))
        (live_blocks L \<union> free_blocks F)"
      by (rule blocks_ok_mono [OF D(2)]) (use a' in auto)
    show "unat (total_size a') = (\<Sum>q \<in> dom (L(p := None)). block_len (the ((L(p := None)) q)))"
      using live_sum_delete [OF D(1) Lp] D(8) a'(3) by linarith
    show "free_chain M m' (free_lists a' ! l) ((F(k := p # F k)) l)" if "l < 23" for l
      using same [OF that] D(6) [OF that] D(5) hdr a'(2) that by (cases "l = k") auto
    show "header_read_from M m' (of_nat q) = Inr (Occupied (Order (of_nat l)))"
      if "(L(p := None)) q = Some l" for q l
      using that frame [of q l] D(7) [of q l] by (cases "q = p") auto
    show "distinct ((F(k := p # F k)) l)" if "l < 23" for l
      using D(3) [OF that] notin [OF that] by auto
    show "\<forall>q \<in> set ((F(k := p # F k)) l). (L(p := None)) q = None" if "l < 23" for l
      using D(4) [OF that] by auto
    show "total_size a' \<le> max_total_size a'"
      using D(11) a'(3,5) by (simp add: word_le_nat_alt)
  qed (use D a' in auto)
qed

section \<open>The memory interface\<close>

text \<open>
  What the allocator relies on of a \<^verbatim>\<open>Memory\<close>: reads and writes succeed within the reported
  size, a write changes the eight bytes it covers and nothing else, and the reported size is
  kept. \<open>valid\<close> are the states of the memory the implementation can be in.
\<close>

locale linear_memory =
  fixes M :: "'m memory_ops"
    and valid :: "'m \<Rightarrow> bool"
  assumes size_ok: "valid m \<Longrightarrow> \<exists>s. mem_size M m = Inr s \<and> headroom (unat s)"
    and read_in: "valid m \<Longrightarrow> mem_size M m = Inr s \<Longrightarrow> unat p + 8 \<le> unat s \<Longrightarrow>
      \<exists>v. read_le_u64 M m p = Inr v"
    and read_out: "valid m \<Longrightarrow> mem_size M m = Inr s \<Longrightarrow> unat s < unat p + 8 \<Longrightarrow>
      headroom (unat p) \<Longrightarrow> \<exists>e. read_le_u64 M m p = Inl (Err e)"
    and write_in: "valid m \<Longrightarrow> mem_size M m = Inr s \<Longrightarrow> unat p + 8 \<le> unat s \<Longrightarrow>
      \<exists>m'. write_le_u64 M m p v = Inr m' \<and> valid m' \<and> mem_size M m' = Inr s \<and>
        read_le_u64 M m' p = Inr v \<and>
        (\<forall>q. unat q + 8 \<le> unat p \<or> unat p + 8 \<le> unat q \<and> unat q + 8 \<le> unat s \<longrightarrow>
          read_le_u64 M m' q = read_le_u64 M m q)"
begin

lemma write_header:
  assumes "valid m" "mem_size M m = Inr s" "unat p + 8 \<le> unat s" "header_ok h"
  obtains m' where "header_write_into M h m p = Inr m'" "valid m'" "mem_size M m' = Inr s"
    "header_read_from M m' p = Inr h"
    "\<And>q. unat q + 8 \<le> unat p \<or> unat p + 8 \<le> unat q \<and> unat q + 8 \<le> unat s \<Longrightarrow>
       header_read_from M m' q = header_read_from M m q"
  using write_in [OF assms(1-3), of "header_raw h"] header_roundtrip [OF assms(4)]
  unfolding header_write_into_def by (fastforce simp: header_read_from_def)

text \<open>
  The states between two calls: the invariant holds, the allocator is not poisoned, and the
  memory has not shrunk.
\<close>

definition ready :: "nat \<Rightarrow> allocator \<Rightarrow> 'm \<Rightarrow> u32 \<Rightarrow> (nat \<rightharpoonup> nat) \<Rightarrow> (nat \<Rightarrow> nat list) \<Rightarrow> bool" where
  "ready base a m s L F \<longleftrightarrow> alloc_inv M base a m L F \<and> \<not> poisoned a \<and> valid m \<and>
     mem_size M m = Inr s \<and> last_observed_memory_size a \<le> s"

lemma readyD:
  assumes "ready base a m s L F"
  shows "alloc_inv M base a m L F" "\<not> poisoned a" "valid m" "mem_size M m = Inr s"
    "unat (last_observed_memory_size a) \<le> unat s" "headroom (unat s)"
  using assms size_ok [of m] by (auto simp: ready_def word_le_nat_alt)

lemma ready_observe:
  "ready base a m s L F \<Longrightarrow> observe_memory_size M (last_observed_memory_size a) m = Inr s"
  by (simp add: ready_def observe_memory_size_def not_less)

lemma ready_block:
  assumes "ready base a m s L F" "(q, l) \<in> live_blocks L \<union> free_blocks F"
  shows "q + block_len l \<le> unat s" "unat (of_nat q :: u32) = q" "l < 23" "q + 16 < 2 ^ 32" "q + 8 \<le> unat s"
proof -
  note R = readyD [OF assms(1)]
  note b = blocks_okD [OF alloc_invD(2) [OF R(1)] assms(2)]
  show 1: "q + block_len l \<le> unat s" using b(4) R(5) by simp
  show "l < 23" by (rule b(3))
  show "q + 16 < 2 ^ 32" "q + 8 \<le> unat s"
    using 1 block_len_bounds [OF b(3)] R(6) by (simp_all add: headroom_def)
  then show "unat (of_nat q :: u32) = q" by (intro unat_addr) simp
qed

lemma ready_apart:
  assumes "ready base a m s L F" "(p, k) \<in> live_blocks L \<union> free_blocks F"
    "(q, l) \<in> live_blocks L \<union> free_blocks F" "q \<noteq> p"
  shows "q + 8 \<le> p \<or> p + 8 \<le> q"
  using blocks_ok_disjoint [OF alloc_invD(2) [OF readyD(1) [OF assms(1)]] assms(2,3)] assms(4)
  by (auto simp: block_len_def)

text \<open>A header written at a block leaves the headers of the other blocks as they were.\<close>

lemma write_block_header:
  assumes "ready base a m s L F" "(p, k) \<in> live_blocks L \<union> free_blocks F" "header_ok h"
  obtains m' where "header_write_into M h m (of_nat p) = Inr m'" "valid m'" "mem_size M m' = Inr s"
    "header_read_from M m' (of_nat p) = Inr h"
    "\<And>q l. (q, l) \<in> live_blocks L \<union> free_blocks F \<Longrightarrow> q \<noteq> p \<Longrightarrow>
      header_read_from M m' (of_nat q) = header_read_from M m (of_nat q)"
proof -
  note R = readyD [OF assms(1)] and P = ready_block [OF assms(1,2)]
  from P obtain m' where m': "header_write_into M h m (of_nat p) = Inr m'" "valid m'"
      "mem_size M m' = Inr s" "header_read_from M m' (of_nat p) = Inr h"
      "\<And>q. unat q + 8 \<le> p \<or> p + 8 \<le> unat q \<and> unat q + 8 \<le> unat s \<Longrightarrow>
         header_read_from M m' q = header_read_from M m q"
    using write_header [OF R(3,4) _ assms(3), of "of_nat p"] by (metis P(2,5))
  have "header_read_from M m' (of_nat q) = header_read_from M m (of_nat q)"
    if "(q, l) \<in> live_blocks L \<union> free_blocks F" "q \<noteq> p" for q l
    using ready_apart [OF assms(1,2) that] ready_block [OF assms(1) that(1)] by (intro m'(5)) auto
  with m'(1-4) that show thesis by blast
qed

lemma allocate_too_large:
  assumes "ready base a m s L F" "sz > MAX_POSSIBLE_ALLOCATION"
  shows "allocate M a m sz =
    ((a\<lparr>last_observed_memory_size := s, poisoned := True\<rparr>, m), Inl (Err RequestedAllocationTooLarge))"
  using ready_observe [OF assms(1)] readyD(2) [OF assms(1)] order_from_size_cases(1) [OF assms(2)]
  by (simp add: allocate_def)

lemma allocate_reuse:
  assumes ready: "ready base a m s L F" and ord: "order_from_size sz = Inr (Order (of_nat k))"
    and k: "k < 23" "F k = p # ps"
  obtains a' m' where "allocate M a m sz = ((a', m'), Inr (of_nat (p + 8)))"
    "ready base a' m' s (L(p \<mapsto> k)) (F(k := ps))"
proof -
  note R = readyD [OF ready] and D = alloc_invD [OF R(1)]
  have pB: "(p, k) \<in> live_blocks L \<union> free_blocks F" using k by simp
  note P = ready_block [OF ready pB]
  obtain l' where hd: "free_lists a ! k = LinkPtr (of_nat p)"
    and link: "header_read_from M m (of_nat p) = Inr (Free l')"
    using D(6) [OF k(1)] k(2) by (auto split: sum.splits header.splits)
  define a1 where "a1 = a\<lparr>last_observed_memory_size := s, free_lists := (free_lists a)[k := l']\<rparr>"
  define z where "z = order_size (Order (of_nat k)) + HEADER_SIZE"
  have sum: "unat (of_nat p + z) = p + block_len k"
    unfolding z_def using unat_add_block [OF k(1), of "of_nat p"] P R(6) by (simp add: headroom_def)
  have take: "take_header M (a\<lparr>last_observed_memory_size := s\<rparr>) m (Order (of_nat k)) = Inr (a1, of_nat p)"
    using k(1) hd link R(4) sum P(1) unfolding take_header_def a1_def z_def
    by (simp add: add.assoc word_le_nat_alt)
  obtain m' where m': "header_write_into M (Occupied (Order (of_nat k))) m (of_nat p) = Inr m'" "valid m'"
      "mem_size M m' = Inr s" "header_read_from M m' (of_nat p) = Inr (Occupied (Order (of_nat k)))"
    and frame: "\<And>q l. (q, l) \<in> live_blocks L \<union> free_blocks F \<Longrightarrow> q \<noteq> p \<Longrightarrow>
      header_read_from M m' (of_nat q) = header_read_from M m (of_nat q)"
    using write_block_header [OF ready pB header_ok_occupied [OF k(1)]] by blast
  have res: "allocate M a m sz = ((update_trackers a1 z, m'), Inr (of_nat (p + 8)))"
    using R(2) ready_observe [OF ready] ord take m'(1)
    by (simp add: allocate_def z_def HEADER_SIZE_def add.commute)
  have "alloc_inv M base (update_trackers a1 z) m' (L(p \<mapsto> k)) (F(k := ps))"
    by (rule inv_after_take [OF R(1) k link m'(4) frame]) (use R(5) D(12) in \<open>simp_all add: a1_def z_def\<close>)
  then have "ready base (update_trackers a1 z) m' s (L(p \<mapsto> k)) (F(k := ps))"
    using R(2) m'(2,3) by (simp add: ready_def a1_def)
  from that [OF res this] show thesis .
qed

lemma allocate_bump:
  assumes ready: "ready base a m s L F" and ord: "order_from_size sz = Inr (Order (of_nat k))"
    and k: "k < 23" "F k = []" and fits: "unat (bumper a) + block_len k \<le> unat s"
  obtains a' m' where "allocate M a m sz = ((a', m'), Inr (of_nat (unat (bumper a) + 8)))"
    "ready base a' m' s (L(unat (bumper a) \<mapsto> k)) F" "bumper a < bumper a'"
proof -
  note R = readyD [OF ready] and D = alloc_invD [OF R(1)]
  define z where "z = order_size (Order (of_nat k)) + HEADER_SIZE"
  define a1 where "a1 = a\<lparr>last_observed_memory_size := s, bumper := bumper a + z\<rparr>"
  have sum: "unat (bumper a + z) = unat (bumper a) + block_len k"
    unfolding z_def using fits R(6) by (intro unat_add_block k) (simp add: headroom_def)
  have hd: "free_lists a ! k = LinkNil" using D(6) [OF k(1)] k(2) by simp
  have take: "take_header M (a\<lparr>last_observed_memory_size := s\<rparr>) m (Order (of_nat k)) = Inr (a1, bumper a)"
    using k(1) hd R(4) sum fits by (simp add: take_header_def bump_def a1_def word_less_nat_alt flip: z_def)
  have "unat (bumper a) + 8 \<le> unat s" using fits block_len_bounds [OF k(1)] by simp
  from write_header [OF R(3,4) this header_ok_occupied [OF k(1)]]
  obtain m' where m': "header_write_into M (Occupied (Order (of_nat k))) m (bumper a) = Inr m'" "valid m'"
      "mem_size M m' = Inr s" "header_read_from M m' (bumper a) = Inr (Occupied (Order (of_nat k)))"
    and frame: "\<And>q. unat q + 8 \<le> unat (bumper a) \<Longrightarrow> header_read_from M m' q = header_read_from M m q"
    by metis
  have keep: "header_read_from M m' (of_nat q) = header_read_from M m (of_nat q)"
    if "(q, l) \<in> live_blocks L \<union> free_blocks F" for q l
    using bumper_fresh [OF R(1) that] ready_block(2) [OF ready that] block_len_def [of l]
    by (intro frame) simp
  have addr: "of_nat (unat (bumper a) + 8) = bumper a + HEADER_SIZE" by (simp add: HEADER_SIZE_def)
  have res: "allocate M a m sz = ((update_trackers a1 z, m'), Inr (of_nat (unat (bumper a) + 8)))"
    unfolding addr using R(2) ready_observe [OF ready] ord take m'(1) by (simp add: allocate_def z_def)
  have "alloc_inv M base (update_trackers a1 z) m' (L(unat (bumper a) \<mapsto> k)) F"
  proof (rule inv_after_bump [OF R(1) k(1) refl _ keep])
    show "headroom (unat (bumper (update_trackers a1 z)))"
      using sum fits R(6) by (simp add: a1_def headroom_def)
    show "max_bumper (update_trackers a1 z) = bumper (update_trackers a1 z)"
      using D(12) sum by (simp add: a1_def word_le_nat_alt)
  qed (use sum fits m'(4) in \<open>simp_all add: a1_def z_def\<close>)
  then have inv: "ready base (update_trackers a1 z) m' s (L(unat (bumper a) \<mapsto> k)) F"
    using R(2) m'(2,3) by (simp add: ready_def a1_def)
  have "bumper a < bumper (update_trackers a1 z)"
    using sum block_len_bounds [OF k(1)] by (simp add: a1_def word_less_nat_alt)
  from that [OF res inv this] show thesis .
qed

lemma allocate_out_of_space:
  assumes ready: "ready base a m s L F" and ord: "order_from_size sz = Inr (Order (of_nat k))"
    and k: "k < 23" "F k = []" and full: "unat s < unat (bumper a) + block_len k"
  shows "allocate M a m sz =
    ((a\<lparr>last_observed_memory_size := s, poisoned := True\<rparr>, m), Inl (Err AllocatorOutOfSpace))"
proof -
  note R = readyD [OF ready] and D = alloc_invD [OF R(1)]
  have "unat (bumper a + (order_size (Order (of_nat k)) + HEADER_SIZE)) = unat (bumper a) + block_len k"
    by (intro unat_add_block k headroom_less D(10))
  moreover have "free_lists a ! k = LinkNil" using D(6) [OF k(1)] k(2) by simp
  ultimately have "take_header M (a\<lparr>last_observed_memory_size := s\<rparr>) m (Order (of_nat k)) =
      Inl (Err AllocatorOutOfSpace)"
    using k(1) R(4) full by (simp add: take_header_def bump_def word_less_nat_alt)
  then show ?thesis using R(2) ready_observe [OF ready] ord by (simp add: allocate_def)
qed

lemma deallocate_live:
  assumes ready: "ready base a m s L F" and Lp: "L p = Some k"
  obtains a' m' where "deallocate M a m (of_nat (p + 8)) = ((a', m'), Inr ())"
    "ready base a' m' s (L(p := None)) (F(k := p # F k))"
proof -
  note R = readyD [OF ready] and D = alloc_invD [OF R(1)]
  have pB: "(p, k) \<in> live_blocks L \<union> free_blocks F" using Lp by simp
  note P = ready_block [OF ready pB]
  have ptr: "unat (of_nat (p + 8) :: u32) = p + 8" using P(4) by (intro unat_addr) simp
  have sub: "checked_sub (of_nat (p + 8)) HEADER_SIZE = Some (of_nat p)"
    using ptr by (simp add: checked_sub_def word_le_nat_alt HEADER_SIZE_def)
  define a1 where "a1 = a\<lparr>last_observed_memory_size := s, free_lists := (free_lists a)[k := LinkPtr (of_nat p)]\<rparr>"
  have "header_ok (Free (free_lists a ! k))"
  proof (cases "F k")
    case Nil
    then show ?thesis using D(6) [OF P(3)] by (simp add: header_ok_def)
  next
    case (Cons q qs)
    with P(3) have "(q, k) \<in> live_blocks L \<union> free_blocks F" by simp
    from ready_block(4) [OF ready this] Cons D(6) [OF P(3)] show ?thesis
      using header_ok_link [of q] by simp
  qed
  with write_block_header [OF ready pB] obtain m' where m':
      "header_write_into M (Free (free_lists a ! k)) m (of_nat p) = Inr m'" "valid m'"
      "mem_size M m' = Inr s" "header_read_from M m' (of_nat p) = Inr (Free (free_lists a ! k))"
    and frame: "\<And>q l. (q, l) \<in> live_blocks L \<union> free_blocks F \<Longrightarrow> q \<noteq> p \<Longrightarrow>
      header_read_from M m' (of_nat q) = header_read_from M m (of_nat q)"
    by blast
  define z where "z = order_size (Order (of_nat k)) + HEADER_SIZE"
  have z: "unat z = block_len k" unfolding z_def by (rule unat_block_len [OF P(3)])
  have le: "block_len k \<le> unat (total_size a)" using live_sum_delete [OF D(1) Lp] D(8) by simp
  then have tot: "checked_sub (total_size a) z = Some (total_size a - z)"
    using z by (simp add: checked_sub_def word_le_nat_alt)
  have sub_tot: "unat (total_size a - z) + block_len k = unat (total_size a)"
    using le z by (simp add: unat_sub word_le_nat_alt)
  have res: "deallocate M a m (of_nat (p + 8)) = ((a1\<lparr>total_size := total_size a - z\<rparr>, m'), Inr ())"
    using R(2) ready_observe [OF ready] sub D(7) [OF Lp] m'(1) tot P(3)
    by (simp add: deallocate_def free_lists_replace_def a1_def z_def)
  have "alloc_inv M base (a1\<lparr>total_size := total_size a - z\<rparr>) m' (L(p := None)) (F(k := p # F k))"
    by (rule inv_after_give [OF R(1) Lp m'(4) frame]) (use R(5) sub_tot in \<open>simp_all add: a1_def\<close>)
  then have "ready base (a1\<lparr>total_size := total_size a - z\<rparr>) m' s (L(p := None)) (F(k := p # F k))"
    using R(2) m'(2,3) by (simp add: ready_def a1_def)
  from that [OF res this] show thesis .
qed

end

end
