(* ===== verification/Allocator_Runs.thy ===== *)
theory Allocator_Runs
  imports Allocator_Safety
begin

text \<open>
  Runs of the allocator with the program it serves, as a step relation, and what holds in every
  reachable state. The lemmas are about any memory that satisfies \<open>linear_memory\<close>; they are
  instantiated for the byte slices of \<^verbatim>\<open>src/executor/allocator.rs\<close>.
\<close>

section \<open>Steps\<close>

text \<open>
  A state is the allocator, the memory, and the live allocations of the program: the address of
  the header of each of them and its order. The program may ask for memory, give back a live
  allocation, and write to its live allocations.
\<close>

type_synonym 'm run_state = "allocator \<times> 'm \<times> (nat \<rightharpoonup> nat)"

inductive alloc_step :: "'m memory_ops \<Rightarrow> ('m \<Rightarrow> bool) \<Rightarrow> 'm run_state \<Rightarrow> 'm run_state \<Rightarrow> bool"
  for M valid where
  malloc: "allocate M a m sz = ((a', m'), Inr ptr) \<Longrightarrow> order_from_size sz = Inr (Order ord) \<Longrightarrow>
     alloc_step M valid (a, m, L) (a', m', L(unat ptr - 8 \<mapsto> unat ord))"
| malloc_fails: "allocate M a m sz = ((a', m'), Inl e) \<Longrightarrow> alloc_step M valid (a, m, L) (a', m', L)"
| free: "L p = Some k \<Longrightarrow> deallocate M a m (of_nat (p + 8)) = ((a', m'), Inr ()) \<Longrightarrow>
     alloc_step M valid (a, m, L) (a', m', L(p := None))"
| free_fails: "L p = Some k \<Longrightarrow> deallocate M a m (of_nat (p + 8)) = ((a', m'), Inl e) \<Longrightarrow>
     alloc_step M valid (a, m, L) (a', m', L)"
| program: "program_writes M L m m' \<Longrightarrow> valid m' \<Longrightarrow> alloc_step M valid (a, m, L) (a, m', L)"

inductive_cases alloc_stepE: "alloc_step M valid (a, m, L) t"

inductive alloc_reachable :: "'m memory_ops \<Rightarrow> ('m \<Rightarrow> bool) \<Rightarrow> u32 \<Rightarrow> 'm run_state \<Rightarrow> bool"
  for M valid heap_base where
  start: "valid m \<Longrightarrow> alloc_reachable M valid heap_base (allocator_new heap_base, m, Map.empty)"
| step: "alloc_reachable M valid heap_base s \<Longrightarrow> alloc_step M valid s t \<Longrightarrow>
     alloc_reachable M valid heap_base t"

definition aligned_base :: "u32 \<Rightarrow> nat" where
  "aligned_base heap_base = (unat heap_base + 7) div 8 * 8"

lemma unat_aligned:
  assumes "unat heap_base + 7 < 2 ^ 32"
  shows "unat ((heap_base + ALIGNMENT - 1) div ALIGNMENT * ALIGNMENT) = aligned_base heap_base"
proof -
  have "heap_base + ALIGNMENT - 1 = heap_base + 7" by (simp add: ALIGNMENT_def)
  moreover have "unat (heap_base + 7) = unat heap_base + 7"
    using assms by (simp add: unat_word_ariths)
  moreover have "(unat heap_base + 7) div 8 * 8 < 2 ^ 32" using assms by simp
  ultimately show ?thesis
    by (simp add: ALIGNMENT_def aligned_base_def unat_word_ariths unat_div)
qed

lemma with_poison_bomb_poisoned:
  "with_poison_bomb r = ((a, m), Inl e) \<Longrightarrow> poisoned a"
  by (cases r rule: with_poison_bomb.cases) auto

lemma poisoned_allocate:
  "poisoned a \<Longrightarrow> allocate M a m sz = ((a, m), Inl (Err (error ''the allocator has been poisoned'')))"
  "poisoned a \<Longrightarrow> deallocate M a m ptr = ((a, m), Inl (Err (error ''the allocator has been poisoned'')))"
  by (simp_all add: allocate_def deallocate_def)

lemma failure_poisons:
  "allocate M a m sz = ((a', m'), Inl e) \<Longrightarrow> poisoned a'"
  "deallocate M a m ptr = ((a', m'), Inl e) \<Longrightarrow> poisoned a'"
  by (auto simp: allocate_def deallocate_def split: if_splits dest: with_poison_bomb_poisoned)

section \<open>Reachable states\<close>

context linear_memory
begin

lemma ready_program:
  assumes ready: "ready base a m s L F" and w: "program_writes M L m m'" "valid m'"
  shows "\<exists>s'. s \<le> s' \<and> ready base a m' s' L F"
proof -
  note R = readyD [OF ready] and D = alloc_invD [OF R(1)]
  from w(1) R(4) obtain s' where s': "mem_size M m' = Inr s'" "s \<le> s'"
    and same: "\<And>p. unat p + 8 \<le> unat s \<Longrightarrow>
      (\<forall>q k. L q = Some k \<longrightarrow> unat p + 8 \<le> q + 8 \<or> q + block_len k \<le> unat p) \<Longrightarrow>
      read_le_u64 M m' p = read_le_u64 M m p"
    unfolding program_writes_def by auto
  have hdr: "header_read_from M m' (of_nat p) = header_read_from M m (of_nat p)"
    if p: "(p, k) \<in> live_blocks L \<union> free_blocks F" for p k
  proof -
    note P = ready_block [OF ready p]
    have "p \<le> q \<or> q + block_len l \<le> p" if "L q = Some l" for q l
      using blocks_ok_disjoint [OF D(2) p, of q l] that by (cases "(p, k) = (q, l)") auto
    then have "read_le_u64 M m' (of_nat p) = read_le_u64 M m (of_nat p)"
      using P by (intro same) auto
    then show ?thesis by (simp add: header_read_from_def)
  qed
  have "free_chain M m' h (F k) = free_chain M m h (F k)" if "k < 23" for h k
    using hdr that by (intro free_chain_cong) auto
  moreover have "header_read_from M m' (of_nat p) = Inr (Occupied (Order (of_nat k)))" if "L p = Some k" for p k
    using hdr [of p k] D(7) [OF that] that by simp
  ultimately have "alloc_inv M base a m' L F"
    using R(1) unfolding alloc_inv_def by simp
  with R s' w(2) show ?thesis by (auto simp: ready_def word_le_nat_alt)
qed

text \<open>
  The live allocations stay apart whatever happens; as long as no request has failed, the
  allocator is also ready for the next one.
\<close>

definition run_inv :: "nat \<Rightarrow> 'm run_state \<Rightarrow> bool" where
  "run_inv base st = (case st of (a, m, L) \<Rightarrow>
     valid m \<and> (\<exists>s. mem_size M m = Inr s \<and> blocks_ok base (unat s) (live_blocks L)) \<and>
     (\<not> poisoned a \<longrightarrow> (\<exists>s F. ready base a m s L F)))"

lemma ready_run_inv: "ready base a m s L F \<Longrightarrow> run_inv base (a, m, L)"
proof -
  assume ready: "ready base a m s L F"
  note R = readyD [OF ready] and D = alloc_invD [OF R(1)]
  have "blocks_ok base (unat s) (live_blocks L \<union> free_blocks F)"
    by (rule blocks_ok_mono [OF D(2)]) (use R(5) in auto)
  then have "blocks_ok base (unat s) (live_blocks L)"
    unfolding blocks_ok_def by blast
  with R ready show ?thesis by (auto simp: run_inv_def)
qed

lemma new_ready:
  assumes "valid m" "headroom (unat heap_base + 7)" "mem_size M m = Inr s"
  shows "ready (aligned_base heap_base) (allocator_new heap_base) m s Map.empty (\<lambda>_. [])"
proof -
  have lt: "unat heap_base + 7 < 2 ^ 32" using assms(2) by (simp add: headroom_def)
  have le: "aligned_base heap_base \<le> unat heap_base + 7" by (simp add: aligned_base_def)
  note b = unat_aligned [OF lt]
  have "alloc_inv M (aligned_base heap_base) (allocator_new heap_base) m Map.empty (\<lambda>_. [])"
    unfolding alloc_inv_def
    by (simp add: allocator_new_def Let_def b blocks_ok_def free_lists_new_def N_ORDERS_def
        live_blocks_def free_blocks_def headroom_mono [OF assms(2) le])
      (simp add: aligned_base_def)
  then show ?thesis using assms(1,3) by (simp add: ready_def allocator_new_def Let_def)
qed

lemma run_inv_new:
  assumes "valid m" "headroom (unat heap_base + 7)"
  shows "run_inv (aligned_base heap_base) (allocator_new heap_base, m, Map.empty)"
proof -
  obtain s where "mem_size M m = Inr s" using size_ok [OF assms(1)] by blast
  from new_ready [OF assms this] show ?thesis by (rule ready_run_inv)
qed

text \<open>What a request for memory does in a ready state: one of four things.\<close>

lemma allocate_ready_cases:
  assumes "ready base a m s L F"
  obtains (too_large) "sz > MAX_POSSIBLE_ALLOCATION" "allocate M a m sz =
      ((a\<lparr>last_observed_memory_size := s, poisoned := True\<rparr>, m), Inl (Err RequestedAllocationTooLarge))"
  | (out_of_space) k where "k < 23" "order_from_size sz = Inr (Order (of_nat k))" "F k = []"
      "unat s < unat (bumper a) + block_len k" "allocate M a m sz =
      ((a\<lparr>last_observed_memory_size := s, poisoned := True\<rparr>, m), Inl (Err AllocatorOutOfSpace))"
  | (granted) k p a' m' F' where "k < 23" "order_from_size sz = Inr (Order (of_nat k))"
      "L p = None" "allocate M a m sz = ((a', m'), Inr (of_nat (p + 8)))"
      "ready base a' m' s (L(p \<mapsto> k)) F'"
      "p \<in> set (F k) \<or> F k = [] \<and> p = unat (bumper a) \<and> p + block_len k \<le> unat s"
proof (cases "sz > MAX_POSSIBLE_ALLOCATION")
  case True
  with allocate_too_large [OF assms] too_large show thesis by blast
next
  case False
  then have "sz \<le> MAX_POSSIBLE_ALLOCATION" by simp
  from order_from_size_cases(2) [OF this]
  obtain k where k: "k < 23" "order_from_size sz = Inr (Order (of_nat k))" by blast
  note D = alloc_invD [OF readyD(1) [OF assms]]
  show thesis
  proof (cases "F k")
    case (Cons p ps)
    then show thesis
      using allocate_reuse [OF assms k(2,1) Cons] D(4) [OF k(1), of p] granted [OF k] by (metis list.set_intros(1))
  next
    case Nil
    show thesis
    proof (cases "unat (bumper a) + block_len k \<le> unat s")
      case True
      have "L (unat (bumper a)) = None"
        using bumper_fresh [OF readyD(1) [OF assms], of "unat (bumper a)"]
        by (cases "L (unat (bumper a))") (auto simp: block_len_def)
      with True Nil show thesis
        using allocate_bump [OF assms k(2,1) Nil True] granted [OF k] by metis
    next
      case False
      with allocate_out_of_space [OF assms k(2,1) Nil] Nil show thesis
        by (intro out_of_space [OF k]) auto
    qed
  qed
qed

lemma run_inv_poison:
  "run_inv base (a, m, L) \<Longrightarrow> poisoned a' \<Longrightarrow> run_inv base (a', m, L)"
  by (auto simp: run_inv_def)

lemma run_inv_ready:
  assumes "run_inv base (a, m, L)"
  obtains (poisoned) "poisoned a" | (ready) s F where "ready base a m s L F"
  using assms by (auto simp: run_inv_def)

lemma run_inv_malloc:
  assumes inv: "run_inv base (a, m, L)" and res: "allocate M a m sz = ((a', m'), Inr ptr)"
    and ord: "order_from_size sz = Inr (Order ord)"
  shows "run_inv base (a', m', L(unat ptr - 8 \<mapsto> unat ord))"
  using inv
proof (cases rule: run_inv_ready)
  case (ready s F)
  show ?thesis
    using ready
  proof (cases rule: allocate_ready_cases [where sz = sz])
    case (granted k p a'' m'' F')
    have "(p, k) \<in> live_blocks (L(p \<mapsto> k)) \<union> free_blocks F'" by simp
    from ready_block [OF granted(5) this] have "unat (of_nat (p + 8) :: u32) = p + 8"
      by (intro unat_addr) simp
    moreover have "unat ord = k" using granted(1,2) ord by (simp add: unat_order_raw)
    ultimately show ?thesis using ready_run_inv [OF granted(5)] granted(4) res by auto
  qed (use res in simp_all)
qed (use res in \<open>simp add: poisoned_allocate\<close>)

lemma run_inv_malloc_fails:
  assumes inv: "run_inv base (a, m, L)" and res: "allocate M a m sz = ((a', m'), Inl e)"
  shows "run_inv base (a', m', L) \<and> m' = m"
  using inv
proof (cases rule: run_inv_ready)
  case (ready s F)
  then have "m' = m" using res by (cases rule: allocate_ready_cases [where sz = sz]) auto
  then show ?thesis using run_inv_poison [OF inv] failure_poisons(1) [OF res] by simp
qed (use res inv in \<open>auto simp: poisoned_allocate\<close>)

lemma run_inv_free:
  assumes inv: "run_inv base (a, m, L)" and p: "L p = Some k"
    and res: "deallocate M a m (of_nat (p + 8)) = ((a', m'), r)"
  shows "poisoned a \<and> a' = a \<and> m' = m \<and> (\<exists>e. r = Inl e) \<or> r = Inr () \<and> run_inv base (a', m', L(p := None))"
  using inv
proof (cases rule: run_inv_ready)
  case (ready s F)
  from deallocate_live [OF ready p] res ready_run_inv show ?thesis by (metis prod.inject)
qed (use res in \<open>auto simp: poisoned_allocate\<close>)

lemma run_inv_step:
  assumes "alloc_step M valid st t" "run_inv base st"
  shows "run_inv base t"
  using assms
proof (induction rule: alloc_step.induct)
  case (malloc a m sz a' m' ptr ord L)
  then show ?case by (blast intro: run_inv_malloc)
next
  case (malloc_fails a m sz a' m' e L)
  then show ?case by (blast dest: run_inv_malloc_fails)
next
  case (free L p k a m a' m')
  then show ?case by (blast dest: run_inv_free)
next
  case (free_fails L p k a m a' m' e)
  then show ?case by (blast dest: run_inv_free)
next
  case (program L m m' a)
  note w = program.hyps
  from program.prems show ?case
  proof (cases rule: run_inv_ready)
    case (ready s F)
    from ready_program [OF this w] ready_run_inv show ?thesis by blast
  next
    case poisoned
    obtain s s' where "mem_size M m = Inr s" "mem_size M m' = Inr s'" "s \<le> s'"
      using w(1) by (auto simp: program_writes_def)
    with program.prems poisoned w(2) show ?thesis
      by (auto simp: run_inv_def word_le_nat_alt intro: blocks_ok_mono)
  qed
qed

lemma reachable_run_inv:
  assumes "alloc_reachable M valid heap_base st" "headroom (unat heap_base + 7)"
  shows "run_inv (aligned_base heap_base) st"
  using assms by (induction rule: alloc_reachable.induct) (blast intro: run_inv_new run_inv_step)+

text \<open>The live allocations of a reachable state.\<close>

lemma reachable_live:
  assumes "alloc_reachable M valid heap_base (a, m, L)" "headroom (unat heap_base + 7)" "L p = Some k"
  shows "k < 23 \<and> unat heap_base \<le> p \<and> 8 dvd p + 8 \<and> (\<exists>s. mem_size M m = Inr s \<and> p + block_len k \<le> unat s) \<and>
    (\<forall>q l. L q = Some l \<and> q \<noteq> p \<longrightarrow> p + block_len k \<le> q \<or> q + block_len l \<le> p)"
proof -
  obtain s where s: "mem_size M m = Inr s" and b: "blocks_ok (aligned_base heap_base) (unat s) (live_blocks L)"
    using reachable_run_inv [OF assms(1,2)] by (auto simp: run_inv_def)
  have base: "unat heap_base \<le> aligned_base heap_base" by (simp add: aligned_base_def)
  have p: "(p, k) \<in> live_blocks L" using assms(3) by simp
  note P = blocks_okD [OF b p]
  have "p + block_len k \<le> q \<or> q + block_len l \<le> p" if "L q = Some l" "q \<noteq> p" for q l
    using blocks_ok_disjoint [OF b p, of q l] that by simp
  with P s base show ?thesis by auto
qed

lemma reachable_allocate:
  assumes "alloc_reachable M valid heap_base (a, m, L)" "headroom (unat heap_base + 7)" "\<not> poisoned a"
  shows "case allocate M a m sz of
      (_, Inl e) \<Rightarrow> e = Err RequestedAllocationTooLarge \<and> unat sz > 2 ^ 25 \<or> e = Err AllocatorOutOfSpace
    | (_, Inr ptr) \<Rightarrow> \<exists>k < 23. L (unat ptr - 8) = None \<and> 8 \<le> unat ptr \<and> unat sz \<le> 8 * 2 ^ k \<and> (k = 0 \<or> 4 * 2 ^ k < unat sz)"
proof -
  obtain s F where ready: "ready (aligned_base heap_base) a m s L F"
    using reachable_run_inv [OF assms(1,2)] assms(3) by (auto simp: run_inv_def)
  then show ?thesis
  proof (cases rule: allocate_ready_cases [where sz = sz])
    case too_large
    then show ?thesis by (simp add: word_less_nat_alt MAX_POSSIBLE_ALLOCATION_def)
  next
    case (granted k p a' m' F')
    have "(p, k) \<in> live_blocks (L(p \<mapsto> k)) \<union> free_blocks F'" by simp
    from ready_block [OF granted(5) this] have ptr: "unat (of_nat (p + 8) :: u32) = p + 8"
      by (intro unat_addr) simp
    have "sz \<le> MAX_POSSIBLE_ALLOCATION"
      using granted(2) order_from_size_cases(1) [of sz] by (cases "sz > MAX_POSSIBLE_ALLOCATION") auto
    from order_from_size_cases(2) [OF this] obtain l
      where l: "l < 23" "Order (of_nat k) = Order (of_nat l)" "unat sz \<le> 8 * 2 ^ l" "l = 0 \<or> 4 * 2 ^ l < unat sz"
      using granted(2) by auto
    have "l = k" using l(1,2) granted(1) unat_order_raw [of k] unat_order_raw [of l] by (metis order.inject)
    with l granted ptr show ?thesis by (auto intro!: exI [of _ k])
  qed auto
qed

text \<open>Freeing succeeds on every live allocation, and the next request of that order gets its place.\<close>

lemma reachable_free_reuse:
  assumes "alloc_reachable M valid heap_base (a, m, L)" "headroom (unat heap_base + 7)" "\<not> poisoned a"
    and "L p = Some k" "order_from_size sz = Inr (Order (of_nat k))"
  shows "\<exists>a' m' a'' m''. deallocate M a m (of_nat (p + 8)) = ((a', m'), Inr ()) \<and>
    allocate M a' m' sz = ((a'', m''), Inr (of_nat (p + 8)))"
proof -
  obtain s F where ready: "ready (aligned_base heap_base) a m s L F"
    using reachable_run_inv [OF assms(1,2)] assms(3) by (auto simp: run_inv_def)
  from deallocate_live [OF ready assms(4)] obtain a' m' where d:
    "deallocate M a m (of_nat (p + 8)) = ((a', m'), Inr ())"
    "ready (aligned_base heap_base) a' m' s (L(p := None)) (F(k := p # F k))" by blast
  have k: "k < 23" using ready_block(3) [OF ready, of p k] assms(4) by simp
  have "(F(k := p # F k)) k = p # F k" by simp
  from allocate_reuse [OF d(2) assms(5) k this] d(1) show ?thesis by metis
qed

end

section \<open>Byte slices\<close>

definition slice_valid :: "u8 list \<Rightarrow> bool" where
  "slice_valid m \<longleftrightarrow> headroom (length m)"

lemma slice_size_eq: "slice_valid m \<Longrightarrow> slice_size m = Inr s \<longleftrightarrow> unat s = length m"
proof -
  assume "slice_valid m"
  then have len: "length m < 2 ^ 32" by (simp add: slice_valid_def headroom_def)
  moreover have "of_nat (length m) = s \<longleftrightarrow> unat s = length m"
    unfolding word_unat_eq_iff using unat_addr [OF len] by auto
  ultimately show ?thesis by (simp add: slice_size_def)
qed

lemma heap_range_in: "unat p + 8 \<le> n \<Longrightarrow> headroom n \<Longrightarrow> heap_range p 8 n = Some (unat p, unat p + 8)"
  by (simp add: heap_range_def headroom_def unat_word_ariths)

lemma heap_range_out: "n < unat p + 8 \<Longrightarrow> heap_range p 8 n = None"
  by (auto simp: heap_range_def unat_word_ariths)

lemma splice_same: "a + length v \<le> length m \<Longrightarrow> take (length v) (drop a (take a m @ v @ drop (a + length v) m)) = v"
  by simp

lemma splice_other:
  assumes "a + 8 \<le> length m" "length v = 8" "q + 8 \<le> a \<or> a + 8 \<le> q"
  shows "take 8 (drop q (take a m @ v @ drop (a + 8) m)) = take 8 (drop q m)"
proof (rule nth_equalityI)
  have len: "length (take a m @ v @ drop (a + 8) m) = length m" using assms by simp
  then show "length (take 8 (drop q (take a m @ v @ drop (a + 8) m))) = length (take 8 (drop q m))"
    by (simp only: length_take length_drop)
  fix i assume "i < length (take 8 (drop q (take a m @ v @ drop (a + 8) m)))"
  then have i: "i < 8" "q + i < length m" using len by (simp_all only: length_take length_drop)
  then show "take 8 (drop q (take a m @ v @ drop (a + 8) m)) ! i = take 8 (drop q m) ! i"
    using assms by (auto simp: nth_append)
qed

interpretation slice: linear_memory slice_memory slice_valid
proof unfold_locales
  fix m :: "u8 list" and s p q :: u32 and v :: u64
  assume valid: "slice_valid m"
  show "\<exists>s. mem_size slice_memory m = Inr s \<and> headroom (unat s)"
    using valid unat_addr [of "length m"]
    by (simp add: slice_memory_def slice_size_def slice_valid_def headroom_def)
  assume "mem_size slice_memory m = Inr s"
  with valid have s: "unat s = length m" by (simp add: slice_memory_def slice_size_eq)
  have hr: "headroom (length m)" using valid by (simp add: slice_valid_def)
  show "\<exists>v. read_le_u64 slice_memory m p = Inr v" if "unat p + 8 \<le> unat s"
    using heap_range_in [OF _ hr, of p] that s by (simp add: slice_memory_def slice_read_le_u64_def)
  show "\<exists>e. read_le_u64 slice_memory m p = Inl (Err e)" if "unat s < unat p + 8"
    using heap_range_out [of "length m" p] that s by (simp add: slice_memory_def slice_read_le_u64_def)
  assume p: "unat p + 8 \<le> unat s"
  define m' where "m' = take (unat p) m @ u64_to_le_bytes v @ drop (unat p + 8) m"
  have len: "length m' = length m" using p s by (simp add: m'_def)
  have read: "read_le_u64 slice_memory m' q = Inr (u64_from_le_bytes (take 8 (drop (unat q) m')))"
    if "unat q + 8 \<le> unat s" for q
    using heap_range_in [of q "length m'"] hr len that s by (simp add: slice_memory_def slice_read_le_u64_def)
  have read0: "read_le_u64 slice_memory m q = Inr (u64_from_le_bytes (take 8 (drop (unat q) m)))"
    if "unat q + 8 \<le> unat s" for q
    using heap_range_in [of q "length m"] hr that s by (simp add: slice_memory_def slice_read_le_u64_def)
  have "write_le_u64 slice_memory m p v = Inr m'"
    using heap_range_in [OF _ hr, of p] p s by (simp add: slice_memory_def slice_write_le_u64_def m'_def)
  moreover have "slice_valid m'" "mem_size slice_memory m' = Inr s"
    using valid len s slice_size_eq [of m' s] by (simp_all add: slice_valid_def slice_memory_def)
  moreover have "read_le_u64 slice_memory m' p = Inr v"
    using read [OF p] splice_same [of "unat p" "u64_to_le_bytes v" m] p s by (simp add: m'_def)
  moreover have "read_le_u64 slice_memory m' q = read_le_u64 slice_memory m q"
    if "unat q + 8 \<le> unat p \<or> unat p + 8 \<le> unat q \<and> unat q + 8 \<le> unat s" for q
    using read [of q] read0 [of q] splice_other [of "unat p" m "u64_to_le_bytes v" "unat q"] that p s
    by (auto simp: m'_def)
  ultimately show "\<exists>m'. write_le_u64 slice_memory m p v = Inr m' \<and> slice_valid m' \<and>
      mem_size slice_memory m' = Inr s \<and> read_le_u64 slice_memory m' p = Inr v \<and>
      (\<forall>q. unat q + 8 \<le> unat p \<or> unat p + 8 \<le> unat q \<and> unat q + 8 \<le> unat s \<longrightarrow>
        read_le_u64 slice_memory m' q = read_le_u64 slice_memory m q)"
    by blast
qed

section \<open>Properties\<close>



lemma headroom_0: "headroom (unat (0 :: u32) + 7)"
  by (simp add: headroom_def block_len_22)







text \<open>
  C24: once a request has failed, every later request fails and changes nothing.
\<close>

theorem failure_is_final:
  assumes "(\<exists>sz. allocate M a m sz = ((a', m'), Inl e)) \<or> (\<exists>ptr. deallocate M a m ptr = ((a', m'), Inl e))"
  shows "allocate M a' mem sz' = ((a', mem), Inl (Err (Other ''the allocator has been poisoned''))) \<and>
    deallocate M a' mem ptr' = ((a', mem), Inl (Err (Other ''the allocator has been poisoned'')))"
  using assms failure_poisons poisoned_allocate by (metis error_def)

theorem failure_is_final_witness:
  "\<exists>a'. snd (allocate slice_memory (allocator_new 0) [] 0x2000001) = Inl (Err RequestedAllocationTooLarge) \<and>
    snd (allocate slice_memory a' [] 8) = Inl (Err (Other ''the allocator has been poisoned''))"
proof -
  have v: "slice_valid []" by (simp add: slice_valid_def headroom_def block_len_22)
  have s: "mem_size slice_memory [] = Inr 0" by (simp add: slice_memory_def slice_size_def)
  have "(0x2000001 :: u32) > MAX_POSSIBLE_ALLOCATION" by (simp add: MAX_POSSIBLE_ALLOCATION_def)
  note r = slice.allocate_too_large [OF slice.new_ready [OF v headroom_0 s] this]
  from failure_is_final [OF disjI1, OF exI, OF r] r show ?thesis by (metis snd_conv)
qed

text \<open>
  A header that is written to a memory and is well formed is read back from it.
\<close>

lemma header_write_read:
  assumes "slice_valid m" and "unat p + 8 \<le> length m" and "header_ok h"
  shows "\<exists>m'. header_write_into slice_memory h m p = Inr m' \<and> length m' = length m \<and>
    header_read_from slice_memory m' p = Inr h"
proof -
  obtain s where s: "mem_size slice_memory m = Inr s" using slice.size_ok [OF assms(1)] by blast
  then have len: "unat s = length m" using assms(1) by (simp add: slice_memory_def slice_size_eq)
  from slice.write_header [OF assms(1) s _ assms(3)] assms(2) len
  obtain m' where m': "header_write_into slice_memory h m p = Inr m'" "slice_valid m'"
    "mem_size slice_memory m' = Inr s" "header_read_from slice_memory m' p = Inr h" by metis
  from m'(2,3) len have "length m' = length m" by (simp add: slice_memory_def slice_size_eq)
  with m' show ?thesis by blast
qed


end
