(* ===== verification/Fork_Tree.thy ===== *)
theory Fork_Tree
  imports Smoldot_Prelude
begin

text \<open>
  The tree of non-finalized blocks of \<^verbatim>\<open>src/chain/fork_tree.rs\<close>. The nodes live in a slab (the
  crate \<^verbatim>\<open>slab\<close>), a table from indices to nodes, and refer to each other by index. The slab is a
  partial map; which vacant index its \<^verbatim>\<open>insert\<close> picks is an argument of the operation that
  inserts. Indexing the slab with an index it does not hold panics: such operations return
  \<open>None\<close>. The loops that follow links from node to node are partial functions, so that a loop
  that does not end is \<open>None\<close> too; the lemmas show that on the trees the operations build they
  all return.
\<close>

section \<open>Nodes and trees\<close>

type_synonym 'v slab = "nat \<rightharpoonup> 'v"

record 'a node =
  parent :: "nat option"
  first_child :: "nat option"
  next_sibling :: "nat option"
  previous_sibling :: "nat option"
  is_prune_target_ancestor :: bool
  data :: 'a

record 'a fork_tree =
  nodes :: "'a node slab"
  first_root :: "nat option"

definition fork_tree_new :: "'a fork_tree" where
  "fork_tree_new = \<lparr>nodes = Map.empty, first_root = None\<rparr>"

definition fork_tree_clear :: "'a fork_tree \<Rightarrow> 'a fork_tree" where
  "fork_tree_clear t = t\<lparr>nodes := Map.empty, first_root := None\<rparr>"

definition fork_tree_get :: "'a fork_tree \<Rightarrow> nat \<Rightarrow> 'a option" where
  "fork_tree_get t i = map_option data (nodes t i)"

text \<open>\<^verbatim>\<open>get_mut\<close>: the caller replaces the user data it is given a reference to.\<close>

definition fork_tree_get_mut :: "'a fork_tree \<Rightarrow> nat \<Rightarrow> ('a \<Rightarrow> 'a) \<Rightarrow> 'a fork_tree option" where
  "fork_tree_get_mut t i f =
     map_option (\<lambda>nd. t\<lparr>nodes := (nodes t)(i \<mapsto> nd\<lparr>data := f (data nd)\<rparr>)\<rparr>) (nodes t i)"

definition node_map :: "('a \<Rightarrow> 'b) \<Rightarrow> 'a node \<Rightarrow> 'b node" where
  "node_map f nd =
     \<lparr>parent = parent nd, first_child = first_child nd, next_sibling = next_sibling nd,
      previous_sibling = previous_sibling nd,
      is_prune_target_ancestor = is_prune_target_ancestor nd, data = f (data nd)\<rparr>"

definition fork_tree_map :: "('a \<Rightarrow> 'b) \<Rightarrow> 'a fork_tree \<Rightarrow> 'b fork_tree" where
  "fork_tree_map f t =
     \<lparr>nodes = (\<lambda>i. map_option (node_map f) (nodes t i)), first_root = first_root t\<rparr>"

definition fork_tree_parent :: "'a fork_tree \<Rightarrow> nat \<Rightarrow> nat option option" where
  "fork_tree_parent t i = map_option parent (nodes t i)"

text \<open>The nodes in the order of the slab, as \<^verbatim>\<open>ForkTree::iter_unordered\<close> yields them.\<close>

definition iter_unordered :: "('v node slab \<Rightarrow> nat list) \<Rightarrow> 'v fork_tree \<Rightarrow> (nat \<times> 'v) list" where
  "iter_unordered keys t = List.map_filter (\<lambda>i. map_option (Pair i) (fork_tree_get t i)) (keys (nodes t))"

section \<open>Following links\<close>

partial_function (option) siblings :: "'a node slab \<Rightarrow> nat option \<Rightarrow> nat list option" where
  "siblings N l =
     (case l of
        None \<Rightarrow> Some []
      | Some i \<Rightarrow> Option.bind (N i) (\<lambda>nd. Option.bind (siblings N (next_sibling nd)) (\<lambda>is. Some (i # is))))"

definition children :: "'a fork_tree \<Rightarrow> nat option \<Rightarrow> nat list option" where
  "children t node =
     Option.bind (case node of Some n \<Rightarrow> map_option first_child (nodes t n) | None \<Rightarrow> Some (first_root t))
       (siblings (nodes t))"

partial_function (option) climb :: "'a node slab \<Rightarrow> nat option \<Rightarrow> nat option option" where
  "climb N return_value =
     (case return_value of
        None \<Rightarrow> Some None
      | Some idx \<Rightarrow> Option.bind (N idx) (\<lambda>nd.
          case next_sibling nd of
            Some s \<Rightarrow> Some (Some s)
          | None \<Rightarrow> climb N (parent nd)))"

definition ancestry_order_next :: "'a node slab \<Rightarrow> nat \<Rightarrow> nat option option" where
  "ancestry_order_next N i =
     Option.bind (N i) (\<lambda>nd.
       case first_child nd of
         Some idx \<Rightarrow> Some (Some idx)
       | None \<Rightarrow>
           (case next_sibling nd of
              Some idx \<Rightarrow> Some (Some idx)
            | None \<Rightarrow> climb N (parent nd)))"

partial_function (option) ancestry_order_from :: "'a node slab \<Rightarrow> nat option \<Rightarrow> (nat \<times> 'a) list option" where
  "ancestry_order_from N cur =
     (case cur of
        None \<Rightarrow> Some []
      | Some i \<Rightarrow>
          Option.bind (ancestry_order_next N i) (\<lambda>succ.
          Option.bind (N i) (\<lambda>nd.
          Option.bind (ancestry_order_from N succ) (\<lambda>rest. Some ((i, data nd) # rest)))))"

definition iter_ancestry_order :: "'a fork_tree \<Rightarrow> (nat \<times> 'a) list option" where
  "iter_ancestry_order t = ancestry_order_from (nodes t) (first_root t)"

partial_function (option) node_to_root_path :: "'a node slab \<Rightarrow> nat \<Rightarrow> nat list option" where
  "node_to_root_path N i =
     Option.bind (N i) (\<lambda>nd.
       case parent nd of
         None \<Rightarrow> Some [i]
       | Some p \<Rightarrow> Option.bind (node_to_root_path N p) (\<lambda>path. Some (i # path)))"

text \<open>
  \<^verbatim>\<open>root_to_node_path\<close>: the successor of \<open>current\<close> is the last element of the path from the
  node to the root before \<open>current\<close>; the first \<open>current\<close> is an index no node has (\<^verbatim>\<open>usize::MAX\<close>,
  the argument \<open>M\<close>), and is skipped.
\<close>

partial_function (option) root_to_node_from :: "nat list \<Rightarrow> nat \<Rightarrow> nat list option" where
  "root_to_node_from path current =
     (let before = takeWhile (\<lambda>n. n \<noteq> current) path in
      if before = [] then Some []
      else Option.bind (root_to_node_from path (last before)) (\<lambda>rest. Some (last before # rest)))"

definition root_to_node_path :: "nat \<Rightarrow> 'a node slab \<Rightarrow> nat \<Rightarrow> nat list option" where
  "root_to_node_path M N i = Option.bind (node_to_root_path N i) (\<lambda>path. root_to_node_from path M)"

text \<open>The loop of \<^verbatim>\<open>common_ancestor\<close> over the two iterators; the outer \<open>None\<close> is \<^verbatim>\<open>unreachable!()\<close>.\<close>

fun common_ancestor_loop :: "nat list \<Rightarrow> nat list \<Rightarrow> nat option option" where
  "common_ancestor_loop (a # as) (b # bs) =
     (if a = b then Some (Some a) else common_ancestor_loop as bs)"
| "common_ancestor_loop [] [] = Some None"
| "common_ancestor_loop _ _ = None"

definition common_ancestor :: "'a node slab \<Rightarrow> nat \<Rightarrow> nat \<Rightarrow> nat option option" where
  "common_ancestor N node1 node2 =
     Option.bind (node_to_root_path N node1) (\<lambda>path1.
     Option.bind (node_to_root_path N node2) (\<lambda>path2.
       let dist_to_root1 = length path1;
           dist_to_root2 = length path2;
           iter1 = drop (dist_to_root1 - dist_to_root2) path1;
           iter2 = drop (dist_to_root2 - dist_to_root1) path2
       in common_ancestor_loop iter1 iter2))"

partial_function (option) is_ancestor_loop :: "'a node slab \<Rightarrow> nat \<Rightarrow> nat \<Rightarrow> bool option" where
  "is_ancestor_loop N maybe_ancestor iter =
     (if iter = maybe_ancestor then Some True
      else Option.bind (N iter) (\<lambda>nd.
        case parent nd of Some p \<Rightarrow> is_ancestor_loop N maybe_ancestor p | None \<Rightarrow> Some False))"

definition is_ancestor :: "'a node slab \<Rightarrow> nat \<Rightarrow> nat \<Rightarrow> bool option" where
  "is_ancestor N maybe_ancestor maybe_descendant =
     (if N maybe_descendant = None then None
      else is_ancestor_loop N maybe_ancestor maybe_descendant)"

definition ascend_and_descend ::
    "nat \<Rightarrow> 'a node slab \<Rightarrow> nat \<Rightarrow> nat \<Rightarrow> (nat list \<times> nat list) option" where
  "ascend_and_descend M N node1 node2 =
     Option.bind (common_ancestor N node1 node2) (\<lambda>ca.
     Option.bind (node_to_root_path N node1) (\<lambda>path1.
     Option.bind (root_to_node_path M N node2) (\<lambda>path2.
       let iter1 = takeWhile (\<lambda>v. Some v \<noteq> ca) path1;
           iter2 = (case ca of
                      Some c \<Rightarrow> drop 1 (dropWhile (\<lambda>v. v \<noteq> c) path2)
                    | None \<Rightarrow> path2)
       in Some (iter1, iter2))))"

section \<open>Inserting\<close>

text \<open>\<open>slab_modify\<close> is \<^verbatim>\<open>get_mut(i).unwrap()\<close> followed by an assignment to a field.\<close>

definition slab_modify :: "nat \<Rightarrow> ('v \<Rightarrow> 'v) \<Rightarrow> 'v slab \<Rightarrow> 'v slab option" where
  "slab_modify i f N = map_option (\<lambda>v. N(i \<mapsto> f v)) (N i)"

definition fork_tree_insert :: "nat \<Rightarrow> 'a fork_tree \<Rightarrow> nat option \<Rightarrow> 'a \<Rightarrow> ('a fork_tree \<times> nat) option" where
  "fork_tree_insert new_node_index t par child =
     (case par of
        Some p \<Rightarrow>
          Option.bind (nodes t p) (\<lambda>pn.
          let next = first_child pn;
              N = (nodes t)(new_node_index \<mapsto>
                \<lparr>parent = Some p, first_child = None, next_sibling = next, previous_sibling = None,
                 is_prune_target_ancestor = False, data = child\<rparr>)
          in Option.bind (slab_modify p (\<lambda>nd. nd\<lparr>first_child := Some new_node_index\<rparr>) N) (\<lambda>N.
             Option.bind (case next of
                 Some s \<Rightarrow> slab_modify s (\<lambda>nd. nd\<lparr>previous_sibling := Some new_node_index\<rparr>) N
               | None \<Rightarrow> Some N) (\<lambda>N.
             Some (t\<lparr>nodes := N\<rparr>, new_node_index))))
      | None \<Rightarrow>
          let N = (nodes t)(new_node_index \<mapsto>
                \<lparr>parent = None, first_child = None, next_sibling = first_root t,
                 previous_sibling = None, is_prune_target_ancestor = False, data = child\<rparr>)
          in Option.bind (case first_root t of
                 Some r \<Rightarrow> slab_modify r (\<lambda>nd. nd\<lparr>previous_sibling := Some new_node_index\<rparr>) N
               | None \<Rightarrow> Some N) (\<lambda>N.
             Some (t\<lparr>nodes := N, first_root := Some new_node_index\<rparr>, new_node_index)))"

section \<open>Pruning\<close>

text \<open>The loop that marks the target of the pruning and its ancestors.\<close>

partial_function (option) mark_ancestors :: "bool \<Rightarrow> 'a fork_tree \<Rightarrow> nat \<Rightarrow> 'a fork_tree option" where
  "mark_ancestors uncles_only t node =
     Option.bind (slab_modify node (\<lambda>nd. nd\<lparr>is_prune_target_ancestor := True\<rparr>) (nodes t)) (\<lambda>N.
       let t = t\<lparr>nodes := N, first_root := (if uncles_only then Some node else first_root t)\<rparr>
       in Option.bind (N node) (\<lambda>nd.
          case parent nd of
            Some n \<Rightarrow> mark_ancestors uncles_only t n
          | None \<Rightarrow> Some t))"

record 'a prune_iter =
  finished :: bool
  tree :: "'a fork_tree"
  cur :: nat
  traversing_up :: bool
  new_final :: nat
  uncles_only :: bool

record 'a pruned_node =
  pruned_index :: nat
  pruned_is_target_ancestor :: bool
  user_data :: 'a

definition prune_ancestors_inner :: "'a fork_tree \<Rightarrow> nat \<Rightarrow> bool \<Rightarrow> 'a prune_iter option" where
  "prune_ancestors_inner t node_index uncles =
     Option.bind (first_root t) (\<lambda>iter.
     Option.bind (mark_ancestors uncles t node_index) (\<lambda>t.
     Option.bind (if uncles then Some t
                  else map_option (\<lambda>nd. t\<lparr>first_root := first_child nd\<rparr>) (nodes t node_index)) (\<lambda>t.
       Some \<lparr>finished = False, tree = t, cur = iter, traversing_up = False,
             new_final = node_index, uncles_only = uncles\<rparr>)))"

definition set_node :: "nat \<Rightarrow> 'a node \<Rightarrow> 'a prune_iter \<Rightarrow> 'a prune_iter" where
  "set_node i nd st = st\<lparr>tree := (tree st)\<lparr>nodes := (nodes (tree st))(i \<mapsto> nd)\<rparr>\<rparr>"

text \<open>
  The body of the loop in \<^verbatim>\<open>PruneAncestorsIter::next\<close>, once \<^verbatim>\<open>finished\<close> has been found false.
  The result is \<open>None\<close> when the loop continues and the removed node when it breaks.
\<close>

definition prune_child_of_final :: "'a prune_iter \<Rightarrow> 'a node \<Rightarrow> 'a prune_iter" where
  "prune_child_of_final st iter_node =
     (let iter_node = (if uncles_only st then iter_node else iter_node\<lparr>parent := None\<rparr>);
          st = set_node (cur st) iter_node st
      in case next_sibling iter_node of
           Some s \<Rightarrow> st\<lparr>cur := s\<rparr>
         | None \<Rightarrow> st\<lparr>traversing_up := True, cur := new_final st\<rparr>)"

definition prune_advance :: "'a prune_iter \<Rightarrow> 'a node \<Rightarrow> 'a prune_iter" where
  "prune_advance st iter_node =
     (case next_sibling iter_node of
        Some s \<Rightarrow> st\<lparr>traversing_up := False, cur := s\<rparr>
      | None \<Rightarrow>
          (case parent iter_node of
             Some p \<Rightarrow> st\<lparr>traversing_up := True, cur := p\<rparr>
           | None \<Rightarrow> st\<lparr>finished := True\<rparr>))"

definition prune_keep :: "nat \<Rightarrow> 'a node \<Rightarrow> 'a prune_iter \<Rightarrow> 'a prune_iter option" where
  "prune_keep i iter_node st =
     (let had_previous = (previous_sibling iter_node \<noteq> None);
          iter_node = iter_node\<lparr>is_prune_target_ancestor := False, next_sibling := None,
                                previous_sibling := None\<rparr>;
          st = set_node i iter_node st
      in case (had_previous, parent iter_node) of
           (True, Some p) \<Rightarrow>
             map_option (\<lambda>pn. set_node p (pn\<lparr>first_child := Some i\<rparr>) st) (nodes (tree st) p)
         | _ \<Rightarrow> Some st)"

definition prune_body :: "'a prune_iter \<Rightarrow> ('a pruned_node option \<times> 'a prune_iter) option" where
  "prune_body st =
     Option.bind (nodes (tree st) (cur st)) (\<lambda>iter_node.
       if parent iter_node = Some (new_final st) then Some (None, prune_child_of_final st iter_node)
       else
         case (if traversing_up st then None else first_child iter_node) of
           Some c \<Rightarrow> Some (None, st\<lparr>cur := c\<rparr>)
         | None \<Rightarrow>
             let i = cur st;
                 st = prune_advance st iter_node
             in if uncles_only st \<and> is_prune_target_ancestor iter_node
                then map_option (\<lambda>st. (None, st)) (prune_keep i iter_node st)
                else Some (Some \<lparr>pruned_index = i,
                                 pruned_is_target_ancestor = is_prune_target_ancestor iter_node,
                                 user_data = data iter_node\<rparr>,
                           st\<lparr>tree := (tree st)\<lparr>nodes := (nodes (tree st))(i := None)\<rparr>\<rparr>))"

partial_function (option) prune_next :: "'a prune_iter \<Rightarrow> ('a pruned_node option \<times> 'a prune_iter) option" where
  "prune_next st =
     (if finished st then Some (None, st)
      else Option.bind (prune_body st) (\<lambda>(out, st).
        case out of Some pn \<Rightarrow> Some (Some pn, st) | None \<Rightarrow> prune_next st))"

text \<open>
  Consuming the iterator to its end, as its \<^verbatim>\<open>Drop\<close> implementation does if the caller has not:
  the removed nodes in order, and the state it ends in.
\<close>

partial_function (option) prune_drain :: "'a prune_iter \<Rightarrow> ('a pruned_node list \<times> 'a prune_iter) option" where
  "prune_drain st =
     Option.bind (prune_next st) (\<lambda>(out, st).
       case out of
         None \<Rightarrow> Some ([], st)
       | Some pn \<Rightarrow> Option.bind (prune_drain st) (\<lambda>(pns, st). Some (pn # pns, st)))"

definition prune :: "'a fork_tree \<Rightarrow> nat \<Rightarrow> bool \<Rightarrow> ('a fork_tree \<times> 'a pruned_node list) option" where
  "prune t node_index uncles =
     Option.bind (prune_ancestors_inner t node_index uncles) (\<lambda>st.
     Option.bind (prune_drain st) (\<lambda>(pns, st). Some (tree st, pns)))"

definition prune_ancestors :: "'a fork_tree \<Rightarrow> nat \<Rightarrow> ('a fork_tree \<times> 'a pruned_node list) option" where
  "prune_ancestors t node_index = prune t node_index False"

definition prune_uncles :: "'a fork_tree \<Rightarrow> nat \<Rightarrow> ('a fork_tree \<times> 'a pruned_node list) option" where
  "prune_uncles t node_index = prune t node_index True"

end
