(* ===== verification/Fork_Tree_Spec.thy ===== *)
theory Fork_Tree_Spec
  imports Fork_Tree "HOL-Library.Sublist"
begin

text \<open>
  The abstract view of a fork tree: a forest of rose trees, whose nodes carry the index and the
  user data. \<open>represents t f\<close> says that the links of the slab of \<open>t\<close> are those of the forest \<open>f\<close>.
  The lemmas show that inserting adds a leaf to the forest, that the iteration yields the forest
  in preorder, and that the functions about ancestry compute what they say on the paths of the
  forest.
\<close>

section \<open>Forests\<close>

datatype 'a rose = Rose nat 'a "'a rose list"

fun head_ix :: "'a rose list \<Rightarrow> nat option \<Rightarrow> nat option" where
  "head_ix [] nx = nx"
| "head_ix (Rose i _ _ # _) nx = Some i"

fun preorder :: "'a rose list \<Rightarrow> (nat \<times> 'a) list" where
  "preorder [] = []"
| "preorder (Rose i d cs # ts) = (i, d) # preorder cs @ preorder ts"

definition ixs :: "'a rose list \<Rightarrow> nat list" where
  "ixs f = map fst (preorder f)"

lemma ixs_simps [simp]:
  "ixs [] = []"
  "ixs (Rose i d cs # ts) = i # ixs cs @ ixs ts"
  by (simp_all add: ixs_def)

lemma preorder_append [simp]: "preorder (xs @ ys) = preorder xs @ preorder ys"
  by (induction xs rule: preorder.induct) simp_all

lemma ixs_append [simp]: "ixs (xs @ ys) = ixs xs @ ixs ys"
  by (simp add: ixs_def)

lemma ixs_Nil_iff [simp]: "ixs f = [] \<longleftrightarrow> f = []"
  by (cases f rule: preorder.cases) simp_all

text \<open>
  The links of a list of siblings: their parent, the sibling before the first of them, the
  sibling after the last of them.
\<close>

fun rep :: "'a node slab \<Rightarrow> nat option \<Rightarrow> nat option \<Rightarrow> nat option \<Rightarrow> 'a rose list \<Rightarrow> bool" where
  "rep N par prev nx [] \<longleftrightarrow> True"
| "rep N par prev nx (Rose i d cs # ts) \<longleftrightarrow>
     N i = Some \<lparr>parent = par, first_child = head_ix cs None, next_sibling = head_ix ts nx,
                 previous_sibling = prev, is_prune_target_ancestor = False, data = d\<rparr> \<and>
     rep N (Some i) None None cs \<and> rep N par (Some i) nx ts"

definition represents :: "'a fork_tree \<Rightarrow> 'a rose list \<Rightarrow> bool" where
  "represents t f \<longleftrightarrow>
     first_root t = head_ix f None \<and> rep (nodes t) None None None f \<and>
     distinct (ixs f) \<and> dom (nodes t) = set (ixs f)"

text \<open>The operations on forests that inserting and looking for paths refine.\<close>

fun forest_insert :: "nat \<Rightarrow> 'a rose \<Rightarrow> 'a rose list \<Rightarrow> 'a rose list" where
  "forest_insert p leaf [] = []"
| "forest_insert p leaf (Rose i d cs # ts) =
     (if i = p then Rose i d (leaf # cs) # ts
      else Rose i d (forest_insert p leaf cs) # forest_insert p leaf ts)"

fun path_to :: "nat \<Rightarrow> 'a rose list \<Rightarrow> nat list option" where
  "path_to x [] = None"
| "path_to x (Rose i d cs # ts) =
     (if x = i then Some [i]
      else case path_to x cs of Some p \<Rightarrow> Some (i # p) | None \<Rightarrow> path_to x ts)"

section \<open>Representation\<close>

lemma rep_cong: "(\<And>i. i \<in> set (ixs f) \<Longrightarrow> N' i = N i) \<Longrightarrow> rep N' par prev nx f = rep N par prev nx f"
  by (induction N par prev nx f rule: rep.induct) simp_all

lemma rep_update [simp]: "k \<notin> set (ixs f) \<Longrightarrow> rep (N(k := v)) par prev nx f = rep N par prev nx f"
  by (rule rep_cong) auto

lemma rep_dom: "rep N par prev nx f \<Longrightarrow> i \<in> set (ixs f) \<Longrightarrow> i \<in> dom N"
  by (induction N par prev nx f rule: rep.induct) auto

lemma head_ix_append: "head_ix (xs @ ys) nx = head_ix xs (head_ix ys nx)"
  by (cases xs rule: preorder.cases) simp_all

fun last_ix :: "'a rose list \<Rightarrow> nat option \<Rightarrow> nat option" where
  "last_ix [] prev = prev"
| "last_ix (Rose i _ _ # ts) prev = last_ix ts (Some i)"

lemma rep_append:
  "rep N par prev nx (xs @ ys) \<longleftrightarrow>
     rep N par prev (head_ix ys nx) xs \<and> rep N par (last_ix xs prev) nx ys"
  by (induction xs arbitrary: prev rule: preorder.induct) (auto simp: head_ix_append)

lemma represents_new: "represents fork_tree_new []"
  by (simp add: represents_def fork_tree_new_def)

subsection \<open>Insertion\<close>

lemma set_forest_insert:
  "distinct (ixs f) \<Longrightarrow>
     set (ixs (forest_insert p (Rose k d []) f)) = (if p \<in> set (ixs f) then insert k (set (ixs f)) else set (ixs f))"
  by (induction p "Rose k d []" f rule: forest_insert.induct) auto

lemma forest_insert_notin: "p \<notin> set (ixs f) \<Longrightarrow> forest_insert p leaf f = f"
  by (induction p leaf f rule: forest_insert.induct) auto

lemma head_ix_forest_insert [simp]: "head_ix (forest_insert p leaf f) nx = head_ix f nx"
  by (cases f rule: preorder.cases) simp_all

lemma distinct_forest_insert:
  "distinct (ixs f) \<Longrightarrow> k \<notin> set (ixs f) \<Longrightarrow> distinct (ixs (forest_insert p (Rose k d []) f))"
proof (induction p "Rose k d []" f rule: forest_insert.induct)
  case (2 p i e cs ts)
  then show ?case
    using set_forest_insert [of cs p k d] set_forest_insert [of ts p k d] by (auto split: if_splits)
qed simp

text \<open>Prepending a leaf to a list of siblings.\<close>

lemma rep_prepend:
  assumes "rep N par None nx f" "k \<notin> set (ixs f)" "distinct (ixs f)"
    and "N' k = Some \<lparr>parent = par, first_child = None, next_sibling = head_ix f nx,
      previous_sibling = None, is_prune_target_ancestor = False, data = d\<rparr>"
    and "\<And>i. i \<in> set (ixs f) \<Longrightarrow> head_ix f None \<noteq> Some i \<Longrightarrow> N' i = N i"
    and "\<And>i. head_ix f None = Some i \<Longrightarrow> N' i = map_option (\<lambda>nd. nd\<lparr>previous_sibling := Some k\<rparr>) (N i)"
  shows "rep N' par None nx (Rose k d [] # f)"
proof (cases f rule: preorder.cases)
  case 1
  with assms(4) show ?thesis by simp
next
  case (2 i e cs ts)
  have "rep N' (Some i) None None cs = rep N (Some i) None None cs"
    using assms(3,5) 2 by (intro rep_cong) auto
  moreover have "rep N' par (Some i) nx ts = rep N par (Some i) nx ts"
    using assms(3,5) 2 by (intro rep_cong) auto
  ultimately show ?thesis using assms(1,4,6) 2 by auto
qed

lemma head_ix_in: "head_ix f None = Some s \<Longrightarrow> s \<in> set (ixs f)"
  by (cases f rule: preorder.cases) simp_all


lemma rep_first_child:
  "rep N par prev nx f \<Longrightarrow> p \<in> set (ixs f) \<Longrightarrow> N p = Some pn \<Longrightarrow> first_child pn = Some s \<Longrightarrow> s \<in> set (ixs f)"
proof (induction N par prev nx f rule: rep.induct)
  case (2 N par prev nx i d cs ts)
  then show ?case using head_ix_in [of cs s] by (cases "p = i") auto
qed simp

lemma rep_first_child_neq:
  "rep N par prev nx f \<Longrightarrow> distinct (ixs f) \<Longrightarrow> p \<in> set (ixs f) \<Longrightarrow> N p = Some pn \<Longrightarrow> first_child pn \<noteq> Some p"
proof (induction N par prev nx f rule: rep.induct)
  case (2 N par prev nx i d cs ts)
  then show ?case using head_ix_in [of cs p] by (cases "p = i") auto
qed simp

text \<open>A list of siblings none of whose nodes change keeps its links.\<close>

lemma rep_insert_skip:
  assumes "rep N par prev nx g" "p \<notin> set (ixs g)" "k \<notin> set (ixs g)"
    and "\<And>s. fc = Some s \<Longrightarrow> s \<notin> set (ixs g)"
    and other: "\<And>i. i \<noteq> k \<Longrightarrow> i \<noteq> p \<Longrightarrow> fc \<noteq> Some i \<Longrightarrow> N' i = N i"
  shows "rep N' par prev nx g"
proof -
  have "N' j = N j" if "j \<in> set (ixs g)" for j using that assms(2-4) by (intro other) auto
  then show ?thesis using rep_cong [of g N' N] assms(1) by blast
qed

lemma rep_insert_child:
  assumes "rep N par prev nx f" "distinct (ixs f)" "p \<in> set (ixs f)" "k \<notin> set (ixs f)"
    and p: "N p = Some pn" "N' p = Some (pn\<lparr>first_child := Some k\<rparr>)"
    and k: "N' k = Some \<lparr>parent = Some p, first_child = None, next_sibling = first_child pn,
      previous_sibling = None, is_prune_target_ancestor = False, data = d\<rparr>"
    and s: "\<And>s. first_child pn = Some s \<Longrightarrow> N' s = map_option (\<lambda>nd. nd\<lparr>previous_sibling := Some k\<rparr>) (N s)"
    and other: "\<And>i. i \<noteq> k \<Longrightarrow> i \<noteq> p \<Longrightarrow> first_child pn \<noteq> Some i \<Longrightarrow> N' i = N i"
  shows "rep N' par prev nx (forest_insert p (Rose k d []) f)"
  using assms(1-4)
proof (induction f arbitrary: par prev nx rule: preorder.induct)
  case (2 i e cs ts)
  note skip = rep_insert_skip [where fc = "first_child pn" and N = N and N' = N' and p = p and k = k]
  have rep: "N i = Some \<lparr>parent = par, first_child = head_ix cs None, next_sibling = head_ix ts nx,
      previous_sibling = prev, is_prune_target_ancestor = False, data = e\<rparr>"
      "rep N (Some i) None None cs" "rep N par (Some i) nx ts"
    and dist: "i \<notin> set (ixs cs)" "i \<notin> set (ixs ts)" "distinct (ixs cs)" "distinct (ixs ts)"
      "set (ixs cs) \<inter> set (ixs ts) = {}"
    and new: "k \<noteq> i" "k \<notin> set (ixs cs)" "k \<notin> set (ixs ts)"
    using 2(3,4,6) by simp_all
  show ?case
  proof (cases "i = p")
    case True
    have fc: "first_child pn = head_ix cs None" using rep(1) p(1) True by simp
    have sc: "s \<in> set (ixs cs)" if "first_child pn = Some s" for s
      using head_ix_in [of cs s] that fc by simp
    have "rep N' (Some p) None None (Rose k d [] # cs)"
    proof (rule rep_prepend)
      show "rep N (Some p) None None cs" using rep(2) True by simp
      show "N' j = N j" if "j \<in> set (ixs cs)" "head_ix cs None \<noteq> Some j" for j
        using that new(2) dist(1) True fc by (intro other) auto
    qed (use k fc s dist new in simp_all)
    moreover have "rep N' par (Some p) nx ts"
      by (rule skip) (use rep(3) dist new True sc other in auto)
    ultimately show ?thesis using rep(1) True p fc by simp
  next
    case False
    consider (below) "p \<in> set (ixs cs)" "p \<notin> set (ixs ts)" | (beside) "p \<notin> set (ixs cs)" "p \<in> set (ixs ts)"
      using 2(5) False dist(5) by auto
    then show ?thesis
    proof cases
      case below
      have sc: "s \<in> set (ixs cs)" if "first_child pn = Some s" for s
        by (rule rep_first_child [OF rep(2) below(1) p(1) that])
      have "N' i = N i" using new(1) False sc dist(1) by (intro other) auto
      moreover have "rep N' par (Some i) nx ts"
        by (rule skip) (use rep(3) below(2) new sc dist(5) other in auto)
      moreover have "rep N' (Some i) None None (forest_insert p (Rose k d []) cs)"
        by (rule 2(1) [OF rep(2) dist(3) below(1) new(2)])
      ultimately show ?thesis using rep(1) False forest_insert_notin [OF below(2)] by simp
    next
      case beside
      have sc: "s \<in> set (ixs ts)" if "first_child pn = Some s" for s
        by (rule rep_first_child [OF rep(3) beside(2) p(1) that])
      have "N' i = N i" using new(1) False sc dist(2) by (intro other) auto
      moreover have "rep N' (Some i) None None cs"
        by (rule skip) (use rep(2) beside(1) new sc dist(5) other in auto)
      moreover have "rep N' par (Some i) nx (forest_insert p (Rose k d []) ts)"
        by (rule 2(2) [OF rep(3) dist(4) beside(2) new(3)])
      ultimately show ?thesis using rep(1) False forest_insert_notin [OF beside(1)] by simp
    qed
  qed
qed simp

text \<open>Inserting refines the insertion of a leaf, at the front of the children of the parent.\<close>

lemma insert_root_represents:
  assumes "represents t f" "nodes t k = None"
  shows "\<exists>t'. fork_tree_insert k t None d = Some (t', k) \<and> represents t' (Rose k d [] # f)"
proof -
  have k: "k \<notin> set (ixs f)" using assms by (auto simp: represents_def)
  define N1 where "N1 = (nodes t)(k \<mapsto> \<lparr>parent = None, first_child = None, next_sibling = first_root t,
    previous_sibling = None, is_prune_target_ancestor = False, data = d\<rparr>)"
  define N2 where "N2 = (case first_root t of None \<Rightarrow> N1
    | Some r \<Rightarrow> N1(r := map_option (\<lambda>nd. nd\<lparr>previous_sibling := Some k\<rparr>) (nodes t r)))"
  have root: "r \<in> dom (nodes t) \<and> r \<noteq> k" if "first_root t = Some r" for r
    using that assms head_ix_in [of f r] by (auto simp: represents_def)
  have "fork_tree_insert k t None d = Some (t\<lparr>nodes := N2, first_root := Some k\<rparr>, k)"
    using root by (auto simp: fork_tree_insert_def N1_def N2_def slab_modify_def Let_def split: option.splits)
  moreover have "rep N2 None None None (Rose k d [] # f)"
    using assms k root
    by (intro rep_prepend [of "nodes t"]) (auto simp: represents_def N2_def N1_def split: option.splits)
  moreover have "dom N2 = insert k (dom (nodes t))"
    using root by (auto simp: N2_def N1_def split: option.splits if_splits)
  ultimately show ?thesis using assms k by (auto simp: represents_def)
qed

lemma insert_child_represents:
  assumes "represents t f" "nodes t k = None" "p \<in> set (ixs f)"
  shows "\<exists>t'. fork_tree_insert k t (Some p) d = Some (t', k) \<and> represents t' (forest_insert p (Rose k d []) f)"
proof -
  have R: "rep (nodes t) None None None f" "distinct (ixs f)" "dom (nodes t) = set (ixs f)"
    using assms(1) by (simp_all add: represents_def)
  have k: "k \<notin> set (ixs f)" and kp: "k \<noteq> p" using assms R(3) by auto
  obtain pn where pn: "nodes t p = Some pn" using assms(3) R(3) by blast
  define N1 where "N1 = (nodes t)(k \<mapsto> \<lparr>parent = Some p, first_child = None, next_sibling = first_child pn,
    previous_sibling = None, is_prune_target_ancestor = False, data = d\<rparr>, p \<mapsto> pn\<lparr>first_child := Some k\<rparr>)"
  define N2 where "N2 = (case first_child pn of None \<Rightarrow> N1
    | Some s \<Rightarrow> N1(s := map_option (\<lambda>nd. nd\<lparr>previous_sibling := Some k\<rparr>) (nodes t s)))"
  have child: "s \<in> dom (nodes t) \<and> s \<noteq> k \<and> s \<noteq> p" if "first_child pn = Some s" for s
    using rep_first_child [OF R(1) assms(3) pn that] rep_first_child_neq [OF R(1,2) assms(3) pn] that R(3) k
    by auto
  have "fork_tree_insert k t (Some p) d = Some (t\<lparr>nodes := N2\<rparr>, k)"
    using child kp pn by (auto simp: fork_tree_insert_def N1_def N2_def slab_modify_def Let_def split: option.splits)
  moreover have "rep N2 None None None (forest_insert p (Rose k d []) f)"
    by (rule rep_insert_child [OF R(1,2) assms(3) k pn])
      (use kp child in \<open>auto simp: N2_def N1_def split: option.splits\<close>)
  moreover have "dom N2 = insert k (dom (nodes t))"
    using child pn by (auto simp: N2_def N1_def split: option.splits if_splits)
  ultimately show ?thesis
    using assms k set_forest_insert [OF R(2), of p k d] distinct_forest_insert [OF R(2) k, of p d]
    by (auto simp: represents_def)
qed

end
