(* ===== verification/Fork_Tree_Paths.thy ===== *)
theory Fork_Tree_Paths
  imports Fork_Tree_Spec
begin

text \<open>
  Iterating over a fork tree and following it towards its roots: the iteration in ancestry order
  yields the forest in preorder, and the functions about ancestry work on the paths of the
  forest.
\<close>

section \<open>Iteration\<close>

lemma siblings_rep:
  "rep N par prev None f \<Longrightarrow> siblings N (head_ix f None) = Some (map (\<lambda>r. case r of Rose i _ _ \<Rightarrow> i) f)"
proof (induction f arbitrary: prev rule: preorder.induct)
  case 1
  show ?case by (simp add: siblings.simps)
next
  case (2 i d cs ts)
  from 2(3) 2(2) [of "Some i"]
  have "siblings N (head_ix ts None) = Some (map (\<lambda>r. case r of Rose i _ _ \<Rightarrow> i) ts)" by simp
  with 2(3) show ?case by (simp add: siblings.simps [of N "Some i"])
qed

text \<open>Where the iteration goes after the last of a list of siblings.\<close>

definition after_siblings :: "'a node slab \<Rightarrow> nat option \<Rightarrow> nat option \<Rightarrow> nat option option" where
  "after_siblings N par nx = (case nx of Some s \<Rightarrow> Some (Some s) | None \<Rightarrow> climb N par)"

lemma ancestry_order_rep:
  assumes "rep N par prev nx f" "f \<noteq> []" "after_siblings N par nx = Some c"
    and "ancestry_order_from N c = Some rest"
  shows "ancestry_order_from N (head_ix f None) = Some (preorder f @ rest)"
  using assms
proof (induction f arbitrary: par prev nx c rest rule: preorder.induct)
  case (2 i d cs ts)
  have rep: "N i = Some \<lparr>parent = par, first_child = head_ix cs None, next_sibling = head_ix ts nx,
      previous_sibling = prev, is_prune_target_ancestor = False, data = d\<rparr>"
      "rep N (Some i) None None cs" "rep N par (Some i) nx ts"
    using 2(3) by simp_all
  obtain c' where c': "after_siblings N par (head_ix ts nx) = Some c'"
    and rest: "ancestry_order_from N c' = Some (preorder ts @ rest)"
  proof (cases "ts = []")
    case True
    with 2(5,6) that show thesis by simp
  next
    case False
    then obtain s where s: "head_ix ts nx = Some s" "head_ix ts None = Some s"
      by (cases ts rule: preorder.cases) simp_all
    with 2(2) [OF rep(3) False 2(5,6)] that [of "Some s"] show thesis by (simp add: after_siblings_def)
  qed
  have up: "after_siblings N (Some i) None = Some c'"
    using c' rep(1) by (auto simp: after_siblings_def climb.simps [of N "Some i"] split: option.splits)
  have "ancestry_order_from N (Some i) = Some ((i, d) # preorder cs @ preorder ts @ rest)"
  proof (cases "cs = []")
    case True
    have "ancestry_order_next N i = Some c'"
      using rep(1) c' True by (auto simp: ancestry_order_next_def after_siblings_def split: option.splits)
    with rest rep(1) True show ?thesis by (simp add: ancestry_order_from.simps [of N "Some i"])
  next
    case False
    from 2(1) [OF rep(2) False up rest]
    have "ancestry_order_from N (head_ix cs None) = Some (preorder cs @ preorder ts @ rest)" .
    moreover have "ancestry_order_next N i = Some (head_ix cs None)"
      using rep(1) False by (cases cs rule: preorder.cases) (simp_all add: ancestry_order_next_def)
    ultimately show ?thesis using rep(1) by (simp add: ancestry_order_from.simps [of N "Some i"])
  qed
  then show ?case by simp
qed simp

lemma iter_ancestry_order_represents:
  assumes "represents t f"
  shows "iter_ancestry_order t = Some (preorder f)"
proof (cases "f = []")
  case True
  with assms show ?thesis
    by (simp add: iter_ancestry_order_def represents_def ancestry_order_from.simps)
next
  case False
  have "after_siblings (nodes t) None None = Some None"
    by (simp add: after_siblings_def climb.simps)
  moreover have "ancestry_order_from (nodes t) None = Some []"
    by (simp add: ancestry_order_from.simps)
  ultimately show ?thesis
    using ancestry_order_rep [of "nodes t" None None None f None "[]"] assms False
    by (simp add: represents_def iter_ancestry_order_def)
qed

section \<open>Paths\<close>

lemma path_to_None [simp]: "path_to x f = None \<longleftrightarrow> x \<notin> set (ixs f)"
  by (induction x f rule: path_to.induct) (auto split: option.splits)

lemma path_to_in: "path_to x f = Some p \<Longrightarrow> set p \<subseteq> set (ixs f) \<and> p \<noteq> [] \<and> last p = x"
  by (induction x f arbitrary: p rule: path_to.induct) (fastforce split: if_splits option.splits)+

lemma path_to_distinct: "path_to x f = Some p \<Longrightarrow> distinct (ixs f) \<Longrightarrow> distinct p"
proof (induction x f arbitrary: p rule: path_to.induct)
  case (2 x i d cs ts)
  then show ?case using path_to_in [of x cs] by (fastforce split: if_splits option.splits)
qed simp

text \<open>The path to a node on a path is the beginning of that path.\<close>

lemma path_to_prefix:
  "path_to x f = Some p \<Longrightarrow> distinct (ixs f) \<Longrightarrow> p = q @ v # r \<Longrightarrow> path_to v f = Some (q @ [v])"
proof (induction x f arbitrary: p q rule: path_to.induct)
  case (2 x i d cs ts)
  show ?case
  proof (cases "x = i")
    case True
    with 2(3,5) show ?thesis by (auto simp: Cons_eq_append_conv)
  next
    case False
    show ?thesis
    proof (cases "path_to x cs")
      case None
      with 2(3) False have p: "path_to x ts = Some p" by simp
      have v: "v \<in> set (ixs ts)" using path_to_in [OF p] 2(5) by auto
      with 2(4) have "v \<noteq> i" "v \<notin> set (ixs cs)" by auto
      moreover from this have "path_to v cs = None" by simp
      ultimately show ?thesis using 2(2) [OF False None p _ 2(5)] 2(4) by (simp del: path_to_None)
    next
      case (Some p')
      with 2(3) False have p: "p = i # p'" by simp
      show ?thesis
      proof (cases q)
        case Nil
        with p 2(5) show ?thesis by simp
      next
        case (Cons j q')
        with p 2(5) have p': "p' = q' @ v # r" "j = i" by simp_all
        have "v \<in> set (ixs cs)" using path_to_in [OF Some] p' by auto
        with 2(4) have "v \<noteq> i" by auto
        with 2(1) [OF False Some _ p'(1)] 2(4) p' Cons show ?thesis by simp
      qed
    qed
  qed
qed simp

lemma path_to_prefix_nth:
  assumes "path_to x f = Some p" "distinct (ixs f)" "j < length p"
  shows "path_to (p ! j) f = Some (take (Suc j) p)"
  using path_to_prefix [OF assms(1,2) id_take_nth_drop [OF assms(3)]] assms(3)
  by (simp add: take_Suc_conv_app_nth)

subsection \<open>Towards the root\<close>

lemma node_to_root_path_rep:
  assumes "rep N par prev nx f" "path_to x f = Some p"
  shows "node_to_root_path N x =
    (case par of None \<Rightarrow> Some (rev p) | Some q \<Rightarrow> map_option (\<lambda>r. rev p @ r) (node_to_root_path N q))"
  using assms
proof (induction x f arbitrary: par prev nx p rule: path_to.induct)
  case (2 x i d cs ts)
  have rep: "N i = Some \<lparr>parent = par, first_child = head_ix cs None, next_sibling = head_ix ts nx,
      previous_sibling = prev, is_prune_target_ancestor = False, data = d\<rparr>"
      "rep N (Some i) None None cs" "rep N par (Some i) nx ts"
    using 2(3) by simp_all
  have i: "node_to_root_path N i =
      (case par of None \<Rightarrow> Some [i] | Some q \<Rightarrow> map_option (\<lambda>r. i # r) (node_to_root_path N q))"
    using rep(1) by (subst node_to_root_path.simps) (auto simp: map_conv_bind_option comp_def split: option.splits)
  show ?case
  proof (cases "x = i")
    case True
    with 2(4) i show ?thesis by (auto split: option.splits intro: option.map_cong0)
  next
    case False
    show ?thesis
    proof (cases "path_to x cs")
      case None
      with 2(4) False have "path_to x ts = Some p" by simp
      from 2(2) [OF False None rep(3) this] show ?thesis .
    next
      case (Some p')
      with 2(4) False have p: "p = i # p'" by simp
      from 2(1) [OF False rep(2) Some]
      have "node_to_root_path N x = map_option (\<lambda>r. rev p' @ r) (node_to_root_path N i)" by simp
      then show ?thesis unfolding i p
        by (cases par) (auto simp: option.map_comp comp_def intro: option.map_cong0)
    qed
  qed
qed simp

lemma node_to_root_path_represents:
  "represents t f \<Longrightarrow> path_to x f = Some p \<Longrightarrow> node_to_root_path (nodes t) x = Some (rev p)"
  using node_to_root_path_rep [of "nodes t" None None None f x p] by (simp add: represents_def)

lemma represents_path:
  assumes "represents t f" "x \<in> dom (nodes t)"
  obtains p where "path_to x f = Some p" "node_to_root_path (nodes t) x = Some (rev p)"
    "distinct p" "p \<noteq> []" "last p = x" "set p \<subseteq> dom (nodes t)"
proof -
  have "x \<in> set (ixs f)" and d: "distinct (ixs f)" and dom: "dom (nodes t) = set (ixs f)"
    using assms by (auto simp: represents_def)
  then have "path_to x f \<noteq> None" by simp
  then obtain p where p: "path_to x f = Some p" by blast
  from that [OF p node_to_root_path_represents [OF assms(1) p] path_to_distinct [OF p d]]
    path_to_in [OF p] dom show thesis by auto
qed

subsection \<open>From the root\<close>

lemma takeWhile_before: "distinct (xs @ c # ys) \<Longrightarrow> takeWhile (\<lambda>n. n \<noteq> c) (xs @ c # ys) = xs"
  by (induction xs) auto

lemma root_to_node_from_mid:
  "distinct (xs @ c # ys) \<Longrightarrow> root_to_node_from (xs @ c # ys) c = Some (rev xs)"
proof (induction xs arbitrary: c ys rule: rev_induct)
  case Nil
  then show ?case by (subst root_to_node_from.simps) simp
next
  case (snoc x xs)
  have "root_to_node_from (xs @ x # c # ys) x = Some (rev xs)"
    using snoc(1) [of x "c # ys"] snoc(2) by simp
  then show ?case
    using takeWhile_before [of "xs @ [x]" c ys] snoc(2) by (subst root_to_node_from.simps) (simp add: Let_def)
qed

lemma root_to_node_from_all:
  assumes "distinct path" "M \<notin> set path"
  shows "root_to_node_from path M = Some (rev path)"
proof (cases path rule: rev_cases)
  case Nil
  then show ?thesis by (subst root_to_node_from.simps) simp
next
  case (snoc xs x)
  have "takeWhile (\<lambda>n. n \<noteq> M) path = path" using assms(2) by (auto simp: takeWhile_eq_all_conv)
  moreover have "root_to_node_from path x = Some (rev xs)"
    using root_to_node_from_mid [of xs x "[]"] assms(1) snoc by simp
  ultimately show ?thesis using snoc by (subst root_to_node_from.simps) (simp add: Let_def)
qed

lemma root_to_node_path_represents:
  assumes "represents t f" "path_to x f = Some p" "M \<notin> dom (nodes t)"
  shows "root_to_node_path M (nodes t) x = Some p"
proof -
  have "distinct p" "set p \<subseteq> dom (nodes t)"
    using path_to_distinct [OF assms(2)] path_to_in [OF assms(2)] assms(1) by (auto simp: represents_def)
  with assms node_to_root_path_represents [OF assms(1,2)] show ?thesis
    by (simp add: root_to_node_path_def) (metis root_to_node_from_all assms(3) distinct_rev rev_rev_ident set_rev subsetD)
qed

section \<open>Ancestry\<close>

lemma node_to_root_path_SomeD:
  assumes "node_to_root_path N x = Some r"
  obtains nd r' where "N x = Some nd" "r = x # r'"
    "case parent nd of None \<Rightarrow> r' = [] | Some p \<Rightarrow> node_to_root_path N p = Some r'"
proof -
  from assms [unfolded node_to_root_path.simps [of N x]] obtain nd where nd: "N x = Some nd"
    "(case parent nd of None \<Rightarrow> Some [x]
      | Some p \<Rightarrow> Option.bind (node_to_root_path N p) (\<lambda>path. Some (x # path))) = Some r"
    by (auto simp: bind_eq_Some_conv)
  then show thesis
    by (cases "parent nd") (auto simp: bind_eq_Some_conv intro!: that [OF nd(1)])
qed

lemma is_ancestor_loop_rep:
  assumes "node_to_root_path N x = Some r"
  shows "is_ancestor_loop N a x = Some (a \<in> set r)"
  using assms
proof (induction r arbitrary: x)
  case Nil
  then show ?case by (elim node_to_root_path_SomeD) simp
next
  case (Cons y r)
  obtain nd where nd: "N x = Some nd" "y = x"
    and r: "case parent nd of None \<Rightarrow> r = [] | Some p \<Rightarrow> node_to_root_path N p = Some r"
    by (rule node_to_root_path_SomeD [OF Cons.prems]) auto
  show ?case
  proof (cases "parent nd")
    case None
    with nd r show ?thesis by (subst is_ancestor_loop.simps) simp
  next
    case (Some p)
    with r have "is_ancestor_loop N a p = Some (a \<in> set r)" using Cons.IH by simp
    with nd Some show ?thesis by (subst is_ancestor_loop.simps) simp
  qed
qed

lemma is_ancestor_represents:
  assumes "represents t f" "path_to x f = Some p"
  shows "is_ancestor (nodes t) a x = Some (a \<in> set p)"
proof -
  have "x \<in> set (ixs f)" using path_to_in [OF assms(2)] by auto
  then have "nodes t x \<noteq> None" using assms(1) by (auto simp: represents_def)
  with is_ancestor_loop_rep [OF node_to_root_path_represents [OF assms]] show ?thesis
    by (simp add: is_ancestor_def)
qed

text \<open>
  The loop of \<^verbatim>\<open>common_ancestor\<close> looks for the last place where two lists of the same length
  agree. On two paths, it finds the end of their longest common prefix.
\<close>

lemma lcp_self [simp]: "longest_common_prefix xs xs = xs"
  by (induction xs) simp_all

lemma lcp_snoc:
  "length xs = length ys \<Longrightarrow> x \<noteq> y \<Longrightarrow>
     longest_common_prefix (xs @ [x]) (ys @ [y]) = longest_common_prefix xs ys"
  by (induction xs ys rule: list_induct2) simp_all

lemma common_ancestor_loop_rev:
  assumes "length xs = length ys"
    and "\<And>j. j < length xs \<Longrightarrow> xs ! j = ys ! j \<Longrightarrow> take j xs = take j ys"
  shows "common_ancestor_loop (rev xs) (rev ys) =
    Some (let l = longest_common_prefix xs ys in if l = [] then None else Some (last l))"
  using assms
proof (induction xs ys rule: rev_induct2)
  case (4 x xs y ys)
  have len: "length xs = length ys" using 4(2) by simp
  show ?case
  proof (cases "x = y")
    case True
    with 4(3) [of "length xs"] len have "xs = ys" by (simp add: nth_append)
    with True show ?thesis by simp
  next
    case False
    have "take j xs = take j ys" if "j < length xs" "xs ! j = ys ! j" for j
      using len 4(3) [of j] that by (simp add: nth_append)
    from 4(1) [OF len this] False lcp_snoc [OF len False] show ?thesis by simp
  qed
qed simp_all

lemma lcp_take: "longest_common_prefix (take m xs) (take m ys) = take m (longest_common_prefix xs ys)"
  by (induction xs ys arbitrary: m rule: longest_common_prefix.induct) (auto simp: take_Cons split: nat.splits)

lemma lcp_length: "length (longest_common_prefix xs ys) \<le> min (length xs) (length ys)"
  by (induction xs ys rule: longest_common_prefix.induct) auto

lemma lcp_splits: "\<exists>r1 r2. xs = longest_common_prefix xs ys @ r1 \<and> ys = longest_common_prefix xs ys @ r2"
  using longest_common_prefix_prefix1 [of xs ys] longest_common_prefix_prefix2 [of xs ys]
  by (auto elim!: prefixE)

lemma paths_agree:
  assumes "distinct (ixs f)" "path_to a f = Some p" "path_to b f = Some q" "j < length p" "j < length q" "p ! j = q ! j"
  shows "take (Suc j) p = take (Suc j) q"
  using path_to_prefix_nth [OF assms(2,1,4)] path_to_prefix_nth [OF assms(3,1,5)] assms(6) by simp

lemma common_ancestor_represents:
  assumes "represents t f" "path_to a f = Some p" "path_to b f = Some q"
  shows "common_ancestor (nodes t) a b =
    Some (let l = longest_common_prefix p q in if l = [] then None else Some (last l))"
proof -
  have d: "distinct (ixs f)" using assms(1) by (simp add: represents_def)
  let ?m = "min (length p) (length q)"
  have drop: "drop (length p - length q) (rev p) = rev (take ?m p)"
      "drop (length q - length p) (rev q) = rev (take ?m q)"
    by (auto simp: drop_rev min_def intro: arg_cong [where f = "\<lambda>n. take n _"])
  have lcp: "longest_common_prefix (take ?m p) (take ?m q) = longest_common_prefix p q"
    using lcp_length [of p q] by (simp add: lcp_take)
  have "common_ancestor (nodes t) a b = common_ancestor_loop (rev (take ?m p)) (rev (take ?m q))"
    using node_to_root_path_represents [OF assms(1,2)] node_to_root_path_represents [OF assms(1,3)] drop
    by (simp add: common_ancestor_def Let_def)
  also have "\<dots> = Some (let l = longest_common_prefix p q in if l = [] then None else Some (last l))"
    unfolding lcp [symmetric]
  proof (rule common_ancestor_loop_rev)
    fix j assume j: "j < length (take ?m p)" "take ?m p ! j = take ?m q ! j"
    then have "take (Suc j) p = take (Suc j) q" by (intro paths_agree [OF d assms(2,3)]) simp_all
    then have "take j (take (Suc j) p) = take j (take (Suc j) q)" by simp
    with j show "take j (take ?m p) = take j (take ?m q)" by (simp add: min_def split: if_splits)
  qed simp
  finally show ?thesis .
qed

text \<open>The nodes that two paths share are those of their longest common prefix, itself a path.\<close>

lemma lcp_common:
  assumes "distinct (ixs f)" "path_to a f = Some p" "path_to b f = Some q"
  shows "set p \<inter> set q = set (longest_common_prefix p q)"
    and "longest_common_prefix p q \<noteq> [] \<Longrightarrow>
      path_to (last (longest_common_prefix p q)) f = Some (longest_common_prefix p q)"
proof -
  let ?l = "longest_common_prefix p q"
  obtain r1 r2 where r: "p = ?l @ r1" "q = ?l @ r2" using lcp_splits [of p q] by blast
  have "v \<in> set ?l" if "v \<in> set p" "v \<in> set q" for v
  proof -
    obtain x y where x: "p = x @ v # y" using \<open>v \<in> set p\<close> by (meson split_list)
    obtain x' y' where x': "q = x' @ v # y'" using \<open>v \<in> set q\<close> by (meson split_list)
    from path_to_prefix [OF assms(2,1) x] path_to_prefix [OF assms(3,1) x'] have "x' = x" by simp
    with x x' have "prefix (x @ [v]) p" "prefix (x @ [v]) q" by auto
    then have "prefix (x @ [v]) ?l" by (rule longest_common_prefix_max_prefix)
    then show ?thesis by (auto elim: prefixE)
  qed
  moreover have "set ?l \<subseteq> set p" "set ?l \<subseteq> set q" by (metis r(1) set_append Un_upper1, metis r(2) set_append Un_upper1)
  ultimately show "set p \<inter> set q = set ?l" by blast
  assume "?l \<noteq> []"
  then have "p = butlast ?l @ last ?l # r1" using r(1) by (metis append.assoc append_Cons append_Nil append_butlast_last_id)
  from path_to_prefix [OF assms(2,1) this] \<open>?l \<noteq> []\<close> show "path_to (last ?l) f = Some ?l" by simp
qed

lemma ascend_and_descend_represents:
  assumes "represents t f" "path_to a f = Some p" "path_to b f = Some q" "M \<notin> dom (nodes t)"
    and p: "p = longest_common_prefix p q @ r1" and q: "q = longest_common_prefix p q @ r2"
  shows "ascend_and_descend M (nodes t) a b = Some (rev r1, r2)"
proof -
  have d: "distinct (ixs f)" using assms(1) by (simp add: represents_def)
  have dp: "distinct p" and dq: "distinct q" using path_to_distinct [OF _ d] assms(2,3) by blast+
  define l where "l = longest_common_prefix p q"
  have pq: "p = l @ r1" "q = l @ r2" using p q by (simp_all add: l_def)
  have ca: "common_ancestor (nodes t) a b = Some (if l = [] then None else Some (last l))"
    using common_ancestor_represents [OF assms(1-3)] by (simp add: l_def Let_def)
  have eq: "ascend_and_descend M (nodes t) a b =
     (let ca = (if l = [] then None else Some (last l)) in
      Some (takeWhile (\<lambda>v. Some v \<noteq> ca) (rev p),
        case ca of Some c \<Rightarrow> drop 1 (dropWhile (\<lambda>v. v \<noteq> c) q) | None \<Rightarrow> q))"
    using ca node_to_root_path_represents [OF assms(1,2)] root_to_node_path_represents [OF assms(1,3,4)]
    by (simp add: ascend_and_descend_def Let_def)
  show ?thesis
  proof (cases l rule: rev_cases)
    case Nil
    with eq pq show ?thesis by (simp add: takeWhile_eq_all_conv)
  next
    case (snoc l' c)
    have "takeWhile (\<lambda>v. v \<noteq> c) (rev r1 @ c # rev l') = rev r1"
      using dp pq(1) snoc by (intro takeWhile_before) auto
    moreover have "dropWhile (\<lambda>v. v \<noteq> c) (l' @ c # r2) = c # r2"
      using dq pq(2) snoc by (subst dropWhile_append3) auto
    ultimately show ?thesis using eq pq snoc by simp
  qed
qed

end
