(* ===== verification/Fork_Tree_Prune.thy ===== *)
theory Fork_Tree_Prune
  imports Fork_Tree_Paths
begin

text \<open>
  Pruning. \<^verbatim>\<open>PruneAncestorsIter\<close> walks the whole tree with a cursor and a flag, removing and
  relinking nodes as it passes. The walk is described as a relation between the states of the
  iterator that collects the nodes it yields; the lemmas follow the walk over a list of siblings,
  in both modes, and end with what \<^verbatim>\<open>prune_ancestors\<close> and \<^verbatim>\<open>prune_uncles\<close> do to the forest.
\<close>

section \<open>The walk as a relation\<close>

inductive prune_steps :: "'a prune_iter \<Rightarrow> 'a pruned_node list \<Rightarrow> 'a prune_iter \<Rightarrow> bool" where
  stop: "prune_steps st [] st"
| silent: "\<not> finished st \<Longrightarrow> prune_body st = Some (None, st1) \<Longrightarrow> prune_steps st1 out st2 \<Longrightarrow>
    prune_steps st out st2"
| yield: "\<not> finished st \<Longrightarrow> prune_body st = Some (Some pn, st1) \<Longrightarrow> prune_steps st1 out st2 \<Longrightarrow>
    prune_steps st (pn # out) st2"

lemma prune_steps_trans: "prune_steps st out st1 \<Longrightarrow> prune_steps st1 out' st2 \<Longrightarrow> prune_steps st (out @ out') st2"
  by (induction rule: prune_steps.induct) (auto intro: prune_steps.intros)

lemma prune_drain_steps: "prune_steps st out st' \<Longrightarrow> finished st' \<Longrightarrow> prune_drain st = Some (out, st')"
proof (induction rule: prune_steps.induct)
  case (stop st)
  then show ?case by (simp add: prune_drain.simps [of st] prune_next.simps [of st])
next
  case (silent st st1 out st2)
  then have "prune_next st = prune_next st1" by (simp add: prune_next.simps [of st])
  then have "prune_drain st = prune_drain st1" by (simp add: prune_drain.simps [of st] prune_drain.simps [of st1])
  with silent show ?case by simp
next
  case (yield st pn st1 out st2)
  then have "prune_next st = Some (Some pn, st1)" by (simp add: prune_next.simps [of st])
  with yield show ?case by (simp add: prune_drain.simps [of st])
qed

text \<open>
  Where the cursor is after it is done with a list of siblings (or before it starts one): at the
  sibling that follows, else back at the parent, else at the end of the walk. \<open>leaving\<close>: at a
  node whose children need no visit, or no further one.
\<close>

definition arrived ::
    "'a node slab \<Rightarrow> nat option \<Rightarrow> nat \<Rightarrow> bool \<Rightarrow> nat option \<Rightarrow> nat option \<Rightarrow> 'a prune_iter \<Rightarrow> bool" where
  "arrived N R F u nx par st \<longleftrightarrow>
     tree st = \<lparr>nodes = N, first_root = R\<rparr> \<and> new_final st = F \<and> uncles_only st = u \<and>
     (case nx of
        Some s \<Rightarrow> \<not> finished st \<and> cur st = s \<and> \<not> traversing_up st
      | None \<Rightarrow>
          (case par of
             Some p \<Rightarrow> \<not> finished st \<and> cur st = p \<and> traversing_up st
           | None \<Rightarrow> finished st))"

definition leaving :: "'a node slab \<Rightarrow> nat option \<Rightarrow> nat \<Rightarrow> bool \<Rightarrow> nat \<Rightarrow> 'a prune_iter \<Rightarrow> bool" where
  "leaving N R F u i st \<longleftrightarrow>
     tree st = \<lparr>nodes = N, first_root = R\<rparr> \<and> new_final st = F \<and> uncles_only st = u \<and>
     \<not> finished st \<and> cur st = i \<and>
     (traversing_up st \<or> (\<exists>nd. N i = Some nd \<and> first_child nd = None))"

abbreviation removed :: "nat \<Rightarrow> bool \<Rightarrow> 'a \<Rightarrow> 'a pruned_node" where
  "removed i b d \<equiv> \<lparr>pruned_index = i, pruned_is_target_ancestor = b, user_data = d\<rparr>"

lemma visit_children:
  assumes at: "arrived N R F u (Some i) par st" and nd: "N i = Some nd" "parent nd \<noteq> Some F"
    and fc: "first_child nd = head_ix cs None"
    and none: "cs = [] \<Longrightarrow> out = [] \<and> Q N"
    and below: "\<And>st. arrived N R F u (head_ix cs None) (Some i) st \<Longrightarrow>
      \<exists>N' st'. prune_steps st out st' \<and> arrived N' R F u None (Some i) st' \<and> Q N'"
  shows "\<exists>N' st'. prune_steps st out st' \<and> leaving N' R F u i st' \<and> Q N'"
proof (cases cs rule: preorder.cases)
  case 1
  with at nd fc have "leaving N R F u i st" by (auto simp: arrived_def leaving_def)
  with none 1 show ?thesis using stop by fastforce
next
  case (2 c e ds ts)
  define st1 where "st1 = st\<lparr>cur := c\<rparr>"
  have "prune_body st = Some (None, st1)" "\<not> finished st"
    using at nd fc 2 by (auto simp: arrived_def prune_body_def st1_def)
  moreover have "arrived N R F u (head_ix cs None) (Some i) st1"
    using at 2 by (simp add: arrived_def st1_def)
  then obtain N' st' where "prune_steps st1 out st'" "arrived N' R F u None (Some i) st'" "Q N'"
    using below by blast
  moreover from this(2) have "leaving N' R F u i st'" by (auto simp: arrived_def leaving_def)
  ultimately show ?thesis using silent by blast
qed

lemma leave_remove:
  assumes "leaving N R F u i st" "N i = Some nd" "parent nd \<noteq> Some F" "\<not> (u \<and> is_prune_target_ancestor nd)"
  shows "\<exists>st'. prune_steps st [removed i (is_prune_target_ancestor nd) (data nd)] st' \<and>
    arrived (N(i := None)) R F u (next_sibling nd) (parent nd) st'"
proof -
  define st1 where "st1 = prune_advance st nd"
  define st2 where "st2 = st1\<lparr>tree := (tree st1)\<lparr>nodes := (nodes (tree st1))(i := None)\<rparr>\<rparr>"
  have un: "uncles_only st1 = uncles_only st" by (simp add: st1_def prune_advance_def split: option.splits)
  have fc: "(if traversing_up st then None else first_child nd) = None"
    using assms(1,2) by (auto simp: leaving_def)
  have "prune_body st = Some (Some (removed i (is_prune_target_ancestor nd) (data nd)), st2)"
    using assms fc un by (auto simp: prune_body_def leaving_def Let_def st2_def st1_def)
  moreover have "arrived (N(i := None)) R F u (next_sibling nd) (parent nd) st2"
    using assms(1) by (auto simp: arrived_def leaving_def st2_def st1_def prune_advance_def split: option.splits)
  moreover have "\<not> finished st" using assms(1) by (simp add: leaving_def)
  ultimately show ?thesis using yield stop by blast
qed

definition keep_node :: "nat \<Rightarrow> 'a node \<Rightarrow> 'a node slab \<Rightarrow> 'a node slab" where
  "keep_node i nd N =
     (let N1 = N(i \<mapsto> nd\<lparr>is_prune_target_ancestor := False, next_sibling := None, previous_sibling := None\<rparr>)
      in if previous_sibling nd = None then N1
         else case parent nd of
           None \<Rightarrow> N1
         | Some p \<Rightarrow> N1(p := map_option (\<lambda>pn. pn\<lparr>first_child := Some i\<rparr>) (N p)))"

lemma leave_keep:
  assumes "leaving N R F True i st" "N i = Some nd" "parent nd \<noteq> Some F" "is_prune_target_ancestor nd"
    and par: "\<And>p. parent nd = Some p \<Longrightarrow> p \<noteq> i \<and> p \<in> dom N"
  shows "\<exists>st'. prune_steps st [] st' \<and>
    arrived (keep_node i nd N) R F True (next_sibling nd) (parent nd) st'"
proof -
  define st1 where "st1 = prune_advance st nd"
  define st2 where "st2 = st1\<lparr>tree := \<lparr>nodes = keep_node i nd N, first_root = R\<rparr>\<rparr>"
  have un: "uncles_only st1" "tree st1 = \<lparr>nodes = N, first_root = R\<rparr>"
    using assms(1) by (simp_all add: st1_def prune_advance_def leaving_def split: option.splits)
  have fc: "(if traversing_up st then None else first_child nd) = None"
    using assms(1,2) by (auto simp: leaving_def)
  have "prune_keep i nd st1 = Some st2"
    using par un by (cases "previous_sibling nd"; cases "parent nd")
      (auto simp: prune_keep_def keep_node_def set_node_def st2_def Let_def)
  then have "prune_body st = Some (None, st2)"
    using assms fc un by (auto simp: prune_body_def leaving_def Let_def st1_def)
  moreover have "arrived (keep_node i nd N) R F True (next_sibling nd) (parent nd) st2"
    using assms(1) by (auto simp: arrived_def leaving_def st2_def st1_def prune_advance_def split: option.splits)
  moreover have "\<not> finished st" using assms(1) by (simp add: leaving_def)
  ultimately show ?thesis using silent stop by blast
qed

section \<open>The children of the target\<close>

text \<open>They are passed over, with their subtrees; unless only uncles are pruned, they become roots.\<close>

lemma walk_target_children:
  assumes "rep N (Some F) prev None cs" "distinct (ixs cs)" "F \<notin> set (ixs cs)"
    and "arrived N R F u (head_ix cs None) (Some F) st"
  shows "\<exists>N' st'. prune_steps st [] st' \<and> arrived N' R F u None (Some F) st' \<and>
    rep N' (if u then Some F else None) prev None cs \<and> (\<forall>j. j \<notin> set (ixs cs) \<longrightarrow> N' j = N j)"
  using assms
proof (induction cs arbitrary: N prev st rule: preorder.induct)
  case 1
  then show ?case using stop by fastforce
next
  case (2 i d ds ts)
  define nd where "nd = \<lparr>parent = Some F, first_child = head_ix ds None, next_sibling = head_ix ts None,
    previous_sibling = prev, is_prune_target_ancestor = False, data = d\<rparr>"
  define nd' where "nd' = nd\<lparr>parent := (if u then Some F else None)\<rparr>"
  have rep: "N i = Some nd" "rep N (Some i) None None ds" "rep N (Some F) (Some i) None ts"
    using 2(3) by (simp_all add: nd_def)
  have dist: "i \<notin> set (ixs ds)" "i \<notin> set (ixs ts)" "distinct (ixs ds)" "distinct (ixs ts)"
      "set (ixs ds) \<inter> set (ixs ts) = {}" "F \<notin> set (ixs ts)"
    using 2(4,5) by simp_all
  have body: "prune_body st = Some (None, prune_child_of_final st nd)" "\<not> finished st"
    using 2(6) rep(1) by (simp_all add: arrived_def prune_body_def nd_def)
  have "arrived (N(i \<mapsto> nd')) R F u (head_ix ts None) (Some F) (prune_child_of_final st nd)"
    using 2(6) by (auto simp: arrived_def prune_child_of_final_def nd'_def set_node_def Let_def nd_def split: option.splits)
  moreover have "rep (N(i \<mapsto> nd')) (Some F) (Some i) None ts" using rep dist by simp
  ultimately obtain N' st' where N': "prune_steps (prune_child_of_final st nd) [] st'"
      "arrived N' R F u None (Some F) st'" "rep N' (if u then Some F else None) (Some i) None ts"
      "\<And>j. j \<notin> set (ixs ts) \<Longrightarrow> N' j = (N(i \<mapsto> nd')) j"
    using 2(2) [OF _ dist(4,6)] by metis
  have "rep N' (Some i) None None ds"
    using N'(4) rep(2) dist rep_cong [of ds N' N] by (metis disjoint_iff fun_upd_other)
  moreover have "N' i = Some nd'" using N'(4) dist by simp
  moreover have "prune_steps st [] st'" using body N'(1) silent by blast
  ultimately show ?case using N' by (intro exI [of _ N'] exI [of _ st']) (auto simp: nd'_def nd_def)
qed

section \<open>Marked trees\<close>

text \<open>The links when the path to the node \<open>F\<close> is marked, and the nodes of that path.\<close>

fun mrep :: "nat \<Rightarrow> 'a node slab \<Rightarrow> nat option \<Rightarrow> nat option \<Rightarrow> nat option \<Rightarrow> 'a rose list \<Rightarrow> bool" where
  "mrep F N par prev nx [] \<longleftrightarrow> True"
| "mrep F N par prev nx (Rose i d cs # ts) \<longleftrightarrow>
     N i = Some \<lparr>parent = par, first_child = head_ix cs None, next_sibling = head_ix ts nx,
                 previous_sibling = prev, is_prune_target_ancestor = (i = F \<or> F \<in> set (ixs cs)), data = d\<rparr> \<and>
     mrep F N (Some i) None None cs \<and> mrep F N par (Some i) nx ts"

definition marked :: "nat \<Rightarrow> 'a rose list \<Rightarrow> nat set" where
  "marked F f = (case path_to F f of None \<Rightarrow> {} | Some p \<Rightarrow> set p)"

lemma path_to_mem: "path_to x f = Some p \<Longrightarrow> x \<in> set (ixs f)"
  using path_to_None [of x f] by fastforce

lemma marked_simps [simp]:
  "marked F [] = {}"
  "F \<notin> set (ixs f) \<Longrightarrow> marked F f = {}"
  by (auto simp: marked_def dest: path_to_mem split: option.splits)

lemma marked_Cons:
  assumes "distinct (ixs (Rose i d cs # ts))"
  shows "marked F (Rose i d cs # ts) =
    (if F = i then {i} else if F \<in> set (ixs cs) then insert i (marked F cs) else marked F ts)"
  using path_to_mem [of F cs] path_to_mem [of F ts] by (auto simp: marked_def split: option.splits)

lemma marked_subset: "marked F f \<subseteq> set (ixs f)"
  by (auto simp: marked_def dest: path_to_in split: option.splits)

lemma mrep_cong: "(\<And>i. i \<in> set (ixs f) \<Longrightarrow> N' i = N i) \<Longrightarrow> mrep F N' par prev nx f = mrep F N par prev nx f"
  by (induction F N par prev nx f rule: mrep.induct) simp_all

lemma mrep_frame:
  assumes "mrep F N par prev nx f" "set (ixs f) \<inter> A = {}" "\<And>j. j \<notin> A \<Longrightarrow> N' j = N j"
  shows "mrep F N' par prev nx f"
  using assms mrep_cong [of f N' N] by blast

lemma rep_frame:
  assumes "rep N par prev nx f" "set (ixs f) \<inter> A = {}" "\<And>j. j \<notin> A \<Longrightarrow> N' j = N j"
  shows "rep N' par prev nx f"
  using assms rep_cong [of f N' N] by blast

lemma mrep_unmarked: "F \<notin> set (ixs f) \<Longrightarrow> mrep F N par prev nx f = rep N par prev nx f"
  by (induction F N par prev nx f rule: mrep.induct) auto

lemma mrep_mark:
  assumes "rep N par prev nx f" "distinct (ixs f)"
    and "\<And>j. j \<in> set (ixs f) \<Longrightarrow> N' j = (if j \<in> marked F f
      then map_option (\<lambda>nd. nd\<lparr>is_prune_target_ancestor := True\<rparr>) (N j) else N j)"
  shows "mrep F N' par prev nx f"
  using assms
proof (induction f arbitrary: par prev nx rule: preorder.induct)
  case (2 i d cs ts)
  have dist: "i \<notin> set (ixs cs)" "i \<notin> set (ixs ts)" "distinct (ixs cs)" "distinct (ixs ts)"
      "set (ixs cs) \<inter> set (ixs ts) = {}" using 2(4) by simp_all
  note m = marked_Cons [OF 2(4), of F] marked_subset [of F cs] marked_subset [of F ts]
  have "mrep F N' (Some i) None None cs"
  proof (rule 2(1))
    fix j assume j: "j \<in> set (ixs cs)"
    have "j \<in> marked F (Rose i d cs # ts) \<longleftrightarrow> j \<in> marked F cs"
      using m dist j by (cases "F \<in> set (ixs cs)") (auto split: if_splits)
    with 2(5) [of j] j show "N' j = (if j \<in> marked F cs
      then map_option (\<lambda>nd. nd\<lparr>is_prune_target_ancestor := True\<rparr>) (N j) else N j)" by simp
  qed (use 2(3) dist in simp_all)
  moreover have "mrep F N' par (Some i) nx ts"
  proof (rule 2(2))
    fix j assume j: "j \<in> set (ixs ts)"
    have "j \<in> marked F (Rose i d cs # ts) \<longleftrightarrow> j \<in> marked F ts"
      using m dist j by (cases "F \<in> set (ixs ts)") (auto split: if_splits)
    with 2(5) [of j] j show "N' j = (if j \<in> marked F ts
      then map_option (\<lambda>nd. nd\<lparr>is_prune_target_ancestor := True\<rparr>) (N j) else N j)" by simp
  qed (use 2(3) dist in simp_all)
  moreover have "i \<in> marked F (Rose i d cs # ts) \<longleftrightarrow> i = F \<or> F \<in> set (ixs cs)"
    using m dist by (auto split: if_splits)
  ultimately show ?case using 2(3) 2(5) [of i] by auto
qed simp

lemma node_to_root_path_update:
  assumes "node_to_root_path N i = Some path" "\<And>j. j \<in> set path \<Longrightarrow> N' j = N j"
  shows "node_to_root_path N' i = Some path"
  using assms
proof (induction path arbitrary: i)
  case (Cons a path)
  then show ?case
    by (auto simp: node_to_root_path.simps [of N i] node_to_root_path.simps [of N' i]
      split: option.splits Option.bind_splits)
next
  case Nil
  then show ?case by (auto simp: node_to_root_path.simps [of N i] split: option.splits Option.bind_splits)
qed

lemma mark_ancestors_path:
  assumes "node_to_root_path (nodes t) i = Some path" "distinct path"
  shows "mark_ancestors u t i = Some (t\<lparr>nodes := (\<lambda>j. if j \<in> set path
      then map_option (\<lambda>nd. nd\<lparr>is_prune_target_ancestor := True\<rparr>) (nodes t j) else nodes t j),
      first_root := (if u then Some (last path) else first_root t)\<rparr>)"
  using assms
proof (induction path arbitrary: t i)
  case Nil
  then show ?case by (auto simp: node_to_root_path.simps [of _ i] split: option.splits Option.bind_splits)
next
  case (Cons a path)
  obtain nd where nd: "nodes t i = Some nd" and a: "a = i"
    using Cons.prems(1)
    by (auto simp: node_to_root_path.simps [of _ i] split: option.splits Option.bind_splits)
  show ?case
  proof (cases "parent nd")
    case None
    then have "path = []" using Cons.prems(1) nd by (simp add: node_to_root_path.simps [of _ i])
    then show ?thesis using None nd a
      by (auto simp: mark_ancestors.simps [of u t i] slab_modify_def fun_eq_iff intro!: fork_tree.equality)
  next
    case (Some p)
    then have path: "node_to_root_path (nodes t) p = Some path"
      using Cons.prems(1) nd by (auto simp: node_to_root_path.simps [of _ i] split: Option.bind_splits)
    define t1 where "t1 = t\<lparr>nodes := (nodes t)(i \<mapsto> nd\<lparr>is_prune_target_ancestor := True\<rparr>),
      first_root := (if u then Some i else first_root t)\<rparr>"
    have "node_to_root_path (nodes t1) p = Some path"
      by (rule node_to_root_path_update [OF path]) (use Cons.prems(2) a in \<open>auto simp: t1_def\<close>)
    from Cons.IH [OF this] Cons.prems(2)
    have "mark_ancestors u t1 p = Some (t1\<lparr>nodes := (\<lambda>j. if j \<in> set path
      then map_option (\<lambda>nd. nd\<lparr>is_prune_target_ancestor := True\<rparr>) (nodes t1 j) else nodes t1 j),
      first_root := (if u then Some (last path) else first_root t1)\<rparr>)" by simp
    moreover have "mark_ancestors u t i = mark_ancestors u t1 p"
      using Some nd by (simp add: mark_ancestors.simps [of u t i] slab_modify_def t1_def)
    moreover have "path \<noteq> []" using path
      by (auto simp: node_to_root_path.simps [of _ p] split: option.splits Option.bind_splits)
    ultimately show ?thesis
      using Cons.prems(2) a nd by (auto simp: t1_def fun_eq_iff intro!: fork_tree.equality)
  qed
qed

section \<open>Pruning the ancestors\<close>

text \<open>What is to remain, the descendants of the target, and what is to be yielded, in order.\<close>

fun subforest :: "nat \<Rightarrow> 'a rose list \<Rightarrow> 'a rose list" where
  "subforest F [] = []"
| "subforest F (Rose i d cs # ts) =
     (if i = F then cs else if F \<in> set (ixs cs) then subforest F cs else subforest F ts)"

fun pruned_by_ancestors :: "nat \<Rightarrow> 'a rose list \<Rightarrow> 'a pruned_node list" where
  "pruned_by_ancestors F [] = []"
| "pruned_by_ancestors F (Rose i d cs # ts) =
     (if i = F then [] else pruned_by_ancestors F cs) @
     removed i (i = F \<or> F \<in> set (ixs cs)) d # pruned_by_ancestors F ts"

lemma subforest_subset: "set (ixs (subforest F f)) \<subseteq> set (ixs f)"
  by (induction F f rule: subforest.induct) auto

lemma subforest_notin [simp]: "F \<notin> set (ixs f) \<Longrightarrow> subforest F f = []"
  by (induction F f rule: subforest.induct) auto

lemma subforest_distinct: "distinct (ixs f) \<Longrightarrow> distinct (ixs (subforest F f))"
  by (induction F f rule: subforest.induct) auto

text \<open>The slab \<open>N'\<close> after the nodes of \<open>f\<close> have been reduced to the roots and subtrees \<open>g\<close>.\<close>

definition reduced :: "'a node slab \<Rightarrow> 'a node slab \<Rightarrow> 'a rose list \<Rightarrow> 'a rose list \<Rightarrow> bool" where
  "reduced N N' f g \<longleftrightarrow>
     rep N' None None None g \<and> (\<forall>j. j \<notin> set (ixs f) \<longrightarrow> N' j = N j) \<and>
     (\<forall>j. j \<in> set (ixs f) \<and> j \<notin> set (ixs g) \<longrightarrow> N' j = None)"

lemma reduced_Cons:
  assumes "reduced N N1 cs gc" "reduced (N1(i := None)) N2 ts gt"
    and dist: "distinct (ixs (Rose i d cs # ts))" and sub: "set (ixs gc) \<subseteq> set (ixs cs)" "set (ixs gt) \<subseteq> set (ixs ts)"
    and g: "g = gc \<and> gt = [] \<or> g = gt \<and> gc = []"
  shows "reduced N N2 (Rose i d cs # ts) g"
proof -
  have "rep N2 None None None g"
    using g
  proof
    assume g: "g = gc \<and> gt = []"
    have "N2 j = N1 j" if "j \<in> set (ixs gc)" for j
    proof -
      have "j \<notin> set (ixs ts)" "j \<noteq> i" using that dist sub(1) by auto
      with assms(2) show ?thesis by (simp add: reduced_def)
    qed
    with rep_cong [of gc N2 N1] g assms(1) show ?thesis by (auto simp: reduced_def)
  next
    assume "g = gt \<and> gc = []"
    with assms(2) show ?thesis by (simp add: reduced_def)
  qed
  moreover have "N2 j = N j" if "j \<notin> set (ixs (Rose i d cs # ts))" for j
    using that assms(1,2) by (auto simp: reduced_def)
  moreover have "N2 j = None" if "j \<in> set (ixs (Rose i d cs # ts))" "j \<notin> set (ixs g)" for j
  proof (cases "j \<in> set (ixs ts)")
    case True
    then show ?thesis using that assms(1,2) g dist sub by (auto simp: reduced_def)
  next
    case False
    then have "N2 j = (N1(i := None)) j" using assms(2) by (simp add: reduced_def)
    with False that assms(1) g dist sub show ?thesis by (auto simp: reduced_def)
  qed
  ultimately show ?thesis by (simp add: reduced_def)
qed

lemma walk_ancestors:
  assumes "mrep F N par prev nx f" "distinct (ixs f)" "par \<noteq> Some F" "arrived N R F False (head_ix f nx) par st"
  shows "\<exists>N' st'. prune_steps st (pruned_by_ancestors F f) st' \<and> arrived N' R F False nx par st' \<and>
    reduced N N' f (subforest F f)"
  using assms
proof (induction f arbitrary: N par prev nx st rule: preorder.induct)
  case 1
  then show ?case using stop by (fastforce simp: reduced_def)
next
  case (2 i d cs ts)
  define nd where "nd = \<lparr>parent = par, first_child = head_ix cs None, next_sibling = head_ix ts nx,
    previous_sibling = prev, is_prune_target_ancestor = (i = F \<or> F \<in> set (ixs cs)), data = d\<rparr>"
  have rep: "N i = Some nd" "mrep F N (Some i) None None cs" "mrep F N par (Some i) nx ts"
    using 2(3) by (simp_all add: nd_def)
  have dist: "i \<notin> set (ixs cs)" "i \<notin> set (ixs ts)" "distinct (ixs cs)" "distinct (ixs ts)"
      "set (ixs cs) \<inter> set (ixs ts) = {}" using 2(4) by simp_all
  define out where "out = (if i = F then [] else pruned_by_ancestors F cs)"
  define gc where "gc = (if i = F then cs else subforest F cs)"
  have "\<exists>N1 st1. prune_steps st out st1 \<and> leaving N1 R F False i st1 \<and> reduced N N1 cs gc"
  proof (rule visit_children)
    show "arrived N R F False (Some i) par st" using 2(6) by simp
    show "N i = Some nd" "parent nd \<noteq> Some F" "first_child nd = head_ix cs None"
      using rep 2(5) by (simp_all add: nd_def)
    show "out = [] \<and> reduced N N cs gc" if "cs = []" using that by (simp add: out_def gc_def reduced_def)
    fix st assume at: "arrived N R F False (head_ix cs None) (Some i) st"
    show "\<exists>N' st'. prune_steps st out st' \<and> arrived N' R F False None (Some i) st' \<and> reduced N N' cs gc"
    proof (cases "i = F")
      case True
      then have "rep N (Some F) None None cs" using rep(2) dist(1) by (simp add: mrep_unmarked)
      from walk_target_children [OF this] at dist True show ?thesis
        by (fastforce simp: out_def gc_def reduced_def)
    next
      case False
      then show ?thesis using 2(1) [OF rep(2) dist(3) _ at] by (simp add: out_def gc_def)
    qed
  qed
  then obtain N1 st1 where N1: "prune_steps st out st1" "leaving N1 R F False i st1" "reduced N N1 cs gc" by blast
  then have "N1 i = Some nd" using dist rep(1) by (simp add: reduced_def)
  from leave_remove [OF N1(2) this] 2(5) obtain st2 where
    st2: "prune_steps st1 [removed i (i = F \<or> F \<in> set (ixs cs)) d] st2"
      "arrived (N1(i := None)) R F False (head_ix ts nx) par st2"
    by (auto simp: nd_def)
  have "mrep F (N1(i := None)) par (Some i) nx ts"
    by (rule mrep_frame [OF rep(3), of "insert i (set (ixs cs))"]) (use N1(3) dist in \<open>auto simp: reduced_def\<close>)
  from 2(2) [OF this dist(4) 2(5) st2(2)] obtain N2 st3 where
    N2: "prune_steps st2 (pruned_by_ancestors F ts) st3" "arrived N2 R F False nx par st3"
      "reduced (N1(i := None)) N2 ts (subforest F ts)" by blast
  have "prune_steps st (pruned_by_ancestors F (Rose i d cs # ts)) st3"
    using prune_steps_trans [OF N1(1) prune_steps_trans [OF st2(1) N2(1)]] by (simp add: out_def)
  moreover have "F \<notin> set (ixs ts)" if "i = F \<or> F \<in> set (ixs cs)" using that dist by auto
  then have "reduced N N2 (Rose i d cs # ts) (subforest F (Rose i d cs # ts))"
    by (intro reduced_Cons [OF N1(3) N2(3) 2(4)]) (use subforest_subset [of F] in \<open>auto simp: gc_def\<close>)
  ultimately show ?case using N2(2) by blast
qed

lemma subforest_first_child:
  "rep N par prev nx f \<Longrightarrow> distinct (ixs f) \<Longrightarrow> x \<in> set (ixs f) \<Longrightarrow>
     map_option first_child (N x) = Some (head_ix (subforest x f) None)"
  by (induction N par prev nx f rule: rep.induct) auto

lemma marked_path: "path_to F f = Some p \<Longrightarrow> marked F f = set p"
  by (simp add: marked_def)

lemma mark_represents:
  assumes "represents t f" "path_to F f = Some p"
  obtains N where "mark_ancestors u t F = Some \<lparr>nodes = N, first_root = (if u then Some (hd p) else first_root t)\<rparr>"
    "mrep F N None None None f" "dom N = set (ixs f)"
    "map_option first_child (N F) = map_option first_child (nodes t F)"
proof -
  let ?N = "\<lambda>j. if j \<in> set p then map_option (\<lambda>nd. nd\<lparr>is_prune_target_ancestor := True\<rparr>) (nodes t j) else nodes t j"
  have R: "rep (nodes t) None None None f" "distinct (ixs f)" "dom (nodes t) = set (ixs f)"
    using assms(1) by (simp_all add: represents_def)
  have "distinct p" using path_to_distinct [OF assms(2) R(2)] by simp
  from mark_ancestors_path [OF node_to_root_path_represents [OF assms], of u] this path_to_in [OF assms(2)]
  have "mark_ancestors u t F = Some \<lparr>nodes = ?N, first_root = (if u then Some (hd p) else first_root t)\<rparr>"
    by (simp add: last_rev fork_tree.equality)
  moreover have "mrep F ?N None None None f"
    by (rule mrep_mark [OF R(1,2)]) (simp add: marked_path [OF assms(2)])
  moreover have "dom ?N = dom (nodes t)" by (auto split: if_splits)
  then have "dom ?N = set (ixs f)" using R(3) by simp
  moreover have "map_option first_child (?N F) = map_option first_child (nodes t F)"
    by (simp add: option.map_comp comp_def)
  ultimately show thesis by (rule that)
qed

lemma prune_ancestors_represents:
  assumes "represents t f" "x \<in> set (ixs f)"
  shows "\<exists>t'. prune_ancestors t x = Some (t', pruned_by_ancestors x f) \<and> represents t' (subforest x f)"
proof -
  obtain p where p: "path_to x f = Some p" using assms(2) path_to_None [of x f] by fastforce
  obtain N where N: "mark_ancestors False t x = Some \<lparr>nodes = N, first_root = first_root t\<rparr>"
      "mrep x N None None None f" "dom N = set (ixs f)"
      "map_option first_child (N x) = map_option first_child (nodes t x)"
    using mark_represents [OF assms(1) p, of False] by (metis (full_types))
  have R: "rep (nodes t) None None None f" "distinct (ixs f)" "first_root t = head_ix f None"
    using assms(1) by (simp_all add: represents_def)
  obtain r where r: "first_root t = Some r"
    using R(3) assms(2) by (cases f rule: preorder.cases) simp_all
  obtain nd where nd: "N x = Some nd" using N(3) assms(2) by blast
  with subforest_first_child [OF R(1,2) assms(2)] N(4) have fc: "first_child nd = head_ix (subforest x f) None" by auto
  define st where "st = \<lparr>finished = False, tree = \<lparr>nodes = N, first_root = first_child nd\<rparr>, cur = r,
    traversing_up = False, new_final = x, uncles_only = False\<rparr>"
  have start: "prune_ancestors_inner t x False = Some st"
    using r N(1) nd by (simp add: prune_ancestors_inner_def st_def)
  have "arrived N (first_child nd) x False (head_ix f None) None st"
    using r R(3) by (simp add: arrived_def st_def)
  from walk_ancestors [OF N(2) R(2) _ this] obtain N' st' where
    walk: "prune_steps st (pruned_by_ancestors x f) st'" "arrived N' (first_child nd) x False None None st'"
      "reduced N N' f (subforest x f)" by auto
  have tree: "tree st' = \<lparr>nodes = N', first_root = first_child nd\<rparr>" and fin: "finished st'"
    using walk(2) by (simp_all add: arrived_def)
  have "j \<in> dom N' \<longleftrightarrow> j \<in> set (ixs (subforest x f))" for j
    using walk(3) N(3) rep_dom [of N' None None None "subforest x f" j] subforest_subset [of x f]
    by (cases "j \<in> set (ixs f)") (auto simp: reduced_def)
  then have "represents (tree st') (subforest x f)"
    using walk(3) subforest_distinct [OF R(2)] by (auto simp: represents_def tree fc reduced_def)
  then show ?thesis
    using prune_drain_steps [OF walk(1) fin] start by (simp add: prune_ancestors_def prune_def)
qed

section \<open>Pruning the uncles\<close>

fun kept_path :: "nat \<Rightarrow> 'a rose list \<Rightarrow> 'a rose list" where
  "kept_path F [] = []"
| "kept_path F (Rose i d cs # ts) =
     (if i = F then [Rose i d cs]
      else if F \<in> set (ixs cs) then [Rose i d (kept_path F cs)] else kept_path F ts)"

fun pruned_by_uncles :: "nat \<Rightarrow> 'a rose list \<Rightarrow> 'a pruned_node list" where
  "pruned_by_uncles F [] = []"
| "pruned_by_uncles F (Rose i d cs # ts) =
     (if i = F then [] else pruned_by_uncles F cs) @
     (if i = F \<or> F \<in> set (ixs cs) then [] else [removed i False d]) @ pruned_by_uncles F ts"

lemma kept_path_subset: "set (ixs (kept_path F f)) \<subseteq> set (ixs f)"
  by (induction F f rule: kept_path.induct) auto

lemma kept_path_notin [simp]: "F \<notin> set (ixs f) \<Longrightarrow> kept_path F f = []"
  by (induction F f rule: kept_path.induct) auto

lemma kept_path_Nil_iff [simp]: "kept_path F f = [] \<longleftrightarrow> F \<notin> set (ixs f)"
  by (induction F f rule: kept_path.induct) auto

lemma kept_path_distinct: "distinct (ixs f) \<Longrightarrow> distinct (ixs (kept_path F f))"
proof (induction F f rule: kept_path.induct)
  case (2 F i d cs ts)
  then show ?case using kept_path_subset [of F cs] by (auto split: if_splits)
qed simp

lemma kept_path_head: "path_to F f = Some p \<Longrightarrow> head_ix (kept_path F f) None = Some (hd p)"
proof (induction F f arbitrary: p rule: kept_path.induct)
  case (2 F i d cs ts)
  then show ?case using path_to_mem [of F cs] by (auto split: if_splits option.splits)
qed simp

text \<open>
  The slab after a list of siblings \<open>f\<close> below \<open>par\<close> has been trimmed to \<open>g\<close>, and what the walk
  needs of the parent before: it has the list as children, if the list starts at the first one.
\<close>

definition trimmed :: "'a node slab \<Rightarrow> 'a node slab \<Rightarrow> nat option \<Rightarrow> 'a rose list \<Rightarrow> 'a rose list \<Rightarrow> bool" where
  "trimmed N N' par f g \<longleftrightarrow>
     rep N' par None None g \<and> (\<forall>j. j \<in> set (ixs f) \<and> j \<notin> set (ixs g) \<longrightarrow> N' j = None) \<and>
     (\<forall>j. j \<notin> set (ixs f) \<longrightarrow>
        N' j = (if par = Some j \<and> g \<noteq> [] then map_option (\<lambda>nd. nd\<lparr>first_child := head_ix g None\<rparr>) (N j) else N j))"

definition parent_ok :: "'a node slab \<Rightarrow> nat option \<Rightarrow> nat option \<Rightarrow> 'a rose list \<Rightarrow> bool" where
  "parent_ok N par prev f \<longleftrightarrow>
     (\<forall>p. par = Some p \<longrightarrow> p \<notin> set (ixs f) \<and>
        (\<exists>nd. N p = Some nd \<and> (prev = None \<longrightarrow> first_child nd = head_ix f None)))"

lemma trimmed_drop:
  assumes "trimmed N N1 (Some i) cs []" "trimmed (N1(i := None)) N2 par ts g"
    and dist: "distinct (ixs (Rose i d cs # ts))" and sub: "set (ixs g) \<subseteq> set (ixs ts)"
    and par: "\<And>p. par = Some p \<Longrightarrow> p \<notin> set (ixs (Rose i d cs # ts))"
  shows "trimmed N N2 par (Rose i d cs # ts) g"
proof -
  have "N2 j = None" if "j = i \<or> j \<in> set (ixs cs)" for j
  proof -
    have "j \<notin> set (ixs ts)" "par \<noteq> Some j" using that dist par by auto
    then have "N2 j = (N1(i := None)) j" using assms(2) by (simp add: trimmed_def)
    with that assms(1) show ?thesis by (auto simp: trimmed_def)
  qed
  moreover have "(N1(i := None)) j = N j" if "j \<noteq> i" "j \<notin> set (ixs cs)" for j
    using that assms(1) by (simp add: trimmed_def)
  ultimately show ?thesis using assms(2) by (auto simp: trimmed_def)
qed

lemma trimmed_keep:
  assumes N1: "trimmed N N1 (Some i) cs gc" and N2: "trimmed (keep_node i nd N1) N2 par ts []"
    and dist: "distinct (ixs (Rose i d cs # ts))" and sub: "set (ixs gc) \<subseteq> set (ixs cs)"
    and nd: "nd = \<lparr>parent = par, first_child = head_ix gc None, next_sibling = nx,
      previous_sibling = prev, is_prune_target_ancestor = True, data = d\<rparr>"
    and par: "parent_ok N par prev (Rose i d cs # ts)"
  shows "trimmed N N2 par (Rose i d cs # ts) [Rose i d gc]"
proof -
  have keep: "keep_node i nd N1 j = N1 j" if "j \<noteq> i" "par \<noteq> Some j" for j
    using that by (auto simp: keep_node_def nd Let_def split: option.splits)
  have "N2 i = keep_node i nd N1 i" using N2 dist by (simp add: trimmed_def)
  moreover have "par \<noteq> Some i" using par by (auto simp: parent_ok_def)
  ultimately have "N2 i = Some \<lparr>parent = par, first_child = head_ix gc None, next_sibling = None,
      previous_sibling = None, is_prune_target_ancestor = False, data = d\<rparr>"
    by (auto simp: keep_node_def nd Let_def split: option.splits)
  moreover have below: "N2 j = N1 j" if "j \<in> set (ixs cs)" for j
  proof -
    have "j \<noteq> i" "j \<notin> set (ixs ts)" "par \<noteq> Some j" using that dist par by (auto simp: parent_ok_def)
    with N2 keep show ?thesis by (simp add: trimmed_def)
  qed
  then have "rep N2 (Some i) None None gc"
    using rep_cong [of gc N2 N1] N1 sub by (metis subsetD trimmed_def)
  moreover have "N2 j = None" if "j \<in> set (ixs cs) \<or> j \<in> set (ixs ts)" "j \<notin> set (ixs gc)" "j \<noteq> i" for j
    using that below N1 N2 by (auto simp: trimmed_def)
  moreover have "N2 j = (if par = Some j then map_option (\<lambda>nd. nd\<lparr>first_child := Some i\<rparr>) (N j) else N j)"
    if "j \<noteq> i" "j \<notin> set (ixs cs)" "j \<notin> set (ixs ts)" for j
  proof -
    have "N2 j = keep_node i nd N1 j" "N1 j = N j" using that N1 N2 by (simp_all add: trimmed_def)
    with that par keep show ?thesis
      by (auto simp: keep_node_def nd Let_def parent_ok_def)
  qed
  ultimately show ?thesis by (auto simp: trimmed_def)
qed

lemma walk_uncles_children:
  assumes at: "arrived N R F True (Some i) par st" and par: "par \<noteq> Some F"
    and rep: "N i = Some nd" "parent nd = par" "first_child nd = head_ix cs None" "mrep F N (Some i) None None cs"
    and dist: "i \<notin> set (ixs cs)" "distinct (ixs cs)"
    and below: "\<And>st. i \<noteq> F \<Longrightarrow> arrived N R F True (head_ix cs None) (Some i) st \<Longrightarrow>
      \<exists>N' st'. prune_steps st (pruned_by_uncles F cs) st' \<and> arrived N' R F True None (Some i) st' \<and>
        trimmed N N' (Some i) cs (kept_path F cs)"
  shows "\<exists>N1 st1. prune_steps st (if i = F then [] else pruned_by_uncles F cs) st1 \<and>
    leaving N1 R F True i st1 \<and> trimmed N N1 (Some i) cs (if i = F then cs else kept_path F cs)"
proof (rule visit_children [OF at rep(1) _ rep(3)])
  show "parent nd \<noteq> Some F" using rep(2) par by simp
  show "(if i = F then [] else pruned_by_uncles F cs) = [] \<and> trimmed N N (Some i) cs (if i = F then cs else kept_path F cs)"
    if "cs = []" using that by (simp add: trimmed_def)
  fix st assume at: "arrived N R F True (head_ix cs None) (Some i) st"
  show "\<exists>N' st'. prune_steps st (if i = F then [] else pruned_by_uncles F cs) st' \<and>
    arrived N' R F True None (Some i) st' \<and> trimmed N N' (Some i) cs (if i = F then cs else kept_path F cs)"
  proof (cases "i = F")
    case True
    then have "rep N (Some F) None None cs" using rep(4) dist(1) by (simp add: mrep_unmarked)
    from walk_target_children [OF this dist(2)] at dist(1) True obtain N' st' where
      N': "prune_steps st [] st'" "arrived N' R F True None (Some F) st'"
      "rep N' (Some F) None None cs" "\<forall>j. j \<notin> set (ixs cs) \<longrightarrow> N' j = N j" by fastforce
    have "nd\<lparr>first_child := head_ix cs None\<rparr> = nd" using rep(3) by simp
    with N' True rep(1) show ?thesis
      by (intro exI [of _ N'] exI [of _ st']) (simp add: trimmed_def)
  next
    case False
    with below [OF _ at] show ?thesis by simp
  qed
qed

lemma walk_uncles:
  assumes "mrep F N par prev nx f" "distinct (ixs f)" "par \<noteq> Some F" "parent_ok N par prev f"
    and "arrived N R F True (head_ix f nx) par st"
  shows "\<exists>N' st'. prune_steps st (pruned_by_uncles F f) st' \<and> arrived N' R F True nx par st' \<and>
    trimmed N N' par f (kept_path F f)"
  using assms
proof (induction f arbitrary: N par prev nx st rule: preorder.induct)
  case 1
  then show ?case using stop by (fastforce simp: trimmed_def)
next
  case (2 i d cs ts)
  define on_path where "on_path \<longleftrightarrow> i = F \<or> F \<in> set (ixs cs)"
  define nd where "nd = \<lparr>parent = par, first_child = head_ix cs None, next_sibling = head_ix ts nx,
    previous_sibling = prev, is_prune_target_ancestor = on_path, data = d\<rparr>"
  have rep: "N i = Some nd" "mrep F N (Some i) None None cs" "mrep F N par (Some i) nx ts"
    using 2(3) by (simp_all add: nd_def on_path_def)
  have dist: "i \<notin> set (ixs cs)" "i \<notin> set (ixs ts)" "distinct (ixs cs)" "distinct (ixs ts)"
      "set (ixs cs) \<inter> set (ixs ts) = {}" using 2(4) by simp_all
  have par: "p \<noteq> i \<and> p \<notin> set (ixs cs) \<and> p \<notin> set (ixs ts) \<and> p \<in> dom N" if "par = Some p" for p
    using 2(6) that by (auto simp: parent_ok_def)
  define out where "out = (if i = F then [] else pruned_by_uncles F cs)"
  define gc where "gc = (if i = F then cs else kept_path F cs)"
  have ok: "parent_ok N (Some i) None cs" using rep(1) dist(1) by (simp add: parent_ok_def nd_def)
  obtain N1 st1 where N1: "prune_steps st out st1" "leaving N1 R F True i st1" "trimmed N N1 (Some i) cs gc"
    using walk_uncles_children [OF _ 2(5) rep(1) _ _ rep(2) dist(1,3)] 2(7) 2(1) [OF rep(2) dist(3) _ ok]
    by (fastforce simp: out_def gc_def nd_def)
  have other: "N1 j = N j" if "j \<noteq> i" "j \<notin> set (ixs cs)" for j using N1(3) that by (simp add: trimmed_def)
  define N2 where "N2 = (if on_path then keep_node i (nd\<lparr>first_child := head_ix gc None\<rparr>) N1 else N1(i := None))"
  have "\<exists>st2. prune_steps st1 (if on_path then [] else [removed i False d]) st2 \<and>
      arrived N2 R F True (head_ix ts nx) par st2"
  proof (cases on_path)
    case True
    have "N1 i = Some (nd\<lparr>first_child := head_ix gc None\<rparr>)"
      using N1(3) dist rep(1) True by (auto simp: trimmed_def gc_def nd_def on_path_def)
    from leave_keep [OF N1(2) this] True 2(5) par other show ?thesis by (simp add: nd_def N2_def dom_def)
  next
    case False
    then have "N1 i = Some nd" using N1(3) dist rep(1) by (simp add: trimmed_def gc_def on_path_def)
    from leave_remove [OF N1(2) this] False 2(5) show ?thesis by (simp add: nd_def N2_def)
  qed
  then obtain st2 where st2: "prune_steps st1 (if on_path then [] else [removed i False d]) st2"
      "arrived N2 R F True (head_ix ts nx) par st2" by blast
  have N2: "N2 j = N j" if "j \<noteq> i" "j \<notin> set (ixs cs)" "par \<noteq> Some j" for j
    using that other by (auto simp: N2_def keep_node_def nd_def Let_def split: option.splits)
  have "mrep F N2 par (Some i) nx ts"
    by (rule mrep_frame [OF rep(3), of "insert i (set (ixs cs)) \<union> set_option par"]) (use N2 dist par in auto)
  moreover have "parent_ok N2 par (Some i) ts"
    using par other by (fastforce simp: parent_ok_def N2_def keep_node_def nd_def Let_def split: option.splits)
  ultimately obtain N3 st3 where N3: "prune_steps st2 (pruned_by_uncles F ts) st3" "arrived N3 R F True nx par st3"
      "trimmed N2 N3 par ts (kept_path F ts)"
    using 2(2) [OF _ dist(4) 2(5) _ st2(2)] by blast
  have "trimmed N N3 par (Rose i d cs # ts) (kept_path F (Rose i d cs # ts))"
  proof (cases on_path)
    case True
    then have "kept_path F ts = []" using dist by (auto simp: on_path_def)
    with N3(3) True have N3': "trimmed (keep_node i (nd\<lparr>first_child := head_ix gc None\<rparr>) N1) N3 par ts []" by (simp add: N2_def)
    have "set (ixs gc) \<subseteq> set (ixs cs)" using kept_path_subset by (auto simp: gc_def)
    from trimmed_keep [OF N1(3) N3' 2(4) this _ 2(6)] True show ?thesis
      by (auto simp: nd_def gc_def on_path_def)
  next
    case False
    then have "gc = []" by (simp add: gc_def on_path_def)
    with N1(3) N3(3) False have "trimmed N N1 (Some i) cs []" "trimmed (N1(i := None)) N3 par ts (kept_path F ts)"
      by (simp_all add: N2_def)
    from trimmed_drop [OF this 2(4) kept_path_subset] par False show ?thesis by (auto simp: on_path_def)
  qed
  moreover have "prune_steps st (pruned_by_uncles F (Rose i d cs # ts)) st3"
    using prune_steps_trans [OF N1(1) prune_steps_trans [OF st2(1) N3(1)]] by (simp add: out_def on_path_def)
  ultimately show ?case using N3(2) by blast
qed

lemma prune_uncles_represents:
  assumes "represents t f" "x \<in> set (ixs f)"
  shows "\<exists>t'. prune_uncles t x = Some (t', pruned_by_uncles x f) \<and> represents t' (kept_path x f)"
proof -
  obtain p where p: "path_to x f = Some p" using assms(2) path_to_None [of x f] by fastforce
  obtain N where N: "mark_ancestors True t x = Some \<lparr>nodes = N, first_root = Some (hd p)\<rparr>"
      "mrep x N None None None f" "dom N = set (ixs f)"
    using mark_represents [OF assms(1) p, of True] by (metis (full_types))
  have R: "distinct (ixs f)" "first_root t = head_ix f None"
    using assms(1) by (simp_all add: represents_def)
  obtain r where r: "first_root t = Some r"
    using R(2) assms(2) by (cases f rule: preorder.cases) simp_all
  define st where "st = \<lparr>finished = False, tree = \<lparr>nodes = N, first_root = Some (hd p)\<rparr>, cur = r,
    traversing_up = False, new_final = x, uncles_only = True\<rparr>"
  have start: "prune_ancestors_inner t x True = Some st"
    using r N(1) by (simp add: prune_ancestors_inner_def st_def)
  have "arrived N (Some (hd p)) x True (head_ix f None) None st"
    using r R(2) by (simp add: arrived_def st_def)
  from walk_uncles [OF N(2) R(1) _ _ this] obtain N' st' where
    walk: "prune_steps st (pruned_by_uncles x f) st'" "arrived N' (Some (hd p)) x True None None st'"
      "trimmed N N' None f (kept_path x f)" by (auto simp: parent_ok_def)
  have tree: "tree st' = \<lparr>nodes = N', first_root = Some (hd p)\<rparr>" and fin: "finished st'"
    using walk(2) by (simp_all add: arrived_def)
  have "j \<in> dom N' \<longleftrightarrow> j \<in> set (ixs (kept_path x f))" for j
    using walk(3) N(3) rep_dom [of N' None None None "kept_path x f" j] kept_path_subset [of x f]
    by (cases "j \<in> set (ixs f)") (auto simp: trimmed_def)
  then have "represents (tree st') (kept_path x f)"
    using walk(3) kept_path_distinct [OF R(1)] kept_path_head [OF p] by (auto simp: represents_def tree trimmed_def)
  then show ?thesis
    using prune_drain_steps [OF walk(1) fin] start by (simp add: prune_uncles_def prune_def)
qed

end
