(* ===== verification/Fork_Tree_Props.thy ===== *)
theory Fork_Tree_Props
  imports Fork_Tree_Prune "HOL-Library.Multiset"
begin

text \<open>
  What the operations of the fork tree promise, for every tree that a sequence of operations
  builds from the empty one. Each such tree represents a forest, so that the properties follow
  from the lemmas on forests; their statements are about the code's own functions.
\<close>

section \<open>The trees that the operations build\<close>

inductive fork_tree_reachable :: "'a fork_tree \<Rightarrow> bool" where
  new: "fork_tree_reachable fork_tree_new"
| clear: "fork_tree_reachable t \<Longrightarrow> fork_tree_reachable (fork_tree_clear t)"
| insert: "fork_tree_reachable t \<Longrightarrow> nodes t k = None \<Longrightarrow> fork_tree_insert k t par d = Some (t', i) \<Longrightarrow>
    fork_tree_reachable t'"
| get_mut: "fork_tree_reachable t \<Longrightarrow> fork_tree_get_mut t i g = Some t' \<Longrightarrow> fork_tree_reachable t'"
| prune_ancestors: "fork_tree_reachable t \<Longrightarrow> i \<in> dom (nodes t) \<Longrightarrow> prune_ancestors t i = Some (t', pns) \<Longrightarrow>
    fork_tree_reachable t'"
| prune_uncles: "fork_tree_reachable t \<Longrightarrow> i \<in> dom (nodes t) \<Longrightarrow> prune_uncles t i = Some (t', pns) \<Longrightarrow>
    fork_tree_reachable t'"

fun forest_update :: "nat \<Rightarrow> ('a \<Rightarrow> 'a) \<Rightarrow> 'a rose list \<Rightarrow> 'a rose list" where
  "forest_update x g [] = []"
| "forest_update x g (Rose i d cs # ts) =
     Rose i (if i = x then g d else d) (forest_update x g cs) # forest_update x g ts"

lemma ixs_forest_update [simp]: "ixs (forest_update x g f) = ixs f"
  by (induction x g f rule: forest_update.induct) simp_all

lemma head_ix_forest_update [simp]: "head_ix (forest_update x g f) nx = head_ix f nx"
  by (cases f rule: preorder.cases) simp_all

lemma rep_forest_update:
  "rep N par prev nx f \<Longrightarrow> distinct (ixs f) \<Longrightarrow> N x = Some nd \<Longrightarrow>
     rep (N(x \<mapsto> nd\<lparr>data := g (data nd)\<rparr>)) par prev nx (forest_update x g f)"
  by (induction N par prev nx f rule: rep.induct) auto

lemma get_mut_represents:
  assumes "represents t f" "fork_tree_get_mut t x g = Some t'"
  shows "represents t' (forest_update x g f)"
proof -
  obtain nd where nd: "nodes t x = Some nd" "t' = t\<lparr>nodes := (nodes t)(x \<mapsto> nd\<lparr>data := g (data nd)\<rparr>)\<rparr>"
    using assms(2) by (auto simp: fork_tree_get_mut_def)
  then have "dom (nodes t') = dom (nodes t)" by auto
  with nd assms(1) show ?thesis by (simp add: represents_def rep_forest_update)
qed

lemma insert_represents:
  assumes "represents t f" "nodes t k = None" "fork_tree_insert k t par d = Some (t', i)"
  shows "i = k \<and> represents t' (case par of None \<Rightarrow> Rose k d [] # f | Some p \<Rightarrow> forest_insert p (Rose k d []) f)"
proof (cases par)
  case None
  then show ?thesis using insert_root_represents [OF assms(1,2), of d] assms(3) by auto
next
  case (Some p)
  then have "p \<in> dom (nodes t)" using assms(3) by (auto simp: fork_tree_insert_def split: Option.bind_splits)
  with assms(1) have "p \<in> set (ixs f)" by (simp add: represents_def)
  from insert_child_represents [OF assms(1,2) this, of d] show ?thesis using assms(3) Some by auto
qed

lemma reachable_represents: "fork_tree_reachable t \<Longrightarrow> \<exists>f. represents t f"
proof (induction rule: fork_tree_reachable.induct)
  case new
  show ?case using represents_new by blast
next
  case (clear t)
  have "represents (fork_tree_clear t) []" by (simp add: represents_def fork_tree_clear_def)
  then show ?case by blast
next
  case (insert t k par d t' i)
  then obtain f where "represents t f" by blast
  from insert_represents [OF this insert(2,3)] show ?case by blast
next
  case (get_mut t i g t')
  then obtain f where "represents t f" by blast
  from get_mut_represents [OF this get_mut(2)] show ?case by blast
next
  case (prune_ancestors t i t' pns)
  then obtain f where f: "represents t f" by blast
  with prune_ancestors have "i \<in> set (ixs f)" by (simp add: represents_def)
  from prune_ancestors_represents [OF f this] prune_ancestors(3) show ?case by auto
next
  case (prune_uncles t i t' pns)
  then obtain f where f: "represents t f" by blast
  with prune_uncles have "i \<in> set (ixs f)" by (simp add: represents_def)
  from prune_uncles_represents [OF f this] prune_uncles(3) show ?case by auto
qed

section \<open>User data\<close>

lemma rep_data: "rep N par prev nx f \<Longrightarrow> (i, d) \<in> set (preorder f) \<Longrightarrow> map_option data (N i) = Some d"
  by (induction N par prev nx f rule: rep.induct) auto

lemma represents_get: "represents t f \<Longrightarrow> (i, d) \<in> set (preorder f) \<longleftrightarrow> fork_tree_get t i = Some d"
proof
  assume "represents t f" "(i, d) \<in> set (preorder f)"
  then show "fork_tree_get t i = Some d"
    using rep_data [of "nodes t" None None None f i d] by (simp add: represents_def fork_tree_get_def)
next
  assume R: "represents t f" and g: "fork_tree_get t i = Some d"
  then have "i \<in> set (ixs f)" by (auto simp: represents_def fork_tree_get_def)
  then obtain d' where d': "(i, d') \<in> set (preorder f)" by (auto simp: ixs_def)
  then have "fork_tree_get t i = Some d'"
    using rep_data [of "nodes t" None None None f i d'] R by (simp add: represents_def fork_tree_get_def)
  with g d' show "(i, d) \<in> set (preorder f)" by simp
qed

lemma represents_dom: "represents t f \<Longrightarrow> i \<in> dom (nodes t) \<longleftrightarrow> i \<in> set (ixs f)"
  by (simp add: represents_def)

section \<open>What pruning removes and keeps\<close>

definition entry :: "'a pruned_node \<Rightarrow> nat \<times> 'a" where
  "entry pn = (pruned_index pn, user_data pn)"

lemma pruned_by_ancestors_mset:
  "distinct (ixs f) \<Longrightarrow>
     mset (map entry (pruned_by_ancestors x f)) + mset (preorder (subforest x f)) = mset (preorder f)"
proof (induction x f rule: pruned_by_ancestors.induct)
  case (2 x i d cs ts)
  then have "x \<notin> set (ixs ts)" if "i = x \<or> x \<in> set (ixs cs)" using that by auto
  with 2 show ?case by (cases "i = x"; cases "x \<in> set (ixs cs)") (simp_all add: entry_def)
qed simp

lemma pruned_by_uncles_mset:
  "distinct (ixs f) \<Longrightarrow>
     mset (map entry (pruned_by_uncles x f)) + mset (preorder (kept_path x f)) = mset (preorder f)"
proof (induction x f rule: pruned_by_uncles.induct)
  case (2 x i d cs ts)
  then have "x \<notin> set (ixs ts)" if "i = x \<or> x \<in> set (ixs cs)" using that by auto
  with 2 show ?case by (cases "i = x"; cases "x \<in> set (ixs cs)") (simp_all add: entry_def)
qed simp

lemma pruned_by_ancestors_unflagged:
  "x \<notin> set (ixs f) \<Longrightarrow> filter pruned_is_target_ancestor (pruned_by_ancestors x f) = []"
  by (induction x f rule: pruned_by_ancestors.induct) auto

lemma pruned_by_ancestors_flagged:
  "path_to x f = Some p \<Longrightarrow> distinct (ixs f) \<Longrightarrow>
     map pruned_index (filter pruned_is_target_ancestor (pruned_by_ancestors x f)) = rev p"
proof (induction x f arbitrary: p rule: pruned_by_ancestors.induct)
  case (2 x i d cs ts)
  have dist: "i \<notin> set (ixs cs)" "i \<notin> set (ixs ts)" "set (ixs cs) \<inter> set (ixs ts) = {}" using 2(4) by simp_all
  consider (here) "i = x" | (below) q where "i \<noteq> x" "path_to x cs = Some q" "p = i # q"
    | (beside) "i \<noteq> x" "x \<notin> set (ixs cs)" "path_to x ts = Some p"
    using 2(3) by (auto split: if_splits option.splits)
  then show ?case
  proof cases
    case here
    with 2(3) dist show ?thesis by (auto simp: pruned_by_ancestors_unflagged)
  next
    case below
    then have "x \<in> set (ixs cs)" "x \<notin> set (ixs ts)" using dist path_to_mem by fastforce+
    with below 2 show ?thesis by (simp add: pruned_by_ancestors_unflagged)
  next
    case beside
    with 2 show ?thesis by (simp add: pruned_by_ancestors_unflagged)
  qed
qed simp

lemma pruned_by_uncles_unflagged: "pn \<in> set (pruned_by_uncles x f) \<Longrightarrow> \<not> pruned_is_target_ancestor pn"
  by (induction x f rule: pruned_by_uncles.induct) (auto split: if_splits)

lemma subforest_ixs:
  "distinct (ixs f) \<Longrightarrow> path_to n f = Some p \<Longrightarrow> n \<in> set (ixs (subforest x f)) \<longleftrightarrow> n \<noteq> x \<and> x \<in> set p"
proof (induction x f arbitrary: p rule: subforest.induct)
  case (2 x i d cs ts)
  have dist: "i \<notin> set (ixs cs)" "i \<notin> set (ixs ts)" "set (ixs cs) \<inter> set (ixs ts) = {}" using 2(3) by simp_all
  note sub = subforest_subset [of x cs] subforest_subset [of x ts]
  consider (here) "n = i" "p = [i]" | (below) q where "n \<noteq> i" "path_to n cs = Some q" "p = i # q"
    | (beside) "n \<noteq> i" "n \<notin> set (ixs cs)" "path_to n ts = Some p"
    using 2(4) by (auto split: if_splits option.splits)
  then show ?case
  proof cases
    case here
    with dist sub show ?thesis by auto
  next
    case below
    then have n: "n \<in> set (ixs cs)" "n \<notin> set (ixs ts)" using dist path_to_mem by fastforce+
    with below path_to_in [OF below(2)] 2(1) [OF _ _ _ below(2)] 2(3) sub dist show ?thesis by (cases "x \<in> set (ixs cs)") auto
  next
    case beside
    then have n: "n \<in> set (ixs ts)" using path_to_mem by fastforce
    with beside path_to_in [OF beside(3)] 2(2) [OF _ _ _ beside(3)] 2(3) sub dist show ?thesis
      by (cases "x \<in> set (ixs cs)") auto
  qed
qed simp

lemma kept_path_ixs:
  "distinct (ixs f) \<Longrightarrow> path_to x f = Some px \<Longrightarrow>
     set (ixs (kept_path x f)) = set px \<union> set (ixs (subforest x f))"
proof (induction x f arbitrary: px rule: kept_path.induct)
  case (2 x i d cs ts)
  show ?case
  proof (cases "i = x \<or> x \<in> set (ixs cs)")
    case True
    with 2 show ?thesis by (auto split: option.splits)
  next
    case False
    then have "path_to x cs = None" by simp
    with False 2 show ?thesis by (simp del: path_to_None)
  qed
qed simp

text \<open>A tree for part of a forest, the other nodes of which are listed in \<open>xs\<close>.\<close>

lemma part_get:
  assumes R: "represents t f" and R': "represents t' g"
    and m: "mset xs + mset (preorder g) = mset (preorder f)"
  shows "fork_tree_get t' n = (if n \<in> set (ixs g) then fork_tree_get t n else None)"
    and "distinct (map fst xs)"
    and "set xs = {(n, d). fork_tree_get t n = Some d \<and> fork_tree_get t' n = None}"
proof -
  have sets: "set xs \<union> set (preorder g) = set (preorder f)"
    using arg_cong [OF m, of set_mset] by simp
  have "mset (map fst xs @ ixs g) = mset (ixs f)"
    using arg_cong [OF m, of "image_mset fst"] by (simp add: ixs_def)
  from mset_eq_imp_distinct_iff [OF this] have d: "distinct (map fst xs @ ixs g)"
    using R by (simp add: represents_def)
  then show "distinct (map fst xs)" by simp
  have inner: "fork_tree_get t' n = None \<longleftrightarrow> n \<notin> set (ixs g)" for n
    using represents_dom [OF R', of n] by (auto simp: fork_tree_get_def)
  show "fork_tree_get t' n = (if n \<in> set (ixs g) then fork_tree_get t n else None)"
  proof (cases "n \<in> set (ixs g)")
    case True
    then obtain d where "(n, d) \<in> set (preorder g)" by (auto simp: ixs_def)
    with True sets represents_get [OF R] represents_get [OF R'] show ?thesis by force
  next
    case False
    with inner show ?thesis by simp
  qed
  have "(n, d) \<in> set xs \<longleftrightarrow> (n, d) \<in> set (preorder f) \<and> n \<notin> set (ixs g)" for n d
  proof
    assume x: "(n, d) \<in> set xs"
    then have "n \<in> set (map fst xs)" by force
    with x d sets show "(n, d) \<in> set (preorder f) \<and> n \<notin> set (ixs g)" by auto
  next
    assume "(n, d) \<in> set (preorder f) \<and> n \<notin> set (ixs g)"
    with sets show "(n, d) \<in> set xs" by (force simp: ixs_def)
  qed
  then show "set xs = {(n, d). fork_tree_get t n = Some d \<and> fork_tree_get t' n = None}"
    using represents_get [OF R] inner by auto
qed

text \<open>What inserting does to the fields of the nodes.\<close>

lemma slab_modify_field: "slab_modify i h N = Some N' \<Longrightarrow> (\<And>nd. sel (h nd) = sel nd) \<Longrightarrow>
    map_option sel (N' j) = map_option sel (N j)"
  by (auto simp: slab_modify_def)

lemma insert_fields:
  assumes "fork_tree_insert k t par d = Some (t', i)"
  shows "map_option data (nodes t' j) = (if j = k then Some d else map_option data (nodes t j))"
    and "map_option parent (nodes t' j) = (if j = k then Some par else map_option parent (nodes t j))"
proof -
  obtain N1 N2 where N1: "data (the (N1 k)) = d" "parent (the (N1 k)) = par" "k \<in> dom N1" "\<And>j. j \<noteq> k \<Longrightarrow> N1 j = nodes t j"
    and N2: "N2 = N1 \<or> (\<exists>p. slab_modify p (\<lambda>nd. nd\<lparr>first_child := Some k\<rparr>) N1 = Some N2)"
    and N3: "nodes t' = N2 \<or> (\<exists>s. slab_modify s (\<lambda>nd. nd\<lparr>previous_sibling := Some k\<rparr>) N2 = Some (nodes t'))"
  proof (cases par)
    case None
    define N1 where "N1 = (nodes t)(k \<mapsto> \<lparr>parent = None, first_child = None, next_sibling = first_root t,
      previous_sibling = None, is_prune_target_ancestor = False, data = d\<rparr>)"
    have "nodes t' = N1 \<or> (\<exists>s. slab_modify s (\<lambda>nd. nd\<lparr>previous_sibling := Some k\<rparr>) N1 = Some (nodes t'))"
      using assms None by (auto simp: fork_tree_insert_def N1_def Let_def split: option.splits Option.bind_splits)
    then show thesis by (intro that [of N1 N1]) (simp_all add: N1_def None)
  next
    case (Some p)
    then obtain pn where pn: "nodes t p = Some pn" using assms by (auto simp: fork_tree_insert_def split: Option.bind_splits)
    define N1 where "N1 = (nodes t)(k \<mapsto> \<lparr>parent = Some p, first_child = None, next_sibling = first_child pn,
      previous_sibling = None, is_prune_target_ancestor = False, data = d\<rparr>)"
    have "\<exists>N2. slab_modify p (\<lambda>nd. nd\<lparr>first_child := Some k\<rparr>) N1 = Some N2 \<and>
        (nodes t' = N2 \<or> (\<exists>s. slab_modify s (\<lambda>nd. nd\<lparr>previous_sibling := Some k\<rparr>) N2 = Some (nodes t')))"
      using assms Some pn by (auto simp: fork_tree_insert_def N1_def Let_def split: option.splits Option.bind_splits)
    then obtain N2 where "slab_modify p (\<lambda>nd. nd\<lparr>first_child := Some k\<rparr>) N1 = Some N2"
        "nodes t' = N2 \<or> (\<exists>s. slab_modify s (\<lambda>nd. nd\<lparr>previous_sibling := Some k\<rparr>) N2 = Some (nodes t'))" by blast
    then show thesis by (intro that [of N1 N2]) (auto simp: N1_def Some)
  qed
  have "map_option data (N2 j) = map_option data (N1 j)" "map_option parent (N2 j) = map_option parent (N1 j)" for j
    using N2 by (auto dest: slab_modify_field [where sel = data] slab_modify_field [where sel = parent])
  moreover have "map_option data (nodes t' j) = map_option data (N2 j)"
      "map_option parent (nodes t' j) = map_option parent (N2 j)" for j
    using N3 by (auto dest: slab_modify_field [where sel = data] slab_modify_field [where sel = parent])
  ultimately show "map_option data (nodes t' j) = (if j = k then Some d else map_option data (nodes t j))"
    "map_option parent (nodes t' j) = (if j = k then Some par else map_option parent (nodes t j))"
    using N1 by auto
qed

section \<open>Children and iteration\<close>

lemma rep_subforest:
  "rep N par prev nx f \<Longrightarrow> distinct (ixs f) \<Longrightarrow> x \<in> set (ixs f) \<Longrightarrow> rep N (Some x) None None (subforest x f)"
  by (induction N par prev nx f rule: rep.induct) auto

definition root_ix :: "'a rose \<Rightarrow> nat" where
  "root_ix r = (case r of Rose i _ _ \<Rightarrow> i)"

lemma children_represents:
  assumes "represents t f" "\<And>p. par = Some p \<Longrightarrow> p \<in> set (ixs f)"
  shows "children t par = Some (map root_ix (case par of None \<Rightarrow> f | Some p \<Rightarrow> subforest p f))"
proof -
  have R: "rep (nodes t) None None None f" "distinct (ixs f)" "first_root t = head_ix f None"
    using assms(1) by (simp_all add: represents_def)
  have sib: "siblings (nodes t) (head_ix g None) = Some (map root_ix g)" if "rep (nodes t) q r None g" for g q r
    using siblings_rep [OF that] by (simp add: root_ix_def [abs_def])
  show ?thesis
  proof (cases par)
    case None
    with R sib [OF R(1)] show ?thesis by (simp add: children_def)
  next
    case (Some p)
    with assms(2) have p: "p \<in> set (ixs f)" by simp
    with Some subforest_first_child [OF R(1,2) p] sib [OF rep_subforest [OF R(1,2) p]] show ?thesis
      by (auto simp: children_def)
  qed
qed

lemma subforest_insert:
  "distinct (ixs f) \<Longrightarrow> p \<in> set (ixs f) \<Longrightarrow> k \<notin> set (ixs f) \<Longrightarrow>
     subforest p (forest_insert p (Rose k d []) f) = Rose k d [] # subforest p f"
  by (induction p "Rose k d []" f rule: forest_insert.induct) (auto simp: set_forest_insert)

lemma preorder_parent_before:
  "rep N par prev nx f \<Longrightarrow> preorder f = ys @ (n, d) # zs \<Longrightarrow> map_option parent (N n) = Some (Some p) \<Longrightarrow>
     par = Some p \<or> p \<in> fst ` set ys"
proof (induction f arbitrary: par prev nx ys zs rule: preorder.induct)
  case (2 i e cs ts)
  show ?case
  proof (cases ys)
    case Nil
    with 2(3-5) show ?thesis by auto
  next
    case (Cons y ys')
    then have y: "y = (i, e)" and split: "preorder cs @ preorder ts = ys' @ (n, d) # zs" using 2(4) by simp_all
    from split consider (left) zs' where "preorder cs = ys' @ (n, d) # zs'"
      | (right) ys'' where "ys' = preorder cs @ ys''" "preorder ts = ys'' @ (n, d) # zs"
      by (auto simp: append_eq_append_conv2 append_eq_Cons_conv)
    then show ?thesis
    proof cases
      case left
      with 2(1) [OF _ left 2(5)] 2(3) Cons y show ?thesis by auto
    next
      case right
      with 2(2) [OF _ right(2) 2(5)] 2(3) Cons show ?thesis by auto
    qed
  qed
qed simp

lemma prune_ancestors_effect:
  assumes "fork_tree_reachable t" "x \<in> dom (nodes t)"
  shows "\<exists>t' pns. prune_ancestors t x = Some (t', pns) \<and>
    (\<forall>n. fork_tree_get t' n =
      (if n \<noteq> x \<and> is_ancestor (nodes t) x n = Some True then fork_tree_get t n else None)) \<and>
    distinct (map pruned_index pns) \<and>
    set (map entry pns) = {(n, d). fork_tree_get t n = Some d \<and> fork_tree_get t' n = None} \<and>
    node_to_root_path (nodes t) x = Some (map pruned_index (filter pruned_is_target_ancestor pns))"
proof -
  obtain f where f: "represents t f" using reachable_represents [OF assms(1)] by blast
  then have d: "distinct (ixs f)" and x: "x \<in> set (ixs f)" using assms(2) by (simp_all add: represents_def)
  obtain p where p: "path_to x f = Some p" "node_to_root_path (nodes t) x = Some (rev p)"
    using represents_path [OF f assms(2)] by metis
  obtain t' where t': "prune_ancestors t x = Some (t', pruned_by_ancestors x f)" "represents t' (subforest x f)"
    using prune_ancestors_represents [OF f x] by blast
  note part = part_get [OF f t'(2) pruned_by_ancestors_mset [OF d]]
  have "n \<in> set (ixs (subforest x f)) \<longleftrightarrow> n \<noteq> x \<and> is_ancestor (nodes t) x n = Some True" for n
  proof (cases "n \<in> set (ixs f)")
    case True
    then obtain q where q: "path_to n f = Some q" using path_to_None [of n f] by fastforce
    with subforest_ixs [OF d q] is_ancestor_represents [OF f q] show ?thesis by simp
  next
    case False
    with f subforest_subset [of x f] show ?thesis by (auto simp: is_ancestor_def represents_def)
  qed
  moreover have "map fst (map entry pns) = map pruned_index pns" for pns :: "'a pruned_node list"
    by (simp add: entry_def)
  ultimately show ?thesis
    using t'(1) part pruned_by_ancestors_flagged [OF p(1) d] p(2)
    by (intro exI [of _ t'] exI [of _ "pruned_by_ancestors x f"]) (simp only: simp_thms)
qed

lemma prune_uncles_effect:
  assumes "fork_tree_reachable t" "x \<in> dom (nodes t)"
  shows "\<exists>t' pns. prune_uncles t x = Some (t', pns) \<and>
    (\<forall>n. fork_tree_get t' n =
      (if is_ancestor (nodes t) x n = Some True \<or> is_ancestor (nodes t) n x = Some True
       then fork_tree_get t n else None)) \<and>
    distinct (map pruned_index pns) \<and>
    set (map entry pns) = {(n, d). fork_tree_get t n = Some d \<and> fork_tree_get t' n = None} \<and>
    filter pruned_is_target_ancestor pns = []"
proof -
  obtain f where f: "represents t f" using reachable_represents [OF assms(1)] by blast
  then have d: "distinct (ixs f)" and x: "x \<in> set (ixs f)" using assms(2) by (simp_all add: represents_def)
  obtain p where p: "path_to x f = Some p" "last p = x" "p \<noteq> []"
    using represents_path [OF f assms(2)] by metis
  obtain t' where t': "prune_uncles t x = Some (t', pruned_by_uncles x f)" "represents t' (kept_path x f)"
    using prune_uncles_represents [OF f x] by blast
  note part = part_get [OF f t'(2) pruned_by_uncles_mset [OF d]]
  have "n \<in> set (ixs (kept_path x f)) \<longleftrightarrow>
      is_ancestor (nodes t) x n = Some True \<or> is_ancestor (nodes t) n x = Some True" for n
  proof (cases "n \<in> set (ixs f)")
    case True
    then obtain q where q: "path_to n f = Some q" using path_to_None [of n f] by fastforce
    have "n \<in> set p" if "n = x" using that p by (metis last_in_set)
    with kept_path_ixs [OF d p(1)] subforest_ixs [OF d q] is_ancestor_represents [OF f q]
      is_ancestor_represents [OF f p(1)] show ?thesis by auto
  next
    case False
    with f kept_path_subset [of x f] path_to_in [OF p(1)] is_ancestor_represents [OF f p(1)] show ?thesis
      by (auto simp: is_ancestor_def [of _ x n] represents_def)
  qed
  moreover have "map fst (map entry pns) = map pruned_index pns" for pns :: "'a pruned_node list"
    by (simp add: entry_def)
  moreover have "filter pruned_is_target_ancestor (pruned_by_uncles x f) = []"
    using pruned_by_uncles_unflagged by (auto simp: filter_empty_conv)
  ultimately show ?thesis
    using t'(1) part by (intro exI [of _ t'] exI [of _ "pruned_by_uncles x f"]) (simp only: simp_thms)
qed

section \<open>What pruning leaves of the links\<close>

text \<open>The pairs of a child and its parent.\<close>

fun edges :: "'a rose list \<Rightarrow> (nat \<times> nat) set" where
  "edges [] = {}"
| "edges (Rose i d cs # ts) = (\<lambda>c. (root_ix c, i)) ` set cs \<union> edges cs \<union> edges ts"

lemma rep_edge_parent: "rep N par prev nx f \<Longrightarrow> (n, p) \<in> edges f \<Longrightarrow> map_option parent (N n) = Some (Some p)"
proof (induction f arbitrary: par prev nx rule: edges.induct)
  case (2 i d cs ts)
  have top: "map_option parent (N (root_ix c)) = Some q" if "rep N q r None g" "c \<in> set g" for q r g c
    using that by (induction g arbitrary: r rule: preorder.induct) (auto simp: root_ix_def)
  from 2(4) consider c where "c \<in> set cs" "n = root_ix c" "p = i" | "(n, p) \<in> edges cs" | "(n, p) \<in> edges ts" by auto
  then show ?case
  proof cases
    case 1
    with top [of "Some i" None cs] 2(3) show ?thesis by simp
  qed (use 2 in auto)
qed simp

lemma rep_parent_edge:
  "rep N par prev nx f \<Longrightarrow> n \<in> set (ixs f) \<Longrightarrow> map_option parent (N n) = Some (Some p) \<Longrightarrow>
     (n, p) \<in> edges f \<or> (par = Some p \<and> n \<in> root_ix ` set f)"
proof (induction f arbitrary: par prev nx rule: edges.induct)
  case (2 i d cs ts)
  then consider "n = i" | "n \<in> set (ixs cs)" | "n \<in> set (ixs ts)" by auto
  then show ?case
  proof cases
    case 1
    with 2(3,5) show ?thesis by (auto simp: root_ix_def)
  next
    case 2
    with \<open>rep N par prev nx (Rose i d cs # ts)\<close> "2.IH"(1) [of "Some i" None None] "2.prems"(3) show ?thesis by auto
  next
    case 3
    with \<open>rep N par prev nx (Rose i d cs # ts)\<close> "2.IH"(2) [of par "Some i" nx] "2.prems"(3) show ?thesis by auto
  qed
qed simp

lemma represents_parent: "represents t f \<Longrightarrow> fork_tree_parent t n = Some (Some p) \<longleftrightarrow> (n, p) \<in> edges f"
proof
  assume R: "represents t f" and p: "fork_tree_parent t n = Some (Some p)"
  then have "n \<in> set (ixs f)" by (auto simp: fork_tree_parent_def represents_def)
  with rep_parent_edge [of "nodes t" None None None f n p] R p show "(n, p) \<in> edges f"
    by (simp add: represents_def fork_tree_parent_def)
next
  assume "represents t f" "(n, p) \<in> edges f"
  then show "fork_tree_parent t n = Some (Some p)"
    using rep_edge_parent [of "nodes t" None None None f n p] by (simp add: represents_def fork_tree_parent_def)
qed

lemma edges_ixs: "(n, p) \<in> edges f \<Longrightarrow> p \<in> set (ixs f)"
  by (induction f rule: edges.induct) auto

lemma edges_subforest: "edges (subforest x f) \<subseteq> edges f"
  by (induction x f rule: subforest.induct) auto

lemma parent_in_tree:
  assumes "fork_tree_reachable t" "fork_tree_parent t n = Some (Some p)"
  shows "p \<in> dom (nodes t)"
proof -
  obtain f where "represents t f" using reachable_represents [OF assms(1)] by blast
  with assms(2) represents_parent [of t f n p] edges_ixs [of n p f] show ?thesis by (simp add: represents_def)
qed

lemma prune_ancestors_parent:
  assumes "fork_tree_reachable t" "x \<in> dom (nodes t)" "prune_ancestors t x = Some (t', pns)"
    and "fork_tree_parent t' n = Some (Some p)"
  shows "fork_tree_parent t n = Some (Some p)"
proof -
  obtain f where f: "represents t f" using reachable_represents [OF assms(1)] by blast
  then have "x \<in> set (ixs f)" using assms(2) by (simp add: represents_def)
  with prune_ancestors_represents [OF f] assms(3) have "represents t' (subforest x f)" by fastforce
  with assms(4) represents_parent edges_subforest [of x f] f show ?thesis by blast
qed

lemma reachable_finite: "fork_tree_reachable t \<Longrightarrow> finite (dom (nodes t))"
  using reachable_represents by (force simp: represents_def)

lemma iter_unordered_spec:
  assumes "slab_order keys" "fork_tree_reachable t"
  shows "set (iter_unordered keys t) = {(i, d). fork_tree_get t i = Some d}"
    and "distinct (map fst (iter_unordered keys t))"
    and "set (map fst (iter_unordered keys t)) = dom (nodes t)"
proof -
  have k: "distinct (keys (nodes t))" "set (keys (nodes t)) = dom (nodes t)"
    using assms reachable_finite by (auto simp: slab_order_def)
  show s: "set (iter_unordered keys t) = {(i, d). fork_tree_get t i = Some d}"
    using k(2) by (auto simp: iter_unordered_def set_map_filter fork_tree_get_def)
  have "map fst (iter_unordered keys t) = filter (\<lambda>i. fork_tree_get t i \<noteq> None) (keys (nodes t))"
    unfolding iter_unordered_def by (rule map_filter_pairs)
  then show "distinct (map fst (iter_unordered keys t))" using k(1) by simp
  show "set (map fst (iter_unordered keys t)) = dom (nodes t)"
    unfolding set_map s by (auto simp: image_iff fork_tree_get_def)
qed

section \<open>A sample\<close>

text \<open>A small tree, on which the properties are instantiated: 0 with children 2 and 1, and 3 below 1.\<close>

definition sample_tree :: "string fork_tree" where
  "sample_tree =
     (let ins = (\<lambda>k par d t. fst (the (fork_tree_insert k t par d)))
      in ins 3 (Some 1) ''d'' (ins 2 (Some 0) ''c'' (ins 1 (Some 0) ''b'' (ins 0 None ''a'' fork_tree_new))))"

lemma insert_step:
  assumes "fork_tree_reachable t" "represents t f" "nodes t k = None" "\<And>p. par = Some p \<Longrightarrow> p \<in> set (ixs f)"
  shows "fork_tree_reachable (fst (the (fork_tree_insert k t par d))) \<and>
    represents (fst (the (fork_tree_insert k t par d)))
      (case par of None \<Rightarrow> Rose k d [] # f | Some p \<Rightarrow> forest_insert p (Rose k d []) f)"
proof -
  obtain t' where "fork_tree_insert k t par d = Some (t', k)"
    using insert_root_represents [OF assms(2,3), of d] insert_child_represents [OF assms(2,3) assms(4), of _ d]
    by (cases par) auto
  with insert_represents [OF assms(2,3) this] fork_tree_reachable.insert [OF assms(1,3) this] show ?thesis by simp
qed

lemma sample_tree_reachable: "fork_tree_reachable sample_tree"
  and sample_tree_represents:
    "represents sample_tree [Rose 0 ''a'' [Rose 2 ''c'' [], Rose 1 ''b'' [Rose 3 ''d'' []]]]"
proof -
  have vacant: "represents t f \<Longrightarrow> k \<notin> set (ixs f) \<Longrightarrow> nodes t k = None" for t :: "string fork_tree" and f k
    using represents_dom [of t f k] by auto
  define t0 where "t0 = fst (the (fork_tree_insert 0 fork_tree_new None ''a''))"
  define t1 where "t1 = fst (the (fork_tree_insert 1 t0 (Some 0) ''b''))"
  define t2 where "t2 = fst (the (fork_tree_insert 2 t1 (Some 0) ''c''))"
  have 0: "fork_tree_reachable t0 \<and> represents t0 [Rose 0 ''a'' []]"
    using insert_step [OF new represents_new, of 0 None "''a''"] by (simp add: fork_tree_new_def t0_def)
  then have 1: "fork_tree_reachable t1 \<and> represents t1 [Rose 0 ''a'' [Rose 1 ''b'' []]]"
    using insert_step [of t0 _ 1 "Some 0" "''b''", OF _ _ vacant] by (fastforce simp: t1_def)
  then have 2: "fork_tree_reachable t2 \<and> represents t2 [Rose 0 ''a'' [Rose 2 ''c'' [], Rose 1 ''b'' []]]"
    using insert_step [of t1 _ 2 "Some 0" "''c''", OF _ _ vacant] by (fastforce simp: t2_def)
  then have "fork_tree_reachable sample_tree \<and>
      represents sample_tree [Rose 0 ''a'' [Rose 2 ''c'' [], Rose 1 ''b'' [Rose 3 ''d'' []]]]"
    using insert_step [of t2 _ 3 "Some 1" "''d''", OF _ _ vacant]
    by (fastforce simp: sample_tree_def Let_def t0_def t1_def t2_def)
  then show "fork_tree_reachable sample_tree"
    "represents sample_tree [Rose 0 ''a'' [Rose 2 ''c'' [], Rose 1 ''b'' [Rose 3 ''d'' []]]]" by simp_all
qed

lemma sample_tree_dom: "dom (nodes sample_tree) = {0, 1, 2, 3}"
  using sample_tree_represents by (auto simp: represents_def)

section \<open>Properties\<close>

text \<open>
  C2: pruning a node and its ancestors keeps exactly the strict descendants of the node, with their
  user data; every other node is yielded exactly once, with its user data, and the nodes flagged
  as the target or its ancestors are yielded in the order of \<^verbatim>\<open>node_to_root_path\<close>.
\<close>

theorem prune_ancestors_keeps_descendants:
  assumes "fork_tree_reachable t" "x \<in> dom (nodes t)"
  shows "\<exists>t' pns. prune_ancestors t x = Some (t', pns) \<and>
    (\<forall>n. fork_tree_get t' n =
      (if n \<noteq> x \<and> is_ancestor (nodes t) x n = Some True then fork_tree_get t n else None)) \<and>
    distinct (map pruned_index pns) \<and>
    set (map entry pns) = {(n, d). fork_tree_get t n = Some d \<and> fork_tree_get t' n = None} \<and>
    node_to_root_path (nodes t) x = Some (map pruned_index (filter pruned_is_target_ancestor pns))"
  by (rule prune_ancestors_effect [OF assms])

theorem prune_ancestors_keeps_descendants_witness:
  "\<exists>t' pns. prune_ancestors sample_tree 1 = Some (t', pns) \<and>
    node_to_root_path (nodes sample_tree) 1 = Some (map pruned_index (filter pruned_is_target_ancestor pns))"
  using prune_ancestors_keeps_descendants [OF sample_tree_reachable, of 1] sample_tree_dom by auto

text \<open>
  C11: pruning the uncles of a node keeps exactly the node, its ancestors and its descendants, with
  their user data; every other node is yielded exactly once, and none is flagged.
\<close>

theorem prune_uncles_keeps_lineage:
  assumes "fork_tree_reachable t" "x \<in> dom (nodes t)"
  shows "\<exists>t' pns. prune_uncles t x = Some (t', pns) \<and>
    (\<forall>n. fork_tree_get t' n =
      (if is_ancestor (nodes t) x n = Some True \<or> is_ancestor (nodes t) n x = Some True
       then fork_tree_get t n else None)) \<and>
    distinct (map pruned_index pns) \<and>
    set (map entry pns) = {(n, d). fork_tree_get t n = Some d \<and> fork_tree_get t' n = None} \<and>
    filter pruned_is_target_ancestor pns = []"
  by (rule prune_uncles_effect [OF assms])

theorem prune_uncles_keeps_lineage_witness:
  "\<exists>t' pns. prune_uncles sample_tree 1 = Some (t', pns) \<and>
    set (map entry pns) = {(n, d). fork_tree_get sample_tree n = Some d \<and> fork_tree_get t' n = None}"
  using prune_uncles_keeps_lineage [OF sample_tree_reachable, of 1] sample_tree_dom by auto

text \<open>
  C13: \<^verbatim>\<open>common_ancestor\<close> never reaches its \<^verbatim>\<open>unreachable!()\<close>, and what it returns is the deepest common
  ancestor: the common ancestors of the two nodes are exactly the ancestors of the result, and
  there are none when it returns nothing.
\<close>

theorem common_ancestor_deepest:
  assumes "fork_tree_reachable t" "a \<in> dom (nodes t)" "b \<in> dom (nodes t)"
  shows "\<exists>r. common_ancestor (nodes t) a b = Some r \<and>
    (\<forall>v. is_ancestor (nodes t) v a = Some True \<and> is_ancestor (nodes t) v b = Some True \<longleftrightarrow>
       (\<exists>c. r = Some c \<and> is_ancestor (nodes t) v c = Some True))"
proof -
  obtain f where f: "represents t f" using reachable_represents [OF assms(1)] by blast
  then have d: "distinct (ixs f)" by (simp add: represents_def)
  obtain p where p: "path_to a f = Some p" using represents_path [OF f assms(2)] by metis
  obtain q where q: "path_to b f = Some q" using represents_path [OF f assms(3)] by metis
  let ?l = "longest_common_prefix p q"
  have "v \<in> set p \<and> v \<in> set q \<longleftrightarrow> v \<in> set ?l" for v using lcp_common(1) [OF d p q] by blast
  moreover have "is_ancestor (nodes t) v (last ?l) = Some (v \<in> set ?l)" if "?l \<noteq> []" for v
    using is_ancestor_represents [OF f lcp_common(2) [OF d p q that]] .
  ultimately show ?thesis
    using common_ancestor_represents [OF f p q] is_ancestor_represents [OF f p] is_ancestor_represents [OF f q]
    by (cases "?l = []") (auto simp: Let_def)
qed

theorem common_ancestor_deepest_witness:
  "\<exists>r. common_ancestor (nodes sample_tree) 2 3 = Some r \<and>
    (\<forall>v. is_ancestor (nodes sample_tree) v 2 = Some True \<and> is_ancestor (nodes sample_tree) v 3 = Some True \<longleftrightarrow>
       (\<exists>c. r = Some c \<and> is_ancestor (nodes sample_tree) v c = Some True))"
  using common_ancestor_deepest [OF sample_tree_reachable, of 2 3] sample_tree_dom by simp

text \<open>
  C26: \<^verbatim>\<open>ascend_and_descend\<close> goes up from the first node to just below the common ancestor and down
  from there to the second node: with the path \<open>up\<close> and \<open>down\<close> it returns and the common part \<open>l\<close> of
  the two paths to the root, the path of the first node is \<open>l\<close> and \<open>up\<close> reversed, that of the
  second is \<open>l\<close> and \<open>down\<close>, they share no node beyond \<open>l\<close>, and \<open>l\<close> ends in the common ancestor.
\<close>

theorem ascend_and_descend_meets:
  assumes "fork_tree_reachable t" "a \<in> dom (nodes t)" "b \<in> dom (nodes t)" "M \<notin> dom (nodes t)"
  shows "\<exists>l up down. ascend_and_descend M (nodes t) a b = Some (up, down) \<and>
    node_to_root_path (nodes t) a = Some (up @ rev l) \<and> root_to_node_path M (nodes t) b = Some (l @ down) \<and>
    set up \<inter> set down = {} \<and>
    common_ancestor (nodes t) a b = Some (if l = [] then None else Some (last l))"
proof -
  obtain f where f: "represents t f" using reachable_represents [OF assms(1)] by blast
  then have d: "distinct (ixs f)" by (simp add: represents_def)
  obtain p where p: "path_to a f = Some p" using represents_path [OF f assms(2)] by metis
  obtain q where q: "path_to b f = Some q" using represents_path [OF f assms(3)] by metis
  define l where "l = longest_common_prefix p q"
  obtain r1 r2 where r: "p = l @ r1" "q = l @ r2" using lcp_splits [of p q, folded l_def] by blast
  have "ascend_and_descend M (nodes t) a b = Some (rev r1, r2)"
    by (rule ascend_and_descend_represents [OF f p q assms(4), folded l_def]) (rule r)+
  moreover have "distinct p" using path_to_distinct [OF p d] .
  then have "set (rev r1) \<inter> set r2 = {}"
    using lcp_common(1) [OF d p q, folded l_def] r by auto
  moreover have "common_ancestor (nodes t) a b = Some (if l = [] then None else Some (last l))"
    using common_ancestor_represents [OF f p q, folded l_def] by (simp add: Let_def)
  ultimately show ?thesis
    using node_to_root_path_represents [OF f p] root_to_node_path_represents [OF f q assms(4)] r
    by (intro exI [of _ l] exI [of _ "rev r1"] exI [of _ r2]) (simp only: simp_thms rev_append rev_rev_ident)
qed

theorem ascend_and_descend_meets_witness:
  "\<exists>l up down. ascend_and_descend 18446744073709551615 (nodes sample_tree) 2 3 = Some (up, down) \<and>
    node_to_root_path (nodes sample_tree) 2 = Some (up @ rev l)"
proof -
  have "2 \<in> dom (nodes sample_tree)" "3 \<in> dom (nodes sample_tree)" "18446744073709551615 \<notin> dom (nodes sample_tree)"
    unfolding sample_tree_dom by simp_all
  from ascend_and_descend_meets [OF sample_tree_reachable this] show ?thesis by blast
qed

text \<open>A node above the other one is the common ancestor, and is in neither of the two iterators.\<close>

lemma ascend_from_ancestor:
  assumes "represents t f" "path_to a f = Some p" "path_to b f = Some (p @ q)" "M \<notin> dom (nodes t)"
  shows "ascend_and_descend M (nodes t) a b = Some ([], q)"
proof -
  have "longest_common_prefix p (p @ q) = p" by (induction p) simp_all
  with ascend_and_descend_represents [OF assms, of "[]" q] show ?thesis by simp
qed

text \<open>
  C27: inserting below a node of the tree, or as a root, succeeds; it adds the new node as the first
  child of its parent and changes no user data and no parent of another node.
\<close>

theorem insert_adds_first_child:
  assumes "fork_tree_reachable t" "nodes t k = None" "case par of None \<Rightarrow> True | Some p \<Rightarrow> p \<in> dom (nodes t)"
  shows "\<exists>t' cs. fork_tree_insert k t par d = Some (t', k) \<and>
    fork_tree_get t' = (fork_tree_get t)(k \<mapsto> d) \<and> fork_tree_parent t' = (fork_tree_parent t)(k \<mapsto> par) \<and>
    children t par = Some cs \<and> children t' par = Some (k # cs)"
proof -
  obtain f where f: "represents t f" using reachable_represents [OF assms(1)] by blast
  then have dist: "distinct (ixs f)" and k: "k \<notin> set (ixs f)" using assms(2) by (auto simp: represents_def)
  have par: "p \<in> set (ixs f)" if "par = Some p" for p using that assms(3) f by (simp add: represents_def)
  obtain t' where t': "fork_tree_insert k t par d = Some (t', k)"
    using insert_root_represents [OF f assms(2), of d] insert_child_represents [OF f assms(2) par, of _ d]
    by (cases par) auto
  define g where "g = (case par of None \<Rightarrow> Rose k d [] # f | Some p \<Rightarrow> forest_insert p (Rose k d []) f)"
  have g: "represents t' g" using insert_represents [OF f assms(2) t'] by (simp add: g_def)
  have "children t' par = Some (map root_ix (case par of None \<Rightarrow> g | Some p \<Rightarrow> subforest p g))"
    by (rule children_represents [OF g]) (use par set_forest_insert [OF dist] in \<open>auto simp: g_def\<close>)
  also have "\<dots> = Some (k # map root_ix (case par of None \<Rightarrow> f | Some p \<Rightarrow> subforest p f))"
    using par subforest_insert [OF dist _ k] by (auto simp: g_def root_ix_def split: option.splits)
  finally have "children t' par = Some (k # map root_ix (case par of None \<Rightarrow> f | Some p \<Rightarrow> subforest p f))" .
  moreover have "fork_tree_get t' = (fork_tree_get t)(k \<mapsto> d)" "fork_tree_parent t' = (fork_tree_parent t)(k \<mapsto> par)"
    using insert_fields [OF t'] by (simp_all add: fork_tree_get_def fork_tree_parent_def fun_eq_iff)
  ultimately show ?thesis using t' children_represents [OF f par] by blast
qed

theorem insert_adds_first_child_witness:
  "\<exists>t' cs. fork_tree_insert 7 sample_tree (Some 0) ''e'' = Some (t', 7) \<and>
    fork_tree_get t' = (fork_tree_get sample_tree)(7 \<mapsto> ''e'') \<and>
    children sample_tree (Some 0) = Some cs \<and> children t' (Some 0) = Some (7 # cs)"
proof -
  have "7 \<notin> dom (nodes sample_tree)" "0 \<in> dom (nodes sample_tree)" unfolding sample_tree_dom by simp_all
  then have "nodes sample_tree 7 = None" "case Some 0 of None \<Rightarrow> True | Some p \<Rightarrow> p \<in> dom (nodes sample_tree)" by auto
  from insert_adds_first_child [OF sample_tree_reachable this, of "''e''"] show ?thesis by blast
qed

text \<open>
  C28: \<^verbatim>\<open>iter_ancestry_order\<close> ends, yields every node of the tree exactly once with its user data, and
  yields the parent of a node before the node.
\<close>

theorem iteration_in_ancestry_order:
  assumes "fork_tree_reachable t"
  shows "\<exists>xs. iter_ancestry_order t = Some xs \<and> distinct (map fst xs) \<and>
    set xs = {(n, d). fork_tree_get t n = Some d} \<and>
    (\<forall>ys n d zs p. xs = ys @ (n, d) # zs \<and> fork_tree_parent t n = Some (Some p) \<longrightarrow> p \<in> fst ` set ys)"
proof -
  obtain f where f: "represents t f" using reachable_represents [OF assms] by blast
  then have R: "rep (nodes t) None None None f" "distinct (ixs f)" by (simp_all add: represents_def)
  have "set (preorder f) = {(n, d). fork_tree_get t n = Some d}" using represents_get [OF f] by auto
  moreover have "p \<in> fst ` set ys" if "preorder f = ys @ (n, d) # zs" "fork_tree_parent t n = Some (Some p)" for ys n d zs p
    using preorder_parent_before [OF R(1) that(1)] that(2) by (simp add: fork_tree_parent_def)
  moreover have "distinct (map fst (preorder f))" using R(2) by (simp add: ixs_def)
  ultimately show ?thesis using iter_ancestry_order_represents [OF f] by blast
qed

theorem iteration_in_ancestry_order_witness:
  "\<exists>xs. iter_ancestry_order sample_tree = Some xs \<and> set xs = {(n, d). fork_tree_get sample_tree n = Some d}"
  using iteration_in_ancestry_order [OF sample_tree_reachable] by blast

end
