(* ===== verification/Rust_Collections.thy ===== *)
theory Rust_Collections
  imports Smoldot_Prelude "HOL-Library.AList"
begin

text \<open>
  The collections of Rust's standard library (and \<^verbatim>\<open>hashbrown\<close>'s hash map, which is the one of the
  standard library) that several components use. A \<^verbatim>\<open>BTreeMap\<close> is an association list sorted by
  key, a \<^verbatim>\<open>BTreeSet\<close> a sorted list. A \<^verbatim>\<open>HashMap\<close> is an association list without duplicate keys;
  the order of the list stands for the unspecified order in which the hash table iterates.
  The laws that clients use of a map are a locale, interpreted for both.
\<close>

text \<open>A hash, an array of 32 bytes.\<close>

type_synonym block_hash = "256 word"

section \<open>Ordered maps\<close>

fun btree_insert :: "'k::linorder \<Rightarrow> 'v \<Rightarrow> ('k \<times> 'v) list \<Rightarrow> ('k \<times> 'v) list" where
  "btree_insert k v [] = [(k, v)]"
| "btree_insert k v ((k', v') # m) =
     (if k < k' then (k, v) # (k', v') # m
      else if k = k' then (k, v) # m
      else (k', v') # btree_insert k v m)"

definition btree_remove :: "'k::linorder \<Rightarrow> ('k \<times> 'v) list \<Rightarrow> ('k \<times> 'v) list" where
  "btree_remove k m = filter (\<lambda>(k', v). k' \<noteq> k) m"

text \<open>\<^verbatim>\<open>range\<close> with the bound excluded, and included, on the left and none on the right.\<close>

definition btree_after :: "'k::linorder \<Rightarrow> ('k \<times> 'v) list \<Rightarrow> ('k \<times> 'v) list" where
  "btree_after k m = filter (\<lambda>(k', v). k < k') m"

definition btree_from :: "'k::linorder \<Rightarrow> ('k \<times> 'v) list \<Rightarrow> ('k \<times> 'v) list" where
  "btree_from k m = filter (\<lambda>(k', v). k \<le> k') m"

text \<open>\<^verbatim>\<open>range\<close> with both bounds included.\<close>

definition btree_range :: "'k::linorder \<Rightarrow> 'k \<Rightarrow> ('k \<times> 'v) list \<Rightarrow> ('k \<times> 'v) list" where
  "btree_range lo hi m = filter (\<lambda>(k, v). lo \<le> k \<and> k \<le> hi) m"

definition btree_ok :: "('k::linorder \<times> 'v) list \<Rightarrow> bool" where
  "btree_ok m \<longleftrightarrow> sorted_wrt (<) (map fst m)"

text \<open>The first element of an iterator.\<close>

definition first :: "'a list \<Rightarrow> 'a option" where
  "first xs = (case xs of [] \<Rightarrow> None | x # _ \<Rightarrow> Some x)"

lemma first_simps [simp]: "first [] = None" "first (x # xs) = Some x"
  by (simp_all add: first_def)

lemma first_None [simp]: "first xs = None \<longleftrightarrow> xs = []"
  by (cases xs) simp_all

lemma first_in: "first xs = Some x \<Longrightarrow> x \<in> set xs"
  by (cases xs) simp_all

lemma btree_ok_Nil [simp]: "btree_ok []"
  by (simp add: btree_ok_def)

lemma btree_ok_Cons: "btree_ok ((k, v) # m) \<longleftrightarrow> (\<forall>(k', v') \<in> set m. k < k') \<and> btree_ok m"
  by (auto simp: btree_ok_def)

lemma btree_ok_distinct: "btree_ok m \<Longrightarrow> distinct (map fst m)"
  by (simp add: btree_ok_def strict_sorted_iff)

lemma set_btree_insert: "set (btree_insert k v m) \<subseteq> insert (k, v) (set m)"
  by (induction k v m rule: btree_insert.induct) auto

lemma btree_insert_ok [simp]: "btree_ok m \<Longrightarrow> btree_ok (btree_insert k v m)"
proof (induction k v m rule: btree_insert.induct)
  case (2 k v k' v' m)
  then show ?case using set_btree_insert [of k v m] by (fastforce simp: btree_ok_Cons)
qed (simp add: btree_ok_Cons)

lemma btree_filter_ok [simp]: "btree_ok m \<Longrightarrow> btree_ok (filter P m)"
  by (induction m) (auto simp: btree_ok_Cons)

lemma btree_remove_ok [simp]: "btree_ok m \<Longrightarrow> btree_ok (btree_remove k m)"
  by (simp add: btree_remove_def)

lemma btree_after_ok [simp]: "btree_ok m \<Longrightarrow> btree_ok (btree_after k m)"
  by (simp add: btree_after_def)

lemma map_of_btree_insert [simp]: "map_of (btree_insert k v m) = (map_of m)(k \<mapsto> v)"
  by (induction k v m rule: btree_insert.induct) (auto simp: fun_eq_iff)

lemma map_of_btree_remove [simp]: "map_of (btree_remove k m) = (map_of m)(k := None)"
  by (induction m) (auto simp: btree_remove_def fun_eq_iff)

lemma btree_get_iff: "btree_ok m \<Longrightarrow> map_of m k = Some v \<longleftrightarrow> (k, v) \<in> set m"
  by (metis btree_ok_distinct map_of_eq_Some_iff)

lemma btree_ok_append: "btree_ok (xs @ ys) \<longleftrightarrow>
    btree_ok xs \<and> btree_ok ys \<and> (\<forall>(k, v) \<in> set xs. \<forall>(k', v') \<in> set ys. k < k')"
  by (fastforce simp: btree_ok_def sorted_wrt_append)

text \<open>The first entry of a part of a map is the one with the least key.\<close>

lemma first_filter_least:
  assumes "btree_ok m" "first (filter P m) = Some (k, v)"
  shows "map_of m k = Some v \<and> P (k, v) \<and> (\<forall>k' v'. map_of m k' = Some v' \<and> P (k', v') \<longrightarrow> k \<le> k')"
proof -
  from assms(2) obtain rest where f: "filter P m = (k, v) # rest" by (cases "filter P m") simp_all
  have part: "set ((k, v) # rest) = {x \<in> set m. P x}" using arg_cong [OF f, of set] by simp
  then have "(k, v) \<in> set m" "P (k, v)" by auto
  moreover have "k \<le> k'" if "(k', v') \<in> set m" "P (k', v')" for k' v'
  proof -
    have "(k', v') \<in> set ((k, v) # rest)" using that unfolding part by simp
    moreover have "btree_ok ((k, v) # rest)" using assms(1) f by (metis btree_filter_ok)
    ultimately show ?thesis by (auto simp: btree_ok_Cons)
  qed
  ultimately show ?thesis using btree_get_iff [OF assms(1)] by blast
qed

lemma first_filter_none:
  assumes "btree_ok m" "first (filter P m) = None"
  shows "map_of m k = Some v \<Longrightarrow> \<not> P (k, v)"
  using assms btree_get_iff [OF assms(1), of k v] by (auto simp: filter_empty_conv)

text \<open>Collecting entries into a map, in the order in which they come.\<close>

definition btree_collect :: "('k::linorder \<times> 'v) list \<Rightarrow> ('k \<times> 'v) list" where
  "btree_collect xs = foldl (\<lambda>m (k, v). btree_insert k v m) [] xs"

section \<open>Ordered sets\<close>

definition btset_insert :: "'a::linorder \<Rightarrow> 'a list \<Rightarrow> 'a list" where
  "btset_insert x xs = map fst (btree_insert x () (map (\<lambda>y. (y, ())) xs))"

definition btset_remove :: "'a::linorder \<Rightarrow> 'a list \<Rightarrow> 'a list" where
  "btset_remove x xs = filter (\<lambda>y. y \<noteq> x) xs"

definition btset_range :: "'a::linorder \<Rightarrow> 'a \<Rightarrow> 'a list \<Rightarrow> 'a list" where
  "btset_range lo hi xs = filter (\<lambda>x. lo \<le> x \<and> x \<le> hi) xs"

definition btset_ok :: "'a::linorder list \<Rightarrow> bool" where
  "btset_ok xs \<longleftrightarrow> sorted_wrt (<) xs"

lemma btset_insert_simps [simp]:
  "btset_insert x [] = [x]"
  "btset_insert x (y # ys) = (if x < y then x # y # ys else if x = y then x # ys else y # btset_insert x ys)"
  by (simp_all add: btset_insert_def comp_def)

lemma set_btset_insert [simp]: "set (btset_insert x xs) = insert x (set xs)"
  by (induction xs) auto

lemma set_btset_remove [simp]: "set (btset_remove x xs) = set xs - {x}"
  by (auto simp: btset_remove_def)

lemma btset_ok_Nil [simp]: "btset_ok []"
  by (simp add: btset_ok_def)

lemma btset_insert_ok [simp]: "btset_ok xs \<Longrightarrow> btset_ok (btset_insert x xs)"
  by (induction xs) (auto simp: btset_ok_def)

lemma btset_filter_ok [simp]: "btset_ok xs \<Longrightarrow> btset_ok (filter P xs)"
  by (simp add: btset_ok_def sorted_wrt_filter)

lemma btset_remove_ok [simp]: "btset_ok xs \<Longrightarrow> btset_ok (btset_remove x xs)"
  by (simp add: btset_remove_def)

lemma set_btset_range [simp]: "set (btset_range lo hi xs) = {x \<in> set xs. lo \<le> x \<and> x \<le> hi}"
  by (simp add: btset_range_def)

lemma btset_range_ok [simp]: "btset_ok xs \<Longrightarrow> btset_ok (btset_range lo hi xs)"
  by (simp add: btset_range_def)

lemma btset_ok_distinct: "btset_ok xs \<Longrightarrow> distinct xs"
  by (simp add: btset_ok_def strict_sorted_iff)

section \<open>Hash maps\<close>

definition hash_insert :: "'k \<Rightarrow> 'v \<Rightarrow> ('k \<times> 'v) list \<Rightarrow> ('k \<times> 'v) list" where
  "hash_insert = AList.update"

definition hash_remove :: "'k \<Rightarrow> ('k \<times> 'v) list \<Rightarrow> ('k \<times> 'v) list" where
  "hash_remove = AList.delete"

definition hash_ok :: "('k \<times> 'v) list \<Rightarrow> bool" where
  "hash_ok m \<longleftrightarrow> distinct (map fst m)"

definition hash_collect :: "('k \<times> 'v) list \<Rightarrow> ('k \<times> 'v) list" where
  "hash_collect xs = foldl (\<lambda>m (k, v). hash_insert k v m) [] xs"

lemma map_of_hash_insert [simp]: "map_of (hash_insert k v m) = (map_of m)(k \<mapsto> v)"
  by (simp add: hash_insert_def update_conv')

lemma map_of_hash_remove [simp]: "map_of (hash_remove k m) = (map_of m)(k := None)"
  by (simp add: hash_remove_def delete_conv')

lemma hash_ok_Nil [simp]: "hash_ok []"
  by (simp add: hash_ok_def)

lemma hash_insert_ok [simp]: "hash_ok m \<Longrightarrow> hash_ok (hash_insert k v m)"
  by (simp add: hash_ok_def hash_insert_def distinct_update)

lemma hash_remove_ok [simp]: "hash_ok m \<Longrightarrow> hash_ok (hash_remove k m)"
  by (simp add: hash_ok_def hash_remove_def distinct_delete)

lemma hash_get_iff: "hash_ok m \<Longrightarrow> map_of m k = Some v \<longleftrightarrow> (k, v) \<in> set m"
  by (simp add: hash_ok_def)

section \<open>Association lists as vectors\<close>

text \<open>Entries found by \<^verbatim>\<open>position\<close> on their key, assigned to and removed by index.\<close>

lemma position_key:
  assumes "position (\<lambda>(b, _). b = a) xs = Some i"
  shows "i < length xs" "fst (xs ! i) = a"
  using position_SomeD [OF assms] by (auto simp: case_prod_unfold)

lemma position_key_None: "position (\<lambda>(b, _). b = a) xs = None \<longleftrightarrow> map_of xs a = None"
  by (force simp: map_of_eq_None_iff)

lemma map_of_list_update:
  "distinct (map fst xs) \<Longrightarrow> i < length xs \<Longrightarrow>
     map_of (xs[i := (fst (xs ! i), s)]) = (map_of xs)(fst (xs ! i) \<mapsto> s)"
proof (induction xs arbitrary: i)
  case (Cons x xs)
  show ?case
  proof (cases i)
    case (Suc j)
    then have "fst (xs ! j) \<in> fst ` set xs" using Cons.prems by simp
    with Suc Cons show ?thesis by (cases x) (auto simp: fun_eq_iff)
  qed (cases x, simp add: fun_eq_iff)
qed simp

lemma keys_list_update: "map fst (xs[i := (fst (xs ! i), s)]) = map fst xs"
  by (cases "i < length xs") (simp_all add: map_update list_update_same_conv list_update_beyond)

lemma map_of_vec_remove:
  assumes "distinct (map fst xs)" "i < length xs"
  shows "map_of (vec_remove i xs) = (map_of xs)(fst (xs ! i) := None)"
    and "distinct (map fst (vec_remove i xs))"
proof -
  obtain ys zs k v where xs: "xs = ys @ (k, v) # zs" and i: "i = length ys"
    using id_take_nth_drop [OF assms(2)] assms(2) by (metis length_take min.absorb4 surj_pair)
  then have rm: "vec_remove i xs = ys @ zs" "xs ! i = (k, v)" by (simp_all add: vec_remove_def)
  from assms(1) show "distinct (map fst (vec_remove i xs))" unfolding rm by (auto simp: xs)
  have "map_of ys k = None" "map_of zs k = None" using assms(1) xs by (auto simp: map_of_eq_None_iff)
  then show "map_of (vec_remove i xs) = (map_of xs)(fst (xs ! i) := None)"
    unfolding rm by (auto simp: xs map_add_def fun_eq_iff split: option.splits)
qed

section \<open>The contract of a map\<close>

locale rust_map =
  fixes empty :: "('k \<times> 'v) list"
    and insert :: "'k \<Rightarrow> 'v \<Rightarrow> ('k \<times> 'v) list \<Rightarrow> ('k \<times> 'v) list"
    and remove :: "'k \<Rightarrow> ('k \<times> 'v) list \<Rightarrow> ('k \<times> 'v) list"
    and ok :: "('k \<times> 'v) list \<Rightarrow> bool"
  assumes get_empty: "map_of empty = Map.empty"
    and get_insert: "map_of (insert k v m) = (map_of m)(k \<mapsto> v)"
    and get_remove: "map_of (remove k m) = (map_of m)(k := None)"
    and ok_empty: "ok empty"
    and ok_insert: "ok m \<Longrightarrow> ok (insert k v m)"
    and ok_remove: "ok m \<Longrightarrow> ok (remove k m)"
    and ok_distinct: "ok m \<Longrightarrow> distinct (map fst m)"
begin

text \<open>Inserting entries one after the other: the last one for a key counts.\<close>

lemma get_insert_all:
  "map_of (foldl (\<lambda>m (k, v). insert k v m) m0 xs) = map_of m0 ++ map_of (rev xs)"
  by (induction xs arbitrary: m0) (auto simp: get_insert map_add_def fun_eq_iff split: option.splits)

lemma ok_insert_all: "ok m0 \<Longrightarrow> ok (foldl (\<lambda>m (k, v). insert k v m) m0 xs)"
  by (induction xs arbitrary: m0) (auto simp: ok_insert)

text \<open>When no key occurs twice, the order does not matter.\<close>

lemma get_insert_all_distinct:
  "distinct (map fst xs) \<Longrightarrow> map_of (foldl (\<lambda>m (k, v). insert k v m) m0 xs) = map_of m0 ++ map_of xs"
proof -
  assume d: "distinct (map fst xs)"
  have "map_of (rev xs) k = map_of xs k" for k
  proof (cases "map_of xs k")
    case None
    then have "map_of (rev xs) k = None" unfolding map_of_eq_None_iff by simp
    with None show ?thesis by simp
  qed (use d in \<open>simp add: rev_map [symmetric]\<close>)
  then show ?thesis by (simp add: get_insert_all map_add_def)
qed

lemma get_iff: "ok m \<Longrightarrow> map_of m k = Some v \<longleftrightarrow> (k, v) \<in> set m"
  using ok_distinct by simp

end

interpretation bt: rust_map "[]" btree_insert btree_remove btree_ok
  by unfold_locales (simp_all add: btree_ok_distinct)

interpretation hm: rust_map "[]" hash_insert hash_remove hash_ok
  by unfold_locales (simp_all add: hash_ok_def [symmetric])

lemma map_of_hash_collect: "map_of (hash_collect xs) = map_of (rev xs)"
  using hm.get_insert_all [of "[]" xs] by (simp add: hash_collect_def)

lemma hash_collect_ok [simp]: "hash_ok (hash_collect xs)"
  by (simp add: hash_collect_def hm.ok_insert_all)

lemma map_of_btree_collect: "map_of (btree_collect xs) = map_of (rev xs)"
  using bt.get_insert_all [of "[]" xs] by (simp add: btree_collect_def)

lemma btree_collect_ok [simp]: "btree_ok (btree_collect xs)"
  by (simp add: btree_collect_def bt.ok_insert_all)

end
