(* ===== verification/Storage_Diff.thy ===== *)
theory Storage_Diff
  imports Rust_Collections
begin

text \<open>
  The difference between a storage and the next, \<^verbatim>\<open>src/executor/storage_diff.rs\<close>. The state is
  the pair of a hash map from keys to updates (a value, or \<open>None\<close> for an erasure) and an ordered
  map of the same keys that tells the two kinds of update apart. The lemmas show that the two stay
  in step, and that the queries answer for the storage that one gets by applying the difference to
  its base, a partial map from keys to values.
\<close>

section \<open>Model\<close>

type_synonym key = "u8 list"

record 'v storage_diff =
  btree :: "(key \<times> bool) list"
  hashmap :: "(key \<times> 'v option) list"

definition diff_empty :: "'v storage_diff" where
  "diff_empty = \<lparr>btree = [], hashmap = []\<rparr>"

definition diff_clear :: "'v storage_diff \<Rightarrow> 'v storage_diff" where
  "diff_clear d = d\<lparr>hashmap := [], btree := []\<rparr>"

definition diff_insert :: "'v storage_diff \<Rightarrow> key \<Rightarrow> 'v \<Rightarrow> 'v option option \<times> 'v storage_diff" where
  "diff_insert d k v =
     (let previous = map_of (hashmap d) k;
          d = d\<lparr>hashmap := hash_insert k (Some v) (hashmap d)\<rparr>
      in case previous of
           Some (Some _) \<Rightarrow> (previous, d)
         | _ \<Rightarrow> (previous, d\<lparr>btree := btree_insert k True (btree d)\<rparr>))"

definition diff_insert_erase :: "'v storage_diff \<Rightarrow> key \<Rightarrow> 'v option option \<times> 'v storage_diff" where
  "diff_insert_erase d k =
     (let previous = map_of (hashmap d) k;
          d = d\<lparr>hashmap := hash_insert k None (hashmap d)\<rparr>
      in case previous of
           Some None \<Rightarrow> (previous, d)
         | _ \<Rightarrow> (previous, d\<lparr>btree := btree_insert k False (btree d)\<rparr>))"

definition diff_remove :: "'v storage_diff \<Rightarrow> key \<Rightarrow> 'v option option \<times> 'v storage_diff" where
  "diff_remove d k =
     (let previous = map_of (hashmap d) k;
          d = d\<lparr>hashmap := hash_remove k (hashmap d)\<rparr>
      in case previous of
           Some _ \<Rightarrow> (previous, d\<lparr>btree := btree_remove k (btree d)\<rparr>)
         | None \<Rightarrow> (previous, d))"

definition diff_get :: "'v storage_diff \<Rightarrow> key \<Rightarrow> 'v option option" where
  "diff_get d k = map_of (hashmap d) k"

definition diff_iter_unordered :: "'v storage_diff \<Rightarrow> (key \<times> 'v option) list" where
  "diff_iter_unordered d = hashmap d"

definition storage_get :: "'v storage_diff \<Rightarrow> key \<Rightarrow> 'v option \<Rightarrow> 'v option" where
  "storage_get d k or_parent = (case map_of (hashmap d) k of None \<Rightarrow> or_parent | Some opt \<Rightarrow> opt)"

datatype storage_next_key = Found "key option" | NextOf key

text \<open>\<open>None\<close> is the panic of the assertion.\<close>

definition storage_next_key :: "'v storage_diff \<Rightarrow> key \<Rightarrow> key option \<Rightarrow> storage_next_key option" where
  "storage_next_key d k in_parent_next_key =
     (if (case in_parent_next_key of Some a \<Rightarrow> \<not> k < a | None \<Rightarrow> False) then None
      else Some
        (case (in_parent_next_key, first (btree_after k (btree d))) of
           (Some a, Some (b, upd)) \<Rightarrow>
             if upd then (if a \<le> b then Found (Some a) else Found (Some b))
             else (if a < b then Found (Some a) else NextOf b)
         | (Some a, None) \<Rightarrow> Found (Some a)
         | (None, Some (b, upd)) \<Rightarrow>
             if upd then Found (Some b)
             else Found (map_option fst (first (filter (\<lambda>(_, value). value) (btree_after b (btree d)))))
         | (None, None) \<Rightarrow> Found None))"

fun starts_with :: "'a list \<Rightarrow> 'a list \<Rightarrow> bool" where
  "starts_with [] k = True"
| "starts_with (x # p) [] = False"
| "starts_with (x # p) (y # k) = (x = y \<and> starts_with p k)"

text \<open>The iterator that takes from two peekable ones, to its end.\<close>

fun merge_keys :: "key list \<Rightarrow> key list \<Rightarrow> key list" where
  "merge_keys (a # as) [] = a # merge_keys as []"
| "merge_keys (a # as) (b # bs) =
     (if a < b then a # merge_keys as (b # bs) else b # merge_keys (a # as) bs)"
| "merge_keys [] (b # bs) = b # merge_keys [] bs"
| "merge_keys [] [] = []"

definition storage_prefix_keys_ordered :: "'v storage_diff \<Rightarrow> key \<Rightarrow> key list \<Rightarrow> key list" where
  "storage_prefix_keys_ordered d pre in_parent_ordered =
     merge_keys
       (filter (\<lambda>k. map_of (btree d) k = None) in_parent_ordered)
       (map fst (filter (\<lambda>(_, v). v) (takeWhile (\<lambda>(k, _). starts_with pre k) (btree_from pre (btree d)))))"

definition diff_merge :: "'v storage_diff \<Rightarrow> 'v storage_diff \<Rightarrow> 'v storage_diff" where
  "diff_merge d other =
     foldl (\<lambda>d (k, v). d\<lparr>hashmap := hash_insert k v (hashmap d), btree := btree_insert k (v \<noteq> None) (btree d)\<rparr>)
       d (hashmap other)"

definition diff_from_iter :: "(key \<times> 'v option) list \<Rightarrow> 'v storage_diff" where
  "diff_from_iter xs =
     (let h = hash_collect xs
      in \<lparr>btree = btree_collect (map (\<lambda>(k, v). (k, v \<noteq> None)) h), hashmap = h\<rparr>)"

section \<open>The two maps stay in step\<close>

definition diff_inv :: "'v storage_diff \<Rightarrow> bool" where
  "diff_inv d \<longleftrightarrow> hash_ok (hashmap d) \<and> btree_ok (btree d) \<and>
     map_of (btree d) = (\<lambda>k. map_option (\<lambda>v. v \<noteq> None) (map_of (hashmap d) k))"

inductive diff_reachable :: "'v storage_diff \<Rightarrow> bool" where
  empty: "diff_reachable diff_empty"
| from_iter: "diff_reachable (diff_from_iter xs)"
| clear: "diff_reachable d \<Longrightarrow> diff_reachable (diff_clear d)"
| insert: "diff_reachable d \<Longrightarrow> diff_reachable (snd (diff_insert d k v))"
| erase: "diff_reachable d \<Longrightarrow> diff_reachable (snd (diff_insert_erase d k))"
| remove: "diff_reachable d \<Longrightarrow> diff_reachable (snd (diff_remove d k))"
| merge: "diff_reachable d \<Longrightarrow> diff_reachable other \<Longrightarrow> diff_reachable (diff_merge d other)"

lemma diff_inv_insert: "diff_inv d \<Longrightarrow> diff_inv (snd (diff_insert d k v))"
  by (auto simp: diff_inv_def diff_insert_def Let_def fun_eq_iff split: option.splits)

lemma diff_inv_erase: "diff_inv d \<Longrightarrow> diff_inv (snd (diff_insert_erase d k))"
  by (auto simp: diff_inv_def diff_insert_erase_def Let_def fun_eq_iff split: option.splits)

lemma diff_inv_remove: "diff_inv d \<Longrightarrow> diff_inv (snd (diff_remove d k))"
  by (auto simp: diff_inv_def diff_remove_def Let_def fun_eq_iff split: option.splits)

lemma diff_merge_fields:
  "hashmap (diff_merge d other) = foldl (\<lambda>m (k, v). hash_insert k v m) (hashmap d) (hashmap other)"
  "btree (diff_merge d other) =
     foldl (\<lambda>m (k, v). btree_insert k v m) (btree d) (map (\<lambda>(k, v). (k, v \<noteq> None)) (hashmap other))"
proof -
  have "hashmap (foldl (\<lambda>d (k, v). d\<lparr>hashmap := hash_insert k v (hashmap d), btree := btree_insert k (v \<noteq> None) (btree d)\<rparr>) d xs) =
      foldl (\<lambda>m (k, v). hash_insert k v m) (hashmap d) xs \<and>
    btree (foldl (\<lambda>d (k, v). d\<lparr>hashmap := hash_insert k v (hashmap d), btree := btree_insert k (v \<noteq> None) (btree d)\<rparr>) d xs) =
      foldl (\<lambda>m (k, v). btree_insert k v m) (btree d) (map (\<lambda>(k, v). (k, v \<noteq> None)) xs)" for xs
    by (induction xs arbitrary: d) auto
  then show "hashmap (diff_merge d other) = foldl (\<lambda>m (k, v). hash_insert k v m) (hashmap d) (hashmap other)"
    "btree (diff_merge d other) =
     foldl (\<lambda>m (k, v). btree_insert k v m) (btree d) (map (\<lambda>(k, v). (k, v \<noteq> None)) (hashmap other))"
    by (simp_all add: diff_merge_def)
qed

lemma map_of_kinds: "map_of (map (\<lambda>(k, v). (k, v \<noteq> None)) m) = (\<lambda>k. map_option (\<lambda>v. v \<noteq> None) (map_of m k))"
  by (simp add: map_of_map fun_eq_iff)

lemma kinds_distinct: "hash_ok m \<Longrightarrow> distinct (map fst (map (\<lambda>(k, v). (k, v \<noteq> None)) m))"
  by (simp add: hash_ok_def comp_def case_prod_unfold)

lemma diff_merge_get:
  assumes "diff_inv other"
  shows "map_of (hashmap (diff_merge d other)) = map_of (hashmap d) ++ map_of (hashmap other)"
  using assms by (simp add: diff_merge_fields hm.get_insert_all_distinct diff_inv_def hash_ok_def)

lemma diff_inv_merge:
  assumes "diff_inv d" "diff_inv other"
  shows "diff_inv (diff_merge d other)"
proof -
  have "hash_ok (hashmap other)" using assms(2) by (simp add: diff_inv_def)
  then have "map_of (btree (diff_merge d other)) =
      map_of (btree d) ++ (\<lambda>k. map_option (\<lambda>v. v \<noteq> None) (map_of (hashmap other) k))"
    by (simp only: diff_merge_fields bt.get_insert_all_distinct [OF kinds_distinct] map_of_kinds)
  then show ?thesis
    using assms diff_merge_get [OF assms(2), of d]
    by (auto simp: diff_inv_def diff_merge_fields(1) diff_merge_fields(2) hm.ok_insert_all bt.ok_insert_all
        map_add_def fun_eq_iff split: option.splits)
qed

lemma diff_inv_from_iter: "diff_inv (diff_from_iter xs)"
proof -
  have "distinct (map fst (map (\<lambda>(k, v). (k, v \<noteq> None)) (hash_collect xs)))"
    by (rule kinds_distinct) simp
  from bt.get_insert_all_distinct [OF this, of "[]"] show ?thesis
    by (simp add: diff_inv_def diff_from_iter_def Let_def btree_collect_def [symmetric] map_of_kinds del: not_None_eq)
qed

lemma diff_reachable_inv: "diff_reachable d \<Longrightarrow> diff_inv d"
proof (induction rule: diff_reachable.induct)
  case empty
  show ?case by (simp add: diff_inv_def diff_empty_def)
next
  case (clear d)
  then show ?case by (simp add: diff_inv_def diff_clear_def)
qed (simp_all add: diff_inv_insert diff_inv_erase diff_inv_remove diff_inv_merge diff_inv_from_iter)

section \<open>The storage that results\<close>

definition applied :: "'v storage_diff \<Rightarrow> (key \<rightharpoonup> 'v) \<Rightarrow> (key \<rightharpoonup> 'v)" where
  "applied d base = (\<lambda>k. storage_get d k (base k))"

text \<open>The key of a storage that follows a given key.\<close>

definition next_key :: "key set \<Rightarrow> key \<Rightarrow> key option" where
  "next_key K k = (if {x \<in> K. k < x} = {} then None else Some (Min {x \<in> K. k < x}))"

lemma next_key_None: "next_key K k = None \<longleftrightarrow> (\<forall>x \<in> K. \<not> k < x)"
  by (auto simp: next_key_def)

lemma next_key_Some:
  assumes "finite K"
  shows "next_key K k = Some a \<longleftrightarrow> a \<in> K \<and> k < a \<and> (\<forall>x \<in> K. k < x \<longrightarrow> a \<le> x)"
proof -
  let ?S = "{x \<in> K. k < x}"
  have fin: "finite ?S" using assms by simp
  show ?thesis
  proof
    assume "next_key K k = Some a"
    then have S: "?S \<noteq> {}" and a: "a = Min ?S" by (auto simp: next_key_def split: if_splits)
    from Min_in [OF fin S] a show "a \<in> K \<and> k < a \<and> (\<forall>x \<in> K. k < x \<longrightarrow> a \<le> x)"
      using Min_le [OF fin] by auto
  next
    assume a: "a \<in> K \<and> k < a \<and> (\<forall>x \<in> K. k < x \<longrightarrow> a \<le> x)"
    then have "Min ?S = a" by (intro Min_eqI [OF fin]) auto
    with a show "next_key K k = Some a" by (auto simp: next_key_def)
  qed
qed

lemma next_keyI:
  "finite K \<Longrightarrow> a \<in> K \<Longrightarrow> k < a \<Longrightarrow> (\<And>x. x \<in> K \<Longrightarrow> k < x \<Longrightarrow> a \<le> x) \<Longrightarrow> next_key K k = Some a"
  by (simp add: next_key_Some)

lemma applied_dom:
  assumes "diff_inv d"
  shows "k \<in> dom (applied d base) \<longleftrightarrow>
    (case map_of (btree d) k of None \<Rightarrow> k \<in> dom base | Some upd \<Rightarrow> upd)"
  using assms by (auto simp: diff_inv_def applied_def storage_get_def split: option.splits)

lemma applied_finite: "finite (dom base) \<Longrightarrow> finite (dom (applied d base))"
  by (rule finite_subset [of _ "dom base \<union> fst ` set (hashmap d)"])
    (auto simp: applied_def storage_get_def dom_map_of_conv_image_fst [symmetric] finite_dom_map_of split: option.splits)

text \<open>The entry of the difference that follows a key.\<close>

lemma first_after_Some:
  assumes "btree_ok m" "first (btree_after k m) = Some (b, u)"
  shows "map_of m b = Some u" "k < b" "map_of m x = Some v \<Longrightarrow> k < x \<Longrightarrow> b \<le> x"
  using first_filter_least [OF assms(1), of "\<lambda>(k', v). k < k'" b u] assms(2) by (auto simp: btree_after_def)

lemma first_after_None:
  assumes "btree_ok m" "first (btree_after k m) = None"
  shows "map_of m x = Some v \<Longrightarrow> \<not> k < x"
  using first_filter_none [OF assms(1), of "\<lambda>(k', v). k < k'" x v] assms(2) by (simp add: btree_after_def)

text \<open>The next key when the base has none: that of the next update that is not an erasure.\<close>

lemma next_update:
  assumes "btree_ok m" "\<And>x v. map_of m x = Some v \<Longrightarrow> k < x \<Longrightarrow> b \<le> x" "map_of m b = Some False" "k < b"
    and K: "finite K" "\<And>x. k < x \<Longrightarrow> x \<in> K \<longleftrightarrow> map_of m x = Some True"
  shows "map_option fst (first (filter (\<lambda>(_, value). value) (btree_after b m))) = next_key K k"
proof -
  define P :: "key \<times> bool \<Rightarrow> bool" where "P = (\<lambda>(x, v). v \<and> b < x)"
  have f: "filter (\<lambda>(_, value). value) (btree_after b m) = filter P m"
    by (auto simp: btree_after_def P_def intro!: filter_cong)
  have above: "b < x" if "x \<in> K" "k < x" for x
  proof -
    have x: "map_of m x = Some True" using K(2) that by simp
    then have "b \<le> x" "x \<noteq> b" using assms(2,3) that(2) by auto
    then show ?thesis by simp
  qed
  show ?thesis
  proof (cases "first (filter P m)")
    case None
    then have "\<not> k < x" if "x \<in> K" for x
      using first_filter_none [OF assms(1) None, of x True] above [OF that] K(2) [of x] that by (auto simp: P_def)
    then have "next_key K k = None" by (simp add: next_key_None)
    with None f show ?thesis by simp
  next
    case (Some e)
    obtain x v where e: "e = (x, v)" by (cases e)
    with first_filter_least [OF assms(1), of P x v] Some
    have x: "map_of m x = Some True" "b < x"
      and least: "\<And>y v'. map_of m y = Some v' \<Longrightarrow> P (y, v') \<Longrightarrow> x \<le> y" by (auto simp: P_def)
    have "next_key K k = Some x"
      unfolding next_key_Some [OF K(1)]
    proof (intro conjI ballI impI)
      show kx: "k < x" using x(2) assms(4) by simp
      show "x \<in> K" using K(2) [OF kx] x(1) by simp
      show "x \<le> y" if "y \<in> K" "k < y" for y
        using least [of y True] K(2) [OF that(2)] that above [OF that] by (simp add: P_def)
    qed
    with Some e f show ?thesis by simp
  qed
qed

text \<open>
  What the answer for a key says about the keys \<open>K\<close> of the resulting storage; first when the base
  storage has a next key, then when it has none.
\<close>

definition answer_ok :: "key set \<Rightarrow> key \<Rightarrow> storage_next_key option \<Rightarrow> bool" where
  "answer_ok K k r = (case r of
      None \<Rightarrow> False
    | Some (Found r) \<Rightarrow> r = next_key K k
    | Some (NextOf b) \<Rightarrow> k < b \<and> next_key K b = next_key K k)"

lemma answer_base_some:
  assumes ok: "btree_ok (btree d)" and fin: "finite K"
    and K: "\<And>x. x \<in> K \<longleftrightarrow> (case map_of (btree d) x of None \<Rightarrow> x \<in> B | Some upd \<Rightarrow> upd)"
    and a: "a \<in> B" "k < a" "\<And>x. x \<in> B \<Longrightarrow> k < x \<Longrightarrow> a \<le> x"
  shows "answer_ok K k (storage_next_key d k (Some a))"
proof (cases "first (btree_after k (btree d))")
  case None
  have "map_of (btree d) x = None" if "k < x" for x
    using first_after_None [OF ok None, of x] that by (cases "map_of (btree d) x") auto
  then have "next_key K k = Some a" using a K by (intro next_keyI [OF fin]) auto
  with None a show ?thesis by (simp add: storage_next_key_def answer_ok_def)
next
  case (Some e)
  obtain b u where e: "e = (b, u)" by (cases e)
  note b = first_after_Some [OF ok Some [unfolded e]]
  have low: "map_of (btree d) x = None" if "k < x" "x < b" for x
    using b(3) [of x] that by (cases "map_of (btree d) x") auto
  have inK: "a \<le> x \<or> b \<le> x" if "x \<in> K" "k < x" for x
    using that a(3) [of x] b(3) [of x] K [of x] by (auto split: option.splits)
  have inK': "a \<le> x" if "x \<in> K" "k < x" "a \<le> b" for x using inK [OF that(1,2)] that(3) by auto
  have inK'': "b \<le> x" if "x \<in> K" "k < x" "b \<le> a" for x using inK [OF that(1,2)] that(3) by auto
  consider "u" "a \<le> b" | "u" "b < a" | "\<not> u" "a < b" | "\<not> u" "b \<le> a" by force
  then show ?thesis
  proof cases
    case 1
    then have "a \<in> K" using K [of a] a(1,2) b(1) low [of a] by (cases "a = b") auto
    with 1 a inK' have "next_key K k = Some a" by (intro next_keyI [OF fin]) auto
    with 1 Some e a show ?thesis by (simp add: storage_next_key_def answer_ok_def)
  next
    case 2
    then have "b \<in> K" using K [of b] b(1) by simp
    with 2 b(2) inK'' have "next_key K k = Some b" by (intro next_keyI [OF fin]) auto
    with 2 Some e a show ?thesis by (auto simp: storage_next_key_def answer_ok_def)
  next
    case 3
    then have "a \<in> K" using K [of a] a(1,2) low [of a] by auto
    with 3 a inK' have "next_key K k = Some a" by (intro next_keyI [OF fin]) auto
    with 3 Some e a show ?thesis by (simp add: storage_next_key_def answer_ok_def)
  next
    case 4
    have "x \<in> K \<and> b < x \<longleftrightarrow> x \<in> K \<and> k < x" for x
      using inK'' [of x] 4 b(1,2) K [of b] by (cases "x = b") auto
    then have "next_key K b = next_key K k" by (simp add: next_key_def)
    with 4 Some e a b(2) show ?thesis by (auto simp: storage_next_key_def answer_ok_def)
  qed
qed

lemma answer_base_none:
  assumes ok: "btree_ok (btree d)" and fin: "finite K"
    and K: "\<And>x. x \<in> K \<longleftrightarrow> (case map_of (btree d) x of None \<Rightarrow> x \<in> B | Some upd \<Rightarrow> upd)"
    and B: "\<And>x. x \<in> B \<Longrightarrow> \<not> k < x"
  shows "answer_ok K k (storage_next_key d k None)"
proof -
  have K': "x \<in> K \<longleftrightarrow> map_of (btree d) x = Some True" if "k < x" for x
    using that B K [of x] by (auto split: option.splits)
  show ?thesis
  proof (cases "first (btree_after k (btree d))")
    case None
    then have "next_key K k = None" using first_after_None [OF ok None] K' by (auto simp: next_key_None)
    with None show ?thesis by (simp add: storage_next_key_def answer_ok_def)
  next
    case (Some e)
    obtain b u where e: "e = (b, u)" by (cases e)
    note b = first_after_Some [OF ok Some [unfolded e]]
    show ?thesis
    proof (cases u)
      case True
      then have "next_key K k = Some b" using b K' by (intro next_keyI [OF fin]) auto
      with True Some e show ?thesis by (simp add: storage_next_key_def answer_ok_def)
    next
      case False
      have "map_option fst (first (filter (\<lambda>(_, value). value) (btree_after b (btree d)))) = next_key K k"
        by (rule next_update [OF ok]) (use b False K' fin in auto)
      with False Some e show ?thesis by (simp add: storage_next_key_def answer_ok_def)
    qed
  qed
qed

section \<open>Keys with a prefix\<close>

lemma starts_with_least: "starts_with p k \<Longrightarrow> p \<le> k" for p k :: key
  by (induction p k rule: starts_with.induct) auto

lemma starts_with_convex: "p \<le> k \<Longrightarrow> k \<le> k' \<Longrightarrow> starts_with p k' \<Longrightarrow> starts_with p k" for p k k' :: key
proof (induction p k' arbitrary: k rule: starts_with.induct)
  case (3 x p y k')
  then show ?case by (cases k) auto
qed simp_all

lemma takeWhile_prefix:
  "btree_ok m \<Longrightarrow> (\<forall>(k, v) \<in> set m. p \<le> k) \<Longrightarrow>
     takeWhile (\<lambda>(k, _). starts_with p k) m = filter (\<lambda>(k, _). starts_with p k) m" for p :: key
proof (induction m)
  case (Cons e m)
  obtain k v where e: "e = (k, v)" by (cases e)
  show ?case
  proof (cases "starts_with p k")
    case True
    with Cons e show ?thesis by (simp add: btree_ok_Cons)
  next
    case False
    have "\<not> starts_with p k'" if "(k', v') \<in> set m" for k' v'
      using starts_with_convex [of p k k'] that Cons.prems e False by (fastforce simp: btree_ok_Cons)
    then have "filter (\<lambda>(k, _). starts_with p k) m = []" by (auto simp: filter_empty_conv)
    with False e show ?thesis by simp
  qed
qed simp

lemma prefix_entries:
  fixes p :: key
  assumes "btree_ok m"
  shows "takeWhile (\<lambda>(k, _). starts_with p k) (btree_from p m) = filter (\<lambda>(k, _). starts_with p k) m"
proof -
  have "btree_ok (btree_from p m)" "\<forall>(k, v) \<in> set (btree_from p m). p \<le> k"
    using assms by (auto simp: btree_from_def)
  from takeWhile_prefix [OF this] show ?thesis
    by (auto simp: btree_from_def dest: starts_with_least intro!: filter_cong)
qed

lemma set_merge_keys: "set (merge_keys as bs) = set as \<union> set bs"
  by (induction as bs rule: merge_keys.induct) auto

lemma merge_keys_sorted:
  "sorted_wrt (<) as \<Longrightarrow> sorted_wrt (<) bs \<Longrightarrow> set as \<inter> set bs = {} \<Longrightarrow> sorted_wrt (<) (merge_keys as bs)"
proof (induction as bs rule: merge_keys.induct)
  case (2 a as b bs)
  then show ?case by (cases "a < b") (auto simp: set_merge_keys)
qed (auto simp: set_merge_keys)

section \<open>Properties\<close>

text \<open>
  C30: in every difference built by the operations, the ordered map has exactly the keys of the hash
  map and tells updates from erasures correctly.
\<close>

theorem diff_maps_in_step:
  assumes "diff_reachable d"
  shows "map_of (btree d) k = map_option (\<lambda>v. v \<noteq> None) (diff_get d k) \<and> btree_ok (btree d) \<and> hash_ok (hashmap d)"
  using diff_reachable_inv [OF assms] by (simp add: diff_inv_def diff_get_def)

definition sample_diff :: "string storage_diff" where
  "sample_diff = snd (diff_insert_erase (snd (diff_insert (snd (diff_insert diff_empty [2, 1] ''a'')) [3] ''b'')) [2, 5])"

lemma sample_diff_reachable: "diff_reachable sample_diff"
  unfolding sample_diff_def by (intro diff_reachable.intros)

lemma sample_diff_eq:
  "sample_diff = \<lparr>btree = [([2, 1], True), ([2, 5], False), ([3], True)],
    hashmap = [([2, 1], Some ''a''), ([3], Some ''b''), ([2, 5], None)]\<rparr>"
  by (simp add: sample_diff_def diff_insert_def diff_insert_erase_def diff_empty_def hash_insert_def)

theorem diff_maps_in_step_witness:
  "diff_reachable sample_diff \<and> map_of (btree sample_diff) [2, 5] = Some False \<and> diff_get sample_diff [2, 5] = Some None"
  using diff_maps_in_step [OF sample_diff_reachable, of "[2, 5]"] sample_diff_reachable
  by (simp add: diff_get_def sample_diff_eq)

text \<open>
  C12: given the key that follows in the base storage, \<^verbatim>\<open>storage_next_key\<close> never panics; an answer
  \<^verbatim>\<open>Found\<close> is the key that follows in the storage after the difference is applied, and an answer
  \<^verbatim>\<open>NextOf\<close> is a later key after which the search gives the same result.
\<close>

theorem storage_next_key_correct:
  assumes "diff_reachable d" "finite (dom base)"
  shows "case storage_next_key d k (next_key (dom base) k) of
      None \<Rightarrow> False
    | Some (Found r) \<Rightarrow> r = next_key (dom (applied d base)) k
    | Some (NextOf b) \<Rightarrow> k < b \<and> next_key (dom (applied d base)) b = next_key (dom (applied d base)) k"
proof -
  have inv: "diff_inv d" using diff_reachable_inv [OF assms(1)] .
  then have ok: "btree_ok (btree d)" by (simp add: diff_inv_def)
  define K where "K = dom (applied d base)"
  have fin: "finite K" using applied_finite [OF assms(2)] by (simp add: K_def)
  have K: "x \<in> K \<longleftrightarrow> (case map_of (btree d) x of None \<Rightarrow> x \<in> dom base | Some upd \<Rightarrow> upd)" for x
    unfolding K_def by (rule applied_dom [OF inv])
  have "answer_ok K k (storage_next_key d k (next_key (dom base) k))"
  proof (cases "next_key (dom base) k")
    case None
    then have "\<And>x. x \<in> dom base \<Longrightarrow> \<not> k < x" unfolding next_key_None by blast
    from answer_base_none [OF ok fin K this] None show ?thesis by simp
  next
    case (Some a)
    then have "a \<in> dom base" "k < a" "\<And>x. x \<in> dom base \<Longrightarrow> k < x \<Longrightarrow> a \<le> x"
      unfolding next_key_Some [OF assms(2)] by blast+
    from answer_base_some [OF ok fin K this] Some show ?thesis by simp
  qed
  then show ?thesis by (simp add: answer_ok_def K_def)
qed

lemma finite_dom_singleton: "finite (dom [k \<mapsto> v])"
  by simp

theorem storage_next_key_correct_witness:
  "case storage_next_key sample_diff [2, 3] (next_key (dom [[2, 5] \<mapsto> ''z'']) [2, 3]) of
      None \<Rightarrow> False
    | Some (Found r) \<Rightarrow> r = next_key (dom (applied sample_diff [[2, 5] \<mapsto> ''z''])) [2, 3]
    | Some (NextOf b) \<Rightarrow> [2, 3] < b \<and> next_key (dom (applied sample_diff [[2, 5] \<mapsto> ''z''])) b =
        next_key (dom (applied sample_diff [[2, 5] \<mapsto> ''z''])) [2, 3]"
  by (rule storage_next_key_correct [OF sample_diff_reachable finite_dom_singleton])

text \<open>
  C15: given the keys of the base storage with a prefix in order, \<^verbatim>\<open>storage_prefix_keys_ordered\<close>
  returns, in order and without duplicates, the keys with this prefix of the storage after the
  difference is applied.
\<close>

theorem storage_prefix_keys_correct:
  assumes "diff_reachable d" "sorted_wrt (<) ks" "set ks = {k \<in> dom base. starts_with pre k}"
  shows "sorted_wrt (<) (storage_prefix_keys_ordered d pre ks) \<and>
    set (storage_prefix_keys_ordered d pre ks) = {k \<in> dom (applied d base). starts_with pre k}"
proof -
  have inv: "diff_inv d" using diff_reachable_inv [OF assms(1)] .
  then have ok: "btree_ok (btree d)" by (simp add: diff_inv_def)
  define xs where "xs = filter (\<lambda>k. map_of (btree d) k = None) ks"
  define m where "m = filter (\<lambda>(_, v). v) (filter (\<lambda>(k, _). starts_with pre k) (btree d))"
  have res: "storage_prefix_keys_ordered d pre ks = merge_keys xs (map fst m)"
    by (simp add: storage_prefix_keys_ordered_def prefix_entries [OF ok] xs_def m_def)
  have "btree_ok m" using ok by (simp add: m_def del: filter_filter)
  then have m_sorted: "sorted_wrt (<) (map fst m)" by (simp add: btree_ok_def)
  have xs_sorted: "sorted_wrt (<) xs" using assms(2) by (simp add: xs_def sorted_wrt_filter)
  have m_set: "k \<in> set (map fst m) \<longleftrightarrow> map_of (btree d) k = Some True \<and> starts_with pre k" for k
    using btree_get_iff [OF ok, of k True] by (force simp: m_def)
  have disj: "set xs \<inter> set (map fst m) = {}" using m_set unfolding xs_def disjoint_iff by simp
  have "k \<in> set xs \<union> set (map fst m) \<longleftrightarrow> k \<in> dom (applied d base) \<and> starts_with pre k" for k
    unfolding Un_iff m_set applied_dom [OF inv] using assms(3) by (auto simp: xs_def split: option.splits)
  then have "set (merge_keys xs (map fst m)) = {k \<in> dom (applied d base). starts_with pre k}"
    unfolding set_merge_keys by blast
  with merge_keys_sorted [OF xs_sorted m_sorted disj] res show ?thesis by simp
qed

theorem storage_prefix_keys_correct_witness:
  "sorted_wrt (<) (storage_prefix_keys_ordered sample_diff [2] [[2, 5], [2, 7]]) \<and>
    set (storage_prefix_keys_ordered sample_diff [2] [[2, 5], [2, 7]]) =
      {k \<in> dom (applied sample_diff [[2, 5] \<mapsto> ''z'', [2, 7] \<mapsto> ''y'']). starts_with [2] k}"
  by (rule storage_prefix_keys_correct [OF sample_diff_reachable]) auto

text \<open>
  C29: applying a merged difference is applying the first one and then the other one, and each
  elementary operation changes the resulting storage at its key only.
\<close>

theorem diff_operations_apply:
  assumes "diff_reachable d" "diff_reachable other"
  shows "applied (diff_merge d other) base = applied other (applied d base) \<and>
    applied (snd (diff_insert d k v)) base = (applied d base)(k \<mapsto> v) \<and>
    applied (snd (diff_insert_erase d k)) base = (applied d base)(k := None) \<and>
    applied (snd (diff_remove d k)) base = (applied d base)(k := base k)"
proof (intro conjI)
  show "applied (diff_merge d other) base = applied other (applied d base)"
    using diff_merge_get [OF diff_reachable_inv [OF assms(2)], of d]
    by (auto simp: applied_def storage_get_def fun_eq_iff map_add_def split: option.splits)
qed (auto simp: applied_def storage_get_def diff_insert_def diff_insert_erase_def diff_remove_def Let_def
    fun_eq_iff split: option.splits)

theorem diff_operations_apply_witness:
  "applied (diff_merge sample_diff diff_empty) Map.empty = applied diff_empty (applied sample_diff Map.empty)"
  using diff_operations_apply [OF sample_diff_reachable diff_reachable.empty, of Map.empty "[]" "[]"] by blast

end
