(* ===== verification/Verification_Queue.thy ===== *)
theory Verification_Queue
  imports Smoldot_Prelude
begin

text \<open>
  The queue of block requests and of blocks to verify of the optimistic syncing,
  \<^verbatim>\<open>src/sync/optimistic/verification_queue.rs\<close>. The queue is the list of its entries; a panic
  is \<open>None\<close>. Heights are 64-bit words, whose additions and subtractions wrap around as in a
  release build, and \<^verbatim>\<open>NonZeroU64::new(..).unwrap()\<close> panics on zero.
\<close>

section \<open>Definitions\<close>

datatype ('r, 'b) entry_ty =
    Missing
  | Requested 'r (requested_source: u64)
  | Queued u64 "'b list"

record ('r, 'b) vq_entry =
  block_height :: u64
  ty :: "('r, 'b) entry_ty"

type_synonym ('r, 'b) verification_queue = "('r, 'b) vq_entry list"

definition nonzero :: "u64 \<Rightarrow> u64 option" where
  "nonzero h = (if h = 0 then None else Some h)"

fun is_missing :: "('r, 'b) vq_entry \<Rightarrow> bool" where
  "is_missing e = (case ty e of Missing \<Rightarrow> True | _ \<Rightarrow> False)"

definition vq_new :: "u64 \<Rightarrow> ('r, 'b) verification_queue option" where
  "vq_new base_block_number = map_option (\<lambda>h. [\<lparr>block_height = h, ty = Missing\<rparr>]) (nonzero base_block_number)"

definition blocks_ready :: "('r, 'b) verification_queue \<Rightarrow> bool option" where
  "blocks_ready q = (case q of [] \<Rightarrow> None | e # _ \<Rightarrow> Some (case ty e of Queued _ _ \<Rightarrow> True | _ \<Rightarrow> False))"

definition first_block :: "('r, 'b) verification_queue \<Rightarrow> 'b option option" where
  "first_block q =
     (case q of
        [] \<Rightarrow> None
      | e # _ \<Rightarrow> (case ty e of
            Queued _ blocks \<Rightarrow> (case blocks of [] \<Rightarrow> None | b # _ \<Rightarrow> Some (Some b))
          | _ \<Rightarrow> Some None))"

definition pop_first_block ::
    "('r, 'b) verification_queue \<Rightarrow> (('b \<times> u64) option \<times> ('r, 'b) verification_queue) option" where
  "pop_first_block q =
     (case q of
        [] \<Rightarrow> None
      | e # es \<Rightarrow> (case ty e of
            Queued source blocks \<Rightarrow> (case blocks of
                [] \<Rightarrow> None
              | block # blocks \<Rightarrow>
                  map_option (\<lambda>h.
                    (Some (block, source),
                     if blocks = [] then es else \<lparr>block_height = h, ty = Queued source blocks\<rparr> # es))
                  (nonzero (block_height e + 1)))
          | _ \<Rightarrow> Some (None, q)))"

text \<open>The range asked for a \<open>Missing\<close> entry that another entry follows.\<close>

definition desired_range :: "u64 \<Rightarrow> ('r, 'b) vq_entry \<Rightarrow> ('r, 'b) vq_entry \<Rightarrow> (u64 \<times> u32) option" where
  "desired_range max_block_number entry next_entry =
     (let n = min max_block_number (block_height next_entry) - block_height entry
      in if unat n < 2 ^ 32 \<and> n \<noteq> 0 then Some (block_height entry, ucast n) else None)"

fun collect_options :: "'x option list \<Rightarrow> 'x list option" where
  "collect_options [] = Some []"
| "collect_options (x # xs) = Option.bind x (\<lambda>y. map_option (Cons y) (collect_options xs))"

definition vq_desired_requests :: "('r, 'b) verification_queue \<Rightarrow> u32 \<Rightarrow> (u64 \<times> u32) list option" where
  "vq_desired_requests q download_ahead_blocks =
     (case q of
        [] \<Rightarrow> None
      | front # _ \<Rightarrow>
          let max_block_number = block_height front + ucast download_ahead_blocks;
              iter1 = map (\<lambda>(entry, next_entry). desired_range max_block_number entry next_entry)
                (filter (\<lambda>(entry, _). block_height entry \<le> max_block_number)
                (filter (\<lambda>(entry, _). is_missing entry) (zip q (tl q))));
              iter2 = (if block_height (last q) < max_block_number then [(block_height (last q), - 1)] else [])
          in map_option (\<lambda>rs. rs @ iter2) (collect_options iter1))"

text \<open>
  The three parts of \<^verbatim>\<open>insert_request\<close>: the entry concerned, the entry of the request, and the
  entry after it.
\<close>

definition insert_pos :: "('r, 'b) verification_queue \<Rightarrow> u64 \<Rightarrow> nat option" where
  "insert_pos q height =
     (case position (\<lambda>entry. block_height entry > height) q of
        Some 0 \<Rightarrow> None
      | Some n \<Rightarrow> Some (n - 1)
      | None \<Rightarrow> Some (length q - 1))"

definition place_request ::
    "('r, 'b) verification_queue \<Rightarrow> nat \<Rightarrow> u64 \<Rightarrow> u64 \<Rightarrow> 'r \<Rightarrow> ('r, 'b) verification_queue \<times> nat" where
  "place_request q pos height source user_data =
     (let (q, pos) =
        (let pos_height = block_height (q ! pos) in
         if pos_height < height
         then (vec_insert pos \<lparr>block_height = pos_height, ty = Missing\<rparr> (q[pos := (q ! pos)\<lparr>block_height := height\<rparr>]), pos + 1)
         else (q, pos))
      in (q[pos := (q ! pos)\<lparr>ty := Requested user_data source\<rparr>], pos))"

definition shrink_after ::
    "('r, 'b) verification_queue \<Rightarrow> nat \<Rightarrow> u64 \<Rightarrow> u64 \<Rightarrow> u64 \<Rightarrow> ('r, 'b) verification_queue option" where
  "shrink_after q index height gap num =
     (if gap < num then None
      else if gap = num then Some q
      else
        let n = gap - num in
        if is_missing (q ! (index + 1))
        then map_option (\<lambda>h. q[index + 1 := (q ! (index + 1))\<lparr>block_height := h\<rparr>])
               (nonzero (block_height (q ! (index + 1)) - n))
        else map_option (\<lambda>h. vec_insert (index + 1) \<lparr>block_height = h, ty = Missing\<rparr> q) (nonzero (height + n)))"

definition push_missing ::
    "('r, 'b) verification_queue \<Rightarrow> u64 option \<Rightarrow> ('r, 'b) verification_queue option" where
  "push_missing q h = Option.bind (Option.bind h nonzero) (\<lambda>h. Some (q @ [\<lparr>block_height = h, ty = Missing\<rparr>]))"

definition checked_add_u64 :: "u64 \<Rightarrow> u64 \<Rightarrow> u64 option" where
  "checked_add_u64 a b = (if unat a + unat b < 2 ^ 64 then Some (a + b) else None)"

definition insert_request ::
    "('r, 'b) verification_queue \<Rightarrow> u64 \<Rightarrow> u32 \<Rightarrow> u64 \<Rightarrow> 'r \<Rightarrow> (('r + unit) \<times> ('r, 'b) verification_queue) option" where
  "insert_request q height num_blocks source user_data =
     (if q = [] then None
      else case insert_pos q height of
        None \<Rightarrow> Some (Inl user_data, q)
      | Some pos \<Rightarrow>
          if \<not> is_missing (q ! pos) then Some (Inl user_data, q)
          else
            let (q, pos) = place_request q pos height source user_data in
            Option.bind (if pos = length q - 1
                         then push_missing q (checked_add_u64 height (ucast num_blocks)) else Some q) (\<lambda>q.
            map_option (Pair (Inr ()))
              (shrink_after q pos height (block_height (q ! (pos + 1)) - height) (ucast num_blocks))))"

definition find_request :: "('r \<Rightarrow> bool) \<Rightarrow> ('r, 'b) verification_queue \<Rightarrow> nat option" where
  "find_request request_find q =
     position (\<lambda>entry. case ty entry of Requested user_data _ \<Rightarrow> request_find user_data | _ \<Rightarrow> False) q"

definition store_blocks ::
    "('r, 'b) verification_queue \<Rightarrow> nat \<Rightarrow> u64 \<Rightarrow> 'b list \<Rightarrow> ('r, 'b) verification_queue option" where
  "store_blocks q index source blocks =
     (let gap_with_next = block_height (q ! (index + 1)) - block_height (q ! index);
          blocks = take (unat gap_with_next) blocks;
          q = q[index := (q ! index)\<lparr>ty := Queued source blocks\<rparr>]
      in Option.bind (shrink_after q index (block_height (q ! index)) gap_with_next (of_nat (length blocks))) (\<lambda>q.
           if index = length q - 1
           then push_missing q (Some (block_height (last q) + of_nat (length blocks)))
           else Some q))"

definition fail_request :: "('r, 'b) verification_queue \<Rightarrow> nat \<Rightarrow> ('r, 'b) verification_queue" where
  "fail_request q index =
     (let q = q[index := (q ! index)\<lparr>ty := Missing\<rparr>]
      in if is_missing (q ! (index + 1)) then vec_remove (index + 1) q else q)"

text \<open>The result of a request is \<open>None\<close> when it has failed.\<close>

definition vq_finish_request ::
    "('r, 'b) verification_queue \<Rightarrow> ('r \<Rightarrow> bool) \<Rightarrow> 'b list option \<Rightarrow> (('r \<times> u64) \<times> ('r, 'b) verification_queue) option" where
  "vq_finish_request q request_find result =
     Option.bind (find_request request_find q) (\<lambda>index.
       case ty (q ! index) of
         Requested user_data source_id \<Rightarrow>
           if index + 1 < length q then
             map_option (Pair (user_data, source_id))
               (case result of
                  Some blocks \<Rightarrow> store_blocks q index source_id blocks
                | None \<Rightarrow> Some (fail_request q index))
           else None
       | _ \<Rightarrow> None)"

definition into_requests :: "('r, 'b) verification_queue \<Rightarrow> ('r \<times> u64) list" where
  "into_requests q =
     List.map_filter (\<lambda>entry. case ty entry of Requested user_data source \<Rightarrow> Some (user_data, source) | _ \<Rightarrow> None) q"

definition vq_source_num_ongoing_requests :: "('r, 'b) verification_queue \<Rightarrow> u64 \<Rightarrow> nat" where
  "vq_source_num_ongoing_requests q source_id =
     length (filter (\<lambda>entry. case ty entry of Requested _ source \<Rightarrow> source = source_id | _ \<Rightarrow> False) q)"

text \<open>\<^verbatim>\<open>SourceDrain\<close>: its \<^verbatim>\<open>next\<close> method, and its \<^verbatim>\<open>drop\<close>.\<close>

definition source_drain_next ::
    "u64 \<Rightarrow> ('r, 'b) verification_queue \<Rightarrow> 'r option \<times> ('r, 'b) verification_queue" where
  "source_drain_next source_id q =
     (case position (\<lambda>entry. case ty entry of Requested _ source \<Rightarrow> source = source_id | _ \<Rightarrow> False) q of
        None \<Rightarrow> (None, q)
      | Some i \<Rightarrow> (case ty (q ! i) of
            Requested user_data _ \<Rightarrow> (Some user_data, q[i := (q ! i)\<lparr>ty := Missing\<rparr>])
          | _ \<Rightarrow> (None, q)))"

definition source_drain_drop :: "('r, 'b) verification_queue \<Rightarrow> ('r, 'b) verification_queue" where
  "source_drain_drop q =
     foldl (\<lambda>q index. if is_missing (q ! index) \<and> is_missing (q ! (index - 1)) then vec_remove index q else q)
       q (rev [1..<length q])"

end
