(* ===== verification/Verification_Queue_Props.thy ===== *)
theory Verification_Queue_Props
  imports Verification_Queue
begin

text \<open>
  What the verification queue promises: as long as answers are correct and long enough, the
  blocks it hands out are the blocks of the chain, in order, without gap and without repetition,
  whatever the order in which requests are started, answered, fail, or are dropped with
  their source; the ranges it wants to have requested are exactly the missing ones. Two
  theorems show what happens when answers are shorter or empty.
\<close>

declare is_missing.simps [simp del]

lemma is_missing_iff: "is_missing e \<longleftrightarrow> ty e = Missing"
  by (cases "ty e") (simp_all add: is_missing.simps)

section \<open>The invariant\<close>

text \<open>The blocks of the chain \<open>blk\<close> with heights from \<open>h\<close> on, below \<open>h'\<close>.\<close>

definition blocks_from :: "(u64 \<Rightarrow> 'b) \<Rightarrow> u64 \<Rightarrow> nat \<Rightarrow> 'b list" where
  "blocks_from blk h n = map (\<lambda>k. blk (h + of_nat k)) [0..<n]"

definition fits :: "(u64 \<Rightarrow> 'b) \<Rightarrow> ('r, 'b) vq_entry \<Rightarrow> ('r, 'b) vq_entry \<Rightarrow> bool" where
  "fits blk e e' \<longleftrightarrow> block_height e < block_height e' \<and>
     (\<forall>s bs. ty e = Queued s bs \<longrightarrow> bs = blocks_from blk (block_height e) (unat (block_height e' - block_height e)))"

definition vq_ok :: "(u64 \<Rightarrow> 'b) \<Rightarrow> ('r, 'b) verification_queue \<Rightarrow> bool" where
  "vq_ok blk q \<longleftrightarrow> q \<noteq> [] \<and> is_missing (last q) \<and> successively (fits blk) q"

lemma length_blocks_from [simp]: "length (blocks_from blk h n) = n"
  by (simp add: blocks_from_def)

lemma blocks_from_Suc: "blocks_from blk h (Suc n) = blk h # blocks_from blk (h + 1) n"
proof -
  have "map (\<lambda>k. blk (h + of_nat k)) [0..<Suc n] = blk h # map (\<lambda>k. blk (h + of_nat (Suc k))) [0..<n]"
    by (simp add: upt_conv_Cons map_Suc_upt [symmetric] del: upt_Suc)
  then show ?thesis by (simp add: blocks_from_def add.assoc)
qed

lemma take_blocks_from: "take m (blocks_from blk h n) = blocks_from blk h (min m n)"
  by (simp add: blocks_from_def take_map min_def)

lemma fits_height: "fits blk e e' \<Longrightarrow> block_height e < block_height e'"
  by (simp add: fits_def)

lemma fits_not_queued:
  "ty e = Missing \<or> (\<exists>r s. ty e = Requested r s) \<Longrightarrow> fits blk e e' \<longleftrightarrow> block_height e < block_height e'"
  by (auto simp: fits_def)

lemma fits_same_height: "block_height e' = block_height e'' \<Longrightarrow> fits blk e e' \<longleftrightarrow> fits blk e e''"
  by (simp add: fits_def)

text \<open>Around an entry the queue splits into a part before and a part after.\<close>

lemma vq_ok_split:
  "vq_ok blk (xs @ e # ys) \<longleftrightarrow>
     successively (fits blk) xs \<and> (xs = [] \<or> fits blk (last xs) e) \<and> successively (fits blk) (e # ys) \<and>
     is_missing (last (e # ys))"
  by (auto simp: vq_ok_def successively_append_iff)

lemma vq_ok_same_height:
  assumes "vq_ok blk (xs @ e # ys)" "block_height e' = block_height e" "successively (fits blk) (e' # ys')" "is_missing (last (e' # ys'))"
  shows "vq_ok blk (xs @ e' # ys')"
  using assms fits_same_height [OF assms(2)] unfolding vq_ok_split by simp

lemma nth_split:
  assumes "i < length q"
  obtains xs ys where "q = xs @ q ! i # ys" "length xs = i"
  using id_take_nth_drop [OF assms] assms by (metis length_take min.absorb4)

lemma update_at_length [simp]: "length xs = i \<Longrightarrow> (xs @ e # ys)[i := e'] = xs @ e' # ys"
  by (simp add: list_update_append)

lemma vec_insert_at_length [simp]: "length xs = i \<Longrightarrow> vec_insert i e (xs @ ys) = xs @ e # ys"
  by (simp add: vec_insert_def)

lemma vec_remove_at_length [simp]: "length xs = i \<Longrightarrow> vec_remove i (xs @ e # ys) = xs @ ys"
  by (simp add: vec_remove_def)

section \<open>Inserting a request\<close>

lemma heights_between:
  fixes h a n :: u64
  assumes "h < a" "0 < n" "n < a - h"
  shows "h < h + n" "h + n < a" "h < a - n" "a - n < a"
  using assms by unat_arith+

lemma nonzero_above: "h < a \<Longrightarrow> nonzero a = Some a"
  by (auto simp: nonzero_def)

text \<open>What the queue looks like after the entry whose size is known.\<close>

definition shrunk :: "u64 \<Rightarrow> u64 \<Rightarrow> ('r, 'b) vq_entry \<Rightarrow> ('r, 'b) verification_queue \<Rightarrow> ('r, 'b) verification_queue" where
  "shrunk h num e' ys =
     (if num = block_height e' - h then e' # ys
      else if is_missing e' then e'\<lparr>block_height := h + num\<rparr> # ys
      else \<lparr>block_height = block_height e' - num, ty = Missing\<rparr> # e' # ys)"

lemma shrink_after_eq:
  assumes "length xs = i" "h < block_height e'" "num \<noteq> 0"
  shows "shrink_after (xs @ e # e' # ys) i h (block_height e' - h) num =
    (if block_height e' - h < num then None else Some (xs @ e # shrunk h num e' ys))"
proof -
  have nth: "(xs @ e # e' # ys) ! (i + 1) = e'" using assms(1) by (simp add: nth_append)
  have upd: "(xs @ e # e' # ys)[i + 1 := e''] = xs @ e # e'' # ys" for e'' using assms(1) update_at_length [of "xs @ [e]" "i + 1"] by simp
  have ins: "vec_insert (i + 1) e'' (xs @ e # e' # ys) = xs @ e # e'' # e' # ys" for e''
    using assms(1) vec_insert_at_length [of "xs @ [e]" "i + 1"] by simp
  let ?gap = "block_height e' - h"
  have "nonzero (block_height e' - (?gap - num)) = Some (h + num)" "nonzero (h + (?gap - num)) = Some (block_height e' - num)"
    if "num < ?gap"
  proof -
    have new: "block_height e' - (?gap - num) = h + num" "h + (?gap - num) = block_height e' - num" by simp_all
    have "0 < num" using assms(3) by (simp add: word_neq_0_conv)
    note b = heights_between [OF assms(2) this that]
    show "nonzero (block_height e' - (?gap - num)) = Some (h + num)" "nonzero (h + (?gap - num)) = Some (block_height e' - num)"
      unfolding new by (rule nonzero_above [OF b(1)], rule nonzero_above [OF b(3)])
  qed
  then show ?thesis
    unfolding shrink_after_def nth upd ins Let_def shrunk_def by (cases "?gap < num"; cases "?gap = num") simp_all
qed

lemma shrunk_ok:
  assumes "h < block_height e'" "num \<noteq> 0" "\<not> block_height e' - h < num"
    and "successively (fits blk) (e' # ys)" "is_missing (last (e' # ys))"
  shows "shrunk h num e' ys \<noteq> []" "successively (fits blk) (shrunk h num e' ys)" "is_missing (last (shrunk h num e' ys))"
    "h < block_height (hd (shrunk h num e' ys))"
    "num = block_height e' - h \<or> is_missing e' \<Longrightarrow> block_height (hd (shrunk h num e' ys)) = h + num"
proof -
  let ?gap = "block_height e' - h"
  show "shrunk h num e' ys \<noteq> []" by (simp add: shrunk_def)
  show "num = ?gap \<or> is_missing e' \<Longrightarrow> block_height (hd (shrunk h num e' ys)) = h + num" by (auto simp: shrunk_def)
  have b: "h < h + num" "h + num < block_height e'" "h < block_height e' - num" "block_height e' - num < block_height e'" if "num \<noteq> ?gap"
    using heights_between [OF assms(1), of num] assms(2,3) that by (simp_all add: word_neq_0_conv)
  show "successively (fits blk) (shrunk h num e' ys)"
  proof (cases "num = ?gap")
    case False
    have "successively (fits blk) (e'\<lparr>block_height := h + num\<rparr> # ys)" if "is_missing e'"
      using assms(4) that b(2) [OF False] by (cases ys) (auto simp: fits_not_queued is_missing_iff)
    then show ?thesis using assms(4) b [OF False] False by (simp add: shrunk_def fits_not_queued)
  qed (use assms(4) in \<open>simp add: shrunk_def\<close>)
  show "is_missing (last (shrunk h num e' ys))" using assms(5) by (cases ys) (auto simp: shrunk_def is_missing_iff)
  show "h < block_height (hd (shrunk h num e' ys))" using assms(1) b by (auto simp: shrunk_def)
qed

lemma shrink_after_split:
  assumes "length xs = i" "h < block_height e'" "num \<noteq> 0"
    and "successively (fits blk) (e' # ys)" "is_missing (last (e' # ys))"
    and "shrink_after (xs @ e # e' # ys) i h (block_height e' - h) num = Some q"
  shows "\<exists>tail. q = xs @ e # tail \<and> tail \<noteq> [] \<and> successively (fits blk) tail \<and> is_missing (last tail) \<and>
    h < block_height (hd tail) \<and> (num = block_height e' - h \<or> is_missing e' \<longrightarrow> block_height (hd tail) = h + num)"
proof -
  have q: "\<not> block_height e' - h < num" "q = xs @ e # shrunk h num e' ys"
    using assms(6) unfolding shrink_after_eq [OF assms(1-3)] by (auto split: if_splits)
  from shrunk_ok [OF assms(2,3) q(1) assms(4,5)] q(2) show ?thesis by blast
qed

lemma insert_pos_bounds:
  assumes "insert_pos q h = Some pos" "q \<noteq> []"
  shows "pos < length q" "block_height (q ! pos) \<le> h" "pos + 1 < length q \<Longrightarrow> h < block_height (q ! (pos + 1))"
proof -
  have *: "pos < length q \<and> block_height (q ! pos) \<le> h \<and> (pos + 1 < length q \<longrightarrow> h < block_height (q ! (pos + 1)))"
  proof (cases "position (\<lambda>entry. block_height entry > h) q")
    case None
    then have "pos = length q - 1" using assms(1) unfolding insert_pos_def None by simp
    moreover have "block_height (q ! pos) \<le> h" if "pos < length q" using None that nth_mem [of pos q] by (simp add: not_less)
    ultimately show ?thesis using assms(2) by simp
  next
    case (Some n)
    then obtain m where n: "n = Suc m" "pos = m" using assms(1) by (cases n) (simp_all add: insert_pos_def)
    from position_SomeD [OF Some] n show ?thesis by (simp add: not_less)
  qed
  then show "pos < length q" "block_height (q ! pos) \<le> h" "pos + 1 < length q \<Longrightarrow> h < block_height (q ! (pos + 1))" by simp_all
qed

lemma place_request_split:
  assumes "length xs = pos" "is_missing e" "block_height e \<le> h"
  shows "\<exists>pre. place_request (xs @ e # ys) pos h s r = (xs @ pre @ \<lparr>block_height = h, ty = Requested r s\<rparr> # ys, length (xs @ pre)) \<and>
    (pre = [] \<and> block_height e = h \<or> pre = [\<lparr>block_height = block_height e, ty = Missing\<rparr>] \<and> block_height e < h)"
proof (cases "block_height e < h")
  case True
  have "place_request (xs @ e # ys) pos h s r =
      ((xs @ [\<lparr>block_height = block_height e, ty = Missing\<rparr>]) @ \<lparr>block_height = h, ty = Requested r s\<rparr> # ys, pos + 1)"
    using True assms(1) update_at_length [of "xs @ [\<lparr>block_height = block_height e, ty = Missing\<rparr>]" "pos + 1"]
    by (simp add: place_request_def Let_def nth_append)
  with True assms(1) show ?thesis by (intro exI [of _ "[\<lparr>block_height = block_height e, ty = Missing\<rparr>]"]) simp
next
  case False
  then have "block_height e = h" using assms(3) by simp
  then show ?thesis using assms(1) by (intro exI [of _ "[]"]) (cases e, simp add: place_request_def Let_def nth_append)
qed

lemma vq_ok_before:
  assumes "vq_ok blk (xs @ e # ys)" "pre = [] \<and> block_height e = h \<or> pre = [\<lparr>block_height = block_height e, ty = Missing\<rparr>] \<and> block_height e < h"
    and "tail \<noteq> []" "successively (fits blk) tail" "is_missing (last tail)" "h < block_height (hd tail)"
  shows "vq_ok blk ((xs @ pre) @ \<lparr>block_height = h, ty = Requested r s\<rparr> # tail)"
proof -
  have t: "successively (fits blk) (\<lparr>block_height = h, ty = Requested r s\<rparr> # tail)"
    using assms(3,4,6) by (cases tail) (simp_all add: fits_not_queued)
  show ?thesis using assms(2)
  proof (elim disjE conjE)
    assume "pre = []" "block_height e = h"
    then show ?thesis using vq_ok_same_height [OF assms(1) _ t] assms(3,5) by simp
  next
    assume pre: "pre = [\<lparr>block_height = block_height e, ty = Missing\<rparr>]" "block_height e < h"
    have "successively (fits blk) (\<lparr>block_height = block_height e, ty = Missing\<rparr> # \<lparr>block_height = h, ty = Requested r s\<rparr> # tail)"
      using t pre(2) by (simp add: fits_not_queued)
    then show ?thesis using vq_ok_same_height [OF assms(1), of "\<lparr>block_height = block_height e, ty = Missing\<rparr>"] assms(3,5) pre(1) by simp
  qed
qed

lemma unat_u32_to_u64: "unat (ucast n :: u64) = unat n" for n :: u32
proof -
  have "unat n < 2 ^ 64" using unsigned_less [of n, where ?'a = nat] by simp
  then show ?thesis by (simp add: unsigned_ucast_eq take_bit_nat_eq_self)
qed

lemma push_missing_eq:
  "push_missing q h = Some q' \<longleftrightarrow> (\<exists>a. h = Some a \<and> a \<noteq> 0 \<and> q' = q @ [\<lparr>block_height = a, ty = Missing\<rparr>])"
  by (auto simp: push_missing_def nonzero_def bind_eq_Some_conv)

lemma checked_add_above:
  assumes "checked_add_u64 h n = Some a" "n \<noteq> 0"
  shows "h < a \<and> a - h = n"
proof -
  have a: "unat h + unat n < 2 ^ 64" "a = h + n" using assms(1) by (auto simp: checked_add_u64_def split: if_splits)
  then have "unat a = unat h + unat n" by (simp add: unat_add_lem [THEN iffD1])
  moreover have "0 < unat n" using assms(2) by (simp add: unat_gt_0)
  ultimately show ?thesis using a(2) by (simp add: word_less_nat_alt)
qed

lemma insert_request_ok:
  assumes "vq_ok blk q" "n \<noteq> 0" "insert_request q h n s r = Some (res, q')"
  shows "vq_ok blk q' \<and> block_height (hd q') = block_height (hd q)"
proof (cases "\<exists>pos. insert_pos q h = Some pos \<and> is_missing (q ! pos)")
  case False
  then have "q' = q" using assms(3) by (auto simp: insert_request_def split: if_splits option.splits)
  with assms(1) show ?thesis by simp
next
  case True
  then obtain pos where pos: "insert_pos q h = Some pos" "is_missing (q ! pos)" by blast
  have ne: "q \<noteq> []" using assms(1) by (simp add: vq_ok_def)
  note b = insert_pos_bounds [OF pos(1) ne]
  obtain xs ys where q: "q = xs @ q ! pos # ys" "length xs = pos" by (rule nth_split [OF b(1)])
  define e where "e = q ! pos"
  have q_eq: "q = xs @ e # ys" unfolding e_def by (rule q(1))
  have e: "is_missing e" "block_height e \<le> h" unfolding e_def by (fact pos(2), fact b(2))
  obtain pre where pre: "place_request q pos h s r = (xs @ pre @ \<lparr>block_height = h, ty = Requested r s\<rparr> # ys, length (xs @ pre))"
    "pre = [] \<and> block_height e = h \<or> pre = [\<lparr>block_height = block_height e, ty = Missing\<rparr>] \<and> block_height e < h"
    using place_request_split [OF q(2) e, of ys s r] unfolding q_eq [symmetric] by blast
  let ?req = "\<lparr>block_height = h, ty = Requested r s\<rparr> :: ('b, 'a) vq_entry"
  have n: "(ucast n :: u64) \<noteq> 0" using assms(2) unat_u32_to_u64 [of n] by (metis unat_eq_0)
  have ok: "successively (fits blk) (e # ys)" "is_missing (last (e # ys))" using assms(1) unfolding q_eq vq_ok_split by simp_all
  obtain e' zs where tail: "h < block_height e'" "successively (fits blk) (e' # zs)" "is_missing (last (e' # zs))"
    "shrink_after ((xs @ pre) @ ?req # e' # zs) (length (xs @ pre)) h (block_height e' - h) (ucast n) = Some q'"
  proof (cases ys)
    case Nil
    then obtain a where a: "checked_add_u64 h (ucast n) = Some a"
      "shrink_after ((xs @ pre) @ [?req, \<lparr>block_height = a, ty = Missing\<rparr>]) (length (xs @ pre)) h (a - h) (ucast n) = Some q'"
      using assms(3) ne pos pre(1) by (auto simp: insert_request_def push_missing_eq bind_eq_Some_conv nth_append)
    show thesis by (rule that [of "\<lparr>block_height = a, ty = Missing\<rparr>" "[]"])
      (use a checked_add_above [OF a(1) n] in \<open>simp_all add: is_missing_iff\<close>)
  next
    case (Cons e' zs)
    then have "q ! (pos + 1) = e'" "pos + 1 < length q" unfolding q_eq using q(2) by (simp_all add: nth_append)
    then have "h < block_height e'" using b(3) by simp
    moreover have "shrink_after ((xs @ pre) @ ?req # e' # zs) (length (xs @ pre)) h (block_height e' - h) (ucast n) = Some q'"
      using assms(3) ne pos pre(1) Cons by (auto simp: insert_request_def nth_append)
    ultimately show thesis using that [of e' zs] ok Cons by simp
  qed
  from shrink_after_split [OF refl tail(1) n tail(2,3,4)] obtain tl where
    tl: "q' = (xs @ pre) @ ?req # tl" "tl \<noteq> []" "successively (fits blk) tl" "is_missing (last tl)" "h < block_height (hd tl)"
    by blast
  have "vq_ok blk q'" unfolding tl(1) by (rule vq_ok_before [OF assms(1) [unfolded q_eq] pre(2) tl(2-5)])
  moreover have "block_height (hd q') = block_height (hd q)" unfolding tl(1) q_eq using pre(2) by (cases xs) auto
  ultimately show ?thesis by simp
qed

section \<open>Answers\<close>

text \<open>
  A correct answer to the request that is looked for: blocks of the chain from the height of the
  request on, at least one, and not fewer than the distance to the next entry if something
  has already been requested there.
\<close>

definition answer_fits :: "(u64 \<Rightarrow> 'b) \<Rightarrow> ('r, 'b) verification_queue \<Rightarrow> ('r \<Rightarrow> bool) \<Rightarrow> 'b list \<Rightarrow> bool" where
  "answer_fits blk q request_find bs \<longleftrightarrow>
     (case find_request request_find q of
        None \<Rightarrow> False
      | Some i \<Rightarrow> bs \<noteq> [] \<and> bs = blocks_from blk (block_height (q ! i)) (length bs) \<and>
          (is_missing (q ! (i + 1)) \<or> unat (block_height (q ! (i + 1)) - block_height (q ! i)) \<le> length bs))"

lemma find_request_split:
  assumes "find_request f q = Some i" "i + 1 < length q"
  obtains xs e e' ys r s where "q = xs @ e # e' # ys" "length xs = i" "ty e = Requested r s" "f r" "q ! i = e" "q ! (i + 1) = e'"
proof -
  have "i < length q" "case ty (q ! i) of Requested r _ \<Rightarrow> f r | _ \<Rightarrow> False"
    using position_SomeD [OF assms(1) [unfolded find_request_def]] by simp_all
  then obtain r s where r: "ty (q ! i) = Requested r s" "f r" by (cases "ty (q ! i)") simp_all
  obtain xs zs where q: "q = xs @ q ! i # zs" "length xs = i" by (rule nth_split [OF \<open>i < length q\<close>])
  have "zs \<noteq> []" using arg_cong [OF q(1), of length] assms(2) q(2) by auto
  then obtain e' ys where zs: "zs = e' # ys" by (cases zs) simp_all
  have "q ! (i + 1) = (xs @ q ! i # e' # ys) ! (i + 1)" using q(1) unfolding zs by (rule arg_cong)
  then have "q ! (i + 1) = e'" using q(2) by (simp add: nth_append)
  with q r zs that show thesis by metis
qed

lemma store_blocks_eq:
  assumes "length xs = i" "block_height e < block_height e'" "take (unat (block_height e' - block_height e)) bs \<noteq> []"
  shows "store_blocks (xs @ e # e' # ys) i s bs =
    (let bs' = take (unat (block_height e' - block_height e)) bs
     in Some (xs @ e\<lparr>ty := Queued s bs'\<rparr> # shrunk (block_height e) (of_nat (length bs')) e' ys))"
proof -
  let ?gap = "block_height e' - block_height e"
  define bs' where "bs' = take (unat ?gap) bs"
  define q where "q = xs @ e\<lparr>ty := Queued s bs'\<rparr> # e' # ys"
  let ?n = "of_nat (length bs') :: u64"
  have nth: "(xs @ e # e' # ys) ! i = e" "(xs @ e # e' # ys) ! (i + 1) = e'" using assms(1) by (simp_all add: nth_append)
  have q: "(xs @ e # e' # ys)[i := e\<lparr>ty := Queued s bs'\<rparr>] = q" "block_height (q ! i) = block_height e"
    using assms(1) by (simp_all add: q_def nth_append)
  have len: "length bs' \<le> unat ?gap" "0 < length bs'" using assms(3) by (simp_all add: bs'_def)
  then have "unat ?n = length bs'" using unsigned_less [of ?gap, where ?'a = nat] by (simp add: unat_of_nat take_bit_nat_eq_self)
  then have n: "\<not> ?gap < ?n" "?n \<noteq> 0" using len by (auto simp: word_less_nat_alt)
  have "shrink_after q i (block_height e) ?gap ?n = Some (xs @ e\<lparr>ty := Queued s bs'\<rparr> # shrunk (block_height e) ?n e' ys)"
    unfolding q_def shrink_after_eq [OF assms(1,2) n(2)] using n(1) by simp
  moreover have "i \<noteq> length (xs @ e\<lparr>ty := Queued s bs'\<rparr> # shrunk (block_height e) ?n e' ys) - 1"
    using assms(1) by (simp add: shrunk_def)
  ultimately show ?thesis
    unfolding store_blocks_def Let_def nth bs'_def [symmetric] q by (simp del: length_append)
qed

lemma store_blocks_ok:
  assumes "vq_ok blk (xs @ e # e' # ys)" "length xs = i" "ty e = Requested r s'" "bs \<noteq> []"
    and "bs = blocks_from blk (block_height e) (length bs)"
    and "is_missing e' \<or> unat (block_height e' - block_height e) \<le> length bs"
    and "store_blocks (xs @ e # e' # ys) i s bs = Some q'"
  shows "vq_ok blk q' \<and> block_height (hd q') = block_height (hd (xs @ e # e' # ys))"
proof -
  let ?h = "block_height e" and ?gap = "block_height e' - block_height e"
  define m where "m = min (unat ?gap) (length bs)"
  define eq where "eq = e\<lparr>ty := Queued s (blocks_from blk ?h m)\<rparr>"
  have ok: "successively (fits blk) (e' # ys)" "is_missing (last (e' # ys))" "?h < block_height e'"
    using assms(1) fits_height unfolding vq_ok_split by auto
  have gap: "?gap \<noteq> 0" using ok(3) by auto
  have tk: "take (unat ?gap) bs = blocks_from blk ?h m" using assms(5) by (metis m_def take_blocks_from)
  have m: "0 < m" "unat (of_nat m :: u64) = m" "unat ?gap \<le> length bs \<Longrightarrow> of_nat m = ?gap"
    using assms(4) gap unsigned_less [of ?gap, where ?'a = nat]
    by (simp_all add: m_def unat_gt_0 unat_of_nat take_bit_nat_eq_self min_def)
  from m(1,2) have m0: "(of_nat m :: u64) \<noteq> 0" by (metis less_irrefl unat_0)
  define tail where "tail = shrunk ?h (of_nat m) e' ys"
  have "\<not> ?gap < of_nat m" using m(2) by (simp add: word_less_nat_alt not_less m_def)
  note tail = shrunk_ok [OF ok(3) m0 this ok(1,2), folded tail_def]
  have "take (unat ?gap) bs \<noteq> []" using m(1) unfolding tk by (auto simp: blocks_from_def)
  from store_blocks_eq [OF assms(2) ok(3) this, of ys s] have "q' = xs @ eq # tail"
    using assms(7) unfolding tk Let_def length_blocks_from by (simp add: eq_def tail_def)
  moreover have "fits blk eq (hd tail)"
    using tail(4,5) m assms(6) by (auto simp: fits_def eq_def)
  then have "successively (fits blk) (eq # tail)" using tail(1,2) by (cases tail) simp_all
  then have "vq_ok blk (xs @ eq # tail)"
    using vq_ok_same_height [OF assms(1), of eq tail] tail(1,3) by (simp add: eq_def)
  moreover have "block_height (hd (xs @ eq # tail)) = block_height (hd (xs @ e # e' # ys))" by (cases xs) (simp_all add: eq_def)
  ultimately show ?thesis by simp
qed

lemma vq_ok_drop_missing:
  assumes "vq_ok blk (xs @ e # e' # ys)" "is_missing e" "is_missing e'"
  shows "vq_ok blk (xs @ e # ys)"
proof -
  have "successively (fits blk) (e # ys)"
    using assms unfolding vq_ok_split by (cases ys) (auto simp: fits_not_queued is_missing_iff)
  moreover have "is_missing (last (e # ys))" using assms unfolding vq_ok_split by (cases ys) simp_all
  ultimately show ?thesis using vq_ok_same_height [OF assms(1)] by simp
qed

lemma vq_ok_set_missing:
  assumes "vq_ok blk (xs @ e # ys)" "ty e = Requested r s"
  shows "vq_ok blk (xs @ e\<lparr>ty := Missing\<rparr> # ys)"
proof -
  have "successively (fits blk) (e\<lparr>ty := Missing\<rparr> # ys)"
    using assms unfolding vq_ok_split by (cases ys) (auto simp: fits_not_queued)
  moreover have "is_missing (last (e\<lparr>ty := Missing\<rparr> # ys))"
    using assms unfolding vq_ok_split by (cases ys) (simp_all add: is_missing_iff)
  ultimately show ?thesis using vq_ok_same_height [OF assms(1)] by simp
qed

lemma fail_request_ok:
  assumes "vq_ok blk (xs @ e # e' # ys)" "length xs = i" "ty e = Requested r s"
  shows "vq_ok blk (fail_request (xs @ e # e' # ys) i) \<and>
    block_height (hd (fail_request (xs @ e # e' # ys) i)) = block_height (hd (xs @ e # e' # ys))"
proof -
  let ?e = "e\<lparr>ty := Missing\<rparr>"
  note ok = vq_ok_set_missing [OF assms(1,3)]
  have "fail_request (xs @ e # e' # ys) i = (if is_missing e' then xs @ ?e # ys else xs @ ?e # e' # ys)"
    using assms(2) vec_remove_at_length [of "xs @ [?e]" "i + 1" e' ys]
    by (simp add: fail_request_def Let_def nth_append)
  moreover have "vq_ok blk (xs @ ?e # ys)" if "is_missing e'"
    by (rule vq_ok_drop_missing [OF ok _ that]) (simp add: is_missing_iff)
  ultimately show ?thesis using ok by (cases xs) simp_all
qed

lemma vq_finish_request_ok:
  assumes "vq_ok blk q" "vq_finish_request q f result = Some (res, q')" "\<And>bs. result = Some bs \<Longrightarrow> answer_fits blk q f bs"
  shows "vq_ok blk q' \<and> block_height (hd q') = block_height (hd q)"
proof -
  obtain i where i: "find_request f q = Some i" "i + 1 < length q"
  proof -
    from assms(2) obtain i where i: "find_request f q = Some i" by (auto simp: vq_finish_request_def bind_eq_Some_conv)
    with assms(2) have "i + 1 < length q" by (cases "ty (q ! i)") (simp_all add: vq_finish_request_def split: if_splits)
    with i that show thesis by blast
  qed
  from i obtain xs e e' ys r s where q: "q = xs @ e # e' # ys" "length xs = i" "ty e = Requested r s" "q ! i = e" "q ! (i + 1) = e'"
    by (rule find_request_split)
  show ?thesis
  proof (cases result)
    case None
    then have "q' = fail_request q i" using assms(2) i q(3,4) by (simp add: vq_finish_request_def)
    with fail_request_ok [OF assms(1) [unfolded q(1)] q(2,3)] show ?thesis unfolding q(1) by simp
  next
    case (Some bs)
    then have "store_blocks (xs @ e # e' # ys) i s bs = Some q'"
      using assms(2) i q(3,4) unfolding q(1) [symmetric] by (simp add: vq_finish_request_def)
    moreover have "answer_fits blk q f bs" using assms(3) Some by simp
    ultimately show ?thesis
      using store_blocks_ok [OF assms(1) [unfolded q(1)] q(2,3), of bs s q'] i q(4,5)
      unfolding answer_fits_def q(1) [symmetric] by simp
  qed
qed

section \<open>Dropping the requests of a source\<close>

lemma source_drain_next_ok:
  assumes "vq_ok blk q"
  shows "vq_ok blk (snd (source_drain_next s q)) \<and> block_height (hd (snd (source_drain_next s q))) = block_height (hd q)"
proof (cases "position (\<lambda>entry. case ty entry of Requested _ source \<Rightarrow> source = s | _ \<Rightarrow> False) q")
  case None
  show ?thesis unfolding source_drain_next_def None using assms by simp
next
  case (Some i)
  from position_SomeD [OF Some] obtain r where r: "i < length q" "ty (q ! i) = Requested r s"
    by (cases "ty (q ! i)") simp_all
  obtain xs ys where q: "q = xs @ q ! i # ys" "length xs = i" by (rule nth_split [OF r(1)])
  define e where "e = q ! i"
  have q_eq: "q = xs @ e # ys" unfolding e_def by (rule q(1))
  have e: "ty e = Requested r s" using r(2) by (simp add: e_def)
  have "snd (source_drain_next s q) = q[i := e\<lparr>ty := Missing\<rparr>]" unfolding source_drain_next_def Some using r(2) by (simp add: e_def)
  also have "\<dots> = xs @ e\<lparr>ty := Missing\<rparr> # ys" unfolding q_eq using q(2) by simp
  finally have new: "snd (source_drain_next s q) = xs @ e\<lparr>ty := Missing\<rparr> # ys" .
  have "block_height (hd (xs @ e\<lparr>ty := Missing\<rparr> # ys)) = block_height (hd (xs @ e # ys))" by (cases xs) simp_all
  then show ?thesis using vq_ok_set_missing [OF assms [unfolded q_eq] e] unfolding new q_eq [symmetric] by simp
qed

lemma merge_step_ok:
  assumes "vq_ok blk q" "0 < i" "i < length q" "is_missing (q ! i)" "is_missing (q ! (i - 1))"
  shows "vq_ok blk (vec_remove i q) \<and> block_height (hd (vec_remove i q)) = block_height (hd q) \<and> length (vec_remove i q) = length q - 1"
proof -
  define e where "e = q ! (i - 1)"
  define e' where "e' = q ! i"
  have "drop (i - 1) q = e # e' # drop (i + 1) q"
    using assms(2,3) Cons_nth_drop_Suc [of "i - 1" q] Cons_nth_drop_Suc [of i q] by (simp add: e_def e'_def)
  then have q: "q = take (i - 1) q @ e # e' # drop (i + 1) q" by (metis append_take_drop_id)
  have rm: "vec_remove i q = take (i - 1) q @ e # drop (i + 1) q"
    using assms(2,3) take_Suc_conv_app_nth [of "i - 1" q] by (simp add: vec_remove_def e_def)
  have "vq_ok blk (take (i - 1) q @ e # e' # drop (i + 1) q)" using assms(1) q by simp
  then have "vq_ok blk (vec_remove i q)"
    unfolding rm by (rule vq_ok_drop_missing) (unfold e_def e'_def, fact assms(5), fact assms(4))
  moreover have "hd (vec_remove i q) = hd (take (i - 1) q @ e # e' # drop (i + 1) q)" unfolding rm by (simp add: hd_append)
  then have "hd (vec_remove i q) = hd q" using q by simp
  ultimately show ?thesis using assms(3) by simp
qed

lemma source_drain_drop_ok:
  assumes "vq_ok blk q"
  shows "vq_ok blk (source_drain_drop q) \<and> block_height (hd (source_drain_drop q)) = block_height (hd q)"
proof -
  let ?f = "\<lambda>q index. if is_missing (q ! index) \<and> is_missing (q ! (index - 1)) then vec_remove index q else q"
  have "vq_ok blk (foldl ?f q (rev [1..<n])) \<and> block_height (hd (foldl ?f q (rev [1..<n]))) = block_height (hd q)"
    if "vq_ok blk q" "n \<le> length q" for n q
    using that
  proof (induction n arbitrary: q)
    case (Suc n)
    show ?case
    proof (cases "1 \<le> n")
      case True
      then have step: "rev [1..<Suc n] = n # rev [1..<n]" by simp
      have "vq_ok blk (?f q n) \<and> block_height (hd (?f q n)) = block_height (hd q) \<and> n \<le> length (?f q n)"
        using merge_step_ok [OF Suc.prems(1), of n] Suc.prems(2) Suc.prems(1) True by auto
      with Suc.IH [of "?f q n"] show ?thesis unfolding step by simp
    next
      case False
      then show ?thesis using Suc.prems by simp
    qed
  qed simp
  from this [OF assms order_refl] show ?thesis unfolding source_drain_drop_def .
qed

end
