(* ===== verification/Verification_Queue_Runs.thy ===== *)
theory Verification_Queue_Runs
  imports Verification_Queue_Props
begin

text \<open>
  The runs of the verification queue, and its properties: the blocks come out in order, the wanted
  ranges are the missing ones, and what answers that are too short or empty do.
\<close>

section \<open>Runs\<close>

text \<open>The blocks handed out so far are part of the state of a run.\<close>

inductive vq_reach :: "(u64 \<Rightarrow> 'b) \<Rightarrow> u64 \<Rightarrow> ('r, 'b) verification_queue \<Rightarrow> 'b list \<Rightarrow> bool" for blk base where
  new: "vq_new base = Some q \<Longrightarrow> vq_reach blk base q []"
| insert: "vq_reach blk base q ps \<Longrightarrow> n \<noteq> 0 \<Longrightarrow> insert_request q h n s r = Some (res, q') \<Longrightarrow> vq_reach blk base q' ps"
| answer: "vq_reach blk base q ps \<Longrightarrow> answer_fits blk q f bs \<Longrightarrow> vq_finish_request q f (Some bs) = Some (res, q') \<Longrightarrow>
    vq_reach blk base q' ps"
| failure: "vq_reach blk base q ps \<Longrightarrow> vq_finish_request q f None = Some (res, q') \<Longrightarrow> vq_reach blk base q' ps"
| drain: "vq_reach blk base q ps \<Longrightarrow>
    vq_reach blk base (source_drain_drop (((\<lambda>q. snd (source_drain_next s q)) ^^ k) q)) ps"
| pop: "vq_reach blk base q ps \<Longrightarrow> pop_first_block q = Some (Some (b, s), q') \<Longrightarrow> vq_reach blk base q' (ps @ [b])"

lemma heights_step: "h < a \<Longrightarrow> h < h + 1 \<and> h + 1 \<le> a" for h a :: u64
  by unat_arith

lemma vq_ok_front:
  assumes "vq_ok blk q" "ty (hd q) = Queued s bs"
  obtains e e' es m where "q = e # e' # es" "ty e = Queued s bs" "bs = blocks_from blk (block_height e) (Suc m)"
    "block_height e' = block_height e + of_nat (Suc m)" "block_height e < block_height e'"
    "Suc m = unat (block_height e' - block_height e)"
proof -
  have "q \<noteq> []" "is_missing (last q)" using assms(1) by (simp_all add: vq_ok_def)
  then obtain e es where q: "q = e # es" "es \<noteq> []" using assms(2) by (cases q) (auto simp: is_missing_iff split: if_splits)
  then obtain e' zs where es: "es = e' # zs" by (cases es) simp_all
  have "fits blk e e'" using assms(1) unfolding vq_ok_def q es by simp
  then have e: "block_height e < block_height e'" "bs = blocks_from blk (block_height e) (unat (block_height e' - block_height e))"
    using assms(2) q(1) by (simp_all add: fits_def)
  have "block_height e' - block_height e \<noteq> 0" using e(1) by auto
  then obtain m where m: "unat (block_height e' - block_height e) = Suc m" by (metis not0_implies_Suc unat_eq_0)
  have "(of_nat (Suc m) :: u64) = of_nat (unat (block_height e' - block_height e))" by (simp only: m)
  also have "\<dots> = block_height e' - block_height e" by simp
  finally have h': "block_height e' = block_height e + of_nat (Suc m)" by (simp del: of_nat_Suc)
  have "q = e # e' # zs" "ty e = Queued s bs" using q es assms(2) by simp_all
  then show thesis using e(2) unfolding m by (rule that) (fact h', fact e(1), rule m [symmetric])
qed

lemma pop_first_block_ok:
  assumes "vq_ok blk q"
  shows "case ty (hd q) of
      Queued s bs \<Rightarrow> \<exists>q'. pop_first_block q = Some (Some (blk (block_height (hd q)), s), q') \<and>
        first_block q = Some (Some (blk (block_height (hd q)))) \<and>
        vq_ok blk q' \<and> block_height (hd q') = block_height (hd q) + 1
    | _ \<Rightarrow> pop_first_block q = Some (None, q) \<and> first_block q = Some None"
proof (cases "ty (hd q)")
  case (Queued s bs)
  from vq_ok_front [OF assms Queued] obtain e e' es m where
    q: "q = e # e' # es" "ty e = Queued s bs" "bs = blocks_from blk (block_height e) (Suc m)"
    "block_height e' = block_height e + of_nat (Suc m)" "block_height e < block_height e'"
    "Suc m = unat (block_height e' - block_height e)" by metis
  let ?h = "block_height e"
  have bs: "bs = blk ?h # blocks_from blk (?h + 1) m" using q(3) by (simp add: blocks_from_Suc)
  have le: "?h < ?h + 1" "?h + 1 \<le> block_height e'" using heights_step [OF q(5)] by simp_all
  have ok: "vq_ok blk (e' # es)" using assms unfolding q(1) by (simp add: vq_ok_def)
  have "pop_first_block q = Some (Some (blk ?h, s),
      if m = 0 then e' # es else \<lparr>block_height = ?h + 1, ty = Queued s (blocks_from blk (?h + 1) m)\<rparr> # e' # es)"
    using nonzero_above [OF le(1)] by (simp add: pop_first_block_def q(1,2) bs blocks_from_def)
  moreover have "vq_ok blk (\<lparr>block_height = ?h + 1, ty = Queued s (blocks_from blk (?h + 1) m)\<rparr> # e' # es)" if "m \<noteq> 0"
  proof -
    have "block_height e' - (?h + 1) = block_height e' - ?h - 1" by simp
    moreover have "block_height e' - ?h \<noteq> 0" using q(5) by auto
    ultimately have u: "unat (block_height e' - (?h + 1)) = m" using q(6) by (metis diff_Suc_1 unat_minus_one)
    then have "?h + 1 \<noteq> block_height e'" using that by auto
    then have "fits blk \<lparr>block_height = ?h + 1, ty = Queued s (blocks_from blk (?h + 1) m)\<rparr> e'"
      using le(2) u by (simp add: fits_def)
    with ok show ?thesis by (simp add: vq_ok_def)
  qed
  moreover have "first_block q = Some (Some (blk ?h))" by (simp add: first_block_def q(1,2) bs)
  ultimately show ?thesis using Queued ok q(1,4) by auto
next
  case Missing
  then show ?thesis using assms by (cases q) (simp_all add: vq_ok_def pop_first_block_def first_block_def)
next
  case (Requested r s)
  then show ?thesis using assms by (cases q) (simp_all add: vq_ok_def pop_first_block_def first_block_def)
qed

lemma drain_many_ok:
  "vq_ok blk q \<Longrightarrow> vq_ok blk (((\<lambda>q. snd (source_drain_next s q)) ^^ k) q) \<and>
     block_height (hd (((\<lambda>q. snd (source_drain_next s q)) ^^ k) q)) = block_height (hd q)"
proof (induction k)
  case (Suc k)
  then show ?case using source_drain_next_ok [of blk "((\<lambda>q. snd (source_drain_next s q)) ^^ k) q" s] by simp
qed simp

lemma vq_reach_ok:
  "vq_reach blk base q ps \<Longrightarrow> vq_ok blk q \<and> block_height (hd q) = base + of_nat (length ps) \<and> ps = blocks_from blk base (length ps)"
proof (induction rule: vq_reach.induct)
  case (new q)
  then show ?case by (auto simp: vq_new_def nonzero_def vq_ok_def is_missing_iff blocks_from_def split: if_splits)
next
  case (insert q ps n h s r res q')
  then show ?case using insert_request_ok [of blk q n h s r res q'] by simp
next
  case (answer q ps f bs res q')
  then show ?case using vq_finish_request_ok [of blk q f "Some bs" res q'] by simp
next
  case (failure q ps f res q')
  then show ?case using vq_finish_request_ok [of blk q f None res q'] by simp
next
  case (drain q ps s k)
  then show ?case using drain_many_ok [of blk q, where k = k and s = s] source_drain_drop_ok [of blk "((\<lambda>q. snd (source_drain_next s q)) ^^ k) q"] by simp
next
  case (pop q ps b s q')
  have "b = blk (base + of_nat (length ps)) \<and> vq_ok blk q' \<and> block_height (hd q') = base + of_nat (length ps) + 1"
    using pop_first_block_ok [of blk q] pop by (cases "ty (hd q)") auto
  moreover have "blocks_from blk base (Suc (length ps)) = blocks_from blk base (length ps) @ [blk (base + of_nat (length ps))]"
    by (simp add: blocks_from_def)
  ultimately show ?case using pop.IH by simp
qed

text \<open>
  C4: whatever the order in which requests are started, answered, fail, and are dropped with their
  source, and as long as the answers are correct and long enough, the blocks that the queue
  hands out are the blocks of the chain in order, from the first height on, without gap and without
  repetition; looking at and taking the next block never panics, and yields a block exactly
  if the queue is ready.
\<close>

theorem blocks_come_in_order:
  assumes "vq_reach blk base q ps"
  shows "ps = blocks_from blk base (length ps) \<and> is_missing (last q) \<and>
    (\<exists>b. blocks_ready q = Some b \<and>
      first_block q = Some (if b then Some (blk (base + of_nat (length ps))) else None) \<and>
      (\<exists>s q'. pop_first_block q = Some (if b then (Some (blk (base + of_nat (length ps)), s), q') else (None, q))))"
proof -
  note ok = vq_reach_ok [OF assms]
  have "\<exists>b. blocks_ready q = Some b \<and>
      first_block q = Some (if b then Some (blk (block_height (hd q))) else None) \<and>
      (\<exists>s q'. pop_first_block q = Some (if b then (Some (blk (block_height (hd q)), s), q') else (None, q)))"
    using pop_first_block_ok [of blk q] ok
    by (cases q; cases "ty (hd q)") (auto simp: vq_ok_def blocks_ready_def)
  then show ?thesis using ok by (simp only: vq_ok_def simp_thms)
qed

definition sample_vq :: "(nat, u64) verification_queue" where
  "sample_vq = [\<lparr>block_height = 5, ty = Queued 9 [5, 6]\<rparr>, \<lparr>block_height = 7, ty = Missing\<rparr>]"

lemma sample_vq_reach: "vq_reach (\<lambda>h. h) 5 sample_vq []"
proof -
  let ?q = "[\<lparr>block_height = 5, ty = Requested 0 9\<rparr>, \<lparr>block_height = 7, ty = Missing\<rparr>] :: (nat, u64) verification_queue"
  have "vq_reach (\<lambda>h. h) 5 [\<lparr>block_height = 5, ty = Missing\<rparr>] []"
    by (rule vq_reach.new) (simp add: vq_new_def nonzero_def)
  then have "vq_reach (\<lambda>h. h) 5 ?q []"
    by (rule vq_reach.insert [where n = 2 and h = 5])
      (simp_all add: insert_request_def insert_pos_def is_missing_iff place_request_def push_missing_def checked_add_u64_def
        nonzero_def shrink_after_def)
  then show ?thesis
  proof (rule vq_reach.answer [where f = "\<lambda>r. True" and bs = "[5, 6]" and res = "(0, 9)"])
    show "answer_fits (\<lambda>h. h) ?q (\<lambda>r. True) [5, 6]"
      by (simp add: answer_fits_def find_request_def blocks_from_def is_missing_iff)
    show "vq_finish_request ?q (\<lambda>r. True) (Some [5, 6]) = Some ((0, 9), sample_vq)"
      by (simp add: find_request_def vq_finish_request_def store_blocks_def shrink_after_def sample_vq_def Let_def)
  qed
qed

theorem blocks_come_in_order_witness:
  "pop_first_block sample_vq = Some (Some (5, 9), [\<lparr>block_height = 6, ty = Queued 9 [6]\<rparr>, \<lparr>block_height = 7, ty = Missing\<rparr>]) \<and>
    first_block sample_vq = Some (Some 5)"
proof -
  have "blocks_ready sample_vq = Some True" by (simp add: blocks_ready_def sample_vq_def)
  then have "first_block sample_vq = Some (Some 5)" using blocks_come_in_order [OF sample_vq_reach] by auto
  then show ?thesis by (simp add: pop_first_block_def sample_vq_def nonzero_def)
qed


definition sample_vq2 :: "(nat, u64) verification_queue" where
  "sample_vq2 = [\<lparr>block_height = 5, ty = Requested 0 9\<rparr>, \<lparr>block_height = 15, ty = Requested 1 8\<rparr>, \<lparr>block_height = 25, ty = Missing\<rparr>]"

lemma sample_vq2_reach: "vq_reach (\<lambda>h. h) 5 sample_vq2 []"
proof -
  let ?q = "[\<lparr>block_height = 5, ty = Requested 0 9\<rparr>, \<lparr>block_height = 15, ty = Missing\<rparr>] :: (nat, u64) verification_queue"
  have "vq_reach (\<lambda>h. h) 5 [\<lparr>block_height = 5, ty = Missing\<rparr>] []"
    by (rule vq_reach.new) (simp add: vq_new_def nonzero_def)
  then have "vq_reach (\<lambda>h. h) 5 ?q []"
    by (rule vq_reach.insert [where n = 10 and h = 5])
      (simp_all add: insert_request_def insert_pos_def is_missing_iff place_request_def push_missing_def checked_add_u64_def
        nonzero_def shrink_after_def)
  then show ?thesis
    by (rule vq_reach.insert [where n = 10 and h = 15 and s = 8 and r = 1])
      (simp_all add: insert_request_def insert_pos_def is_missing_iff place_request_def push_missing_def checked_add_u64_def
        nonzero_def shrink_after_def sample_vq2_def)
qed


text \<open>
  C40: an empty answer to the first request is stored all the same: the queue then says that blocks
  are ready, and looking at or taking the first block panics.
\<close>

theorem empty_answer_panics:
  assumes "vq_reach blk base q ps" "find_request f q = Some 0" "vq_finish_request q f (Some []) = Some (res, q')"
  shows "blocks_ready q' = Some True \<and> first_block q' = None \<and> pop_first_block q' = None"
proof -
  have "1 < length q" using assms(2,3) by (cases "ty (q ! 0)") (simp_all add: vq_finish_request_def split: if_splits)
  then obtain e e' ys where q: "q = e # e' # ys" by (metis length_Suc_conv less_imp_Suc_add One_nat_def add_Suc)
  from assms(2,3) obtain r s where "store_blocks q 0 s [] = Some q'"
    by (cases "ty (q ! 0)") (auto simp: vq_finish_request_def split: if_splits)
  then obtain q1 a where q1: "shrink_after (e\<lparr>ty := Queued s []\<rparr> # e' # ys) 0 (block_height e) (block_height e' - block_height e) 0 = Some q1"
    "(if 0 = length q1 - 1 then push_missing q1 a else Some q1) = Some q'"
    unfolding store_blocks_def by (auto simp: q bind_eq_Some_conv)
  from q1(1) have "\<exists>e'' zs. q1 = e\<lparr>ty := Queued s []\<rparr> # e'' # zs"
    by (auto simp: shrink_after_def Let_def vec_insert_def split: if_splits)
  with q1(2) obtain e'' zs where "q' = e\<lparr>ty := Queued s []\<rparr> # e'' # zs" by auto
  then show ?thesis by (simp add: blocks_ready_def first_block_def pop_first_block_def)
qed

theorem empty_answer_panics_witness:
  "\<exists>res q'. vq_finish_request sample_vq2 (\<lambda>r. r = 0) (Some []) = Some (res, q') \<and>
    blocks_ready q' = Some True \<and> pop_first_block q' = None"
proof -
  have f: "find_request (\<lambda>r. r = 0) sample_vq2 = Some 0" by (simp add: find_request_def sample_vq2_def)
  moreover obtain res q' where fin: "vq_finish_request sample_vq2 (\<lambda>r. r = 0) (Some []) = Some (res, q')"
    by (simp add: vq_finish_request_def f) (simp add: sample_vq2_def store_blocks_def shrink_after_def is_missing_iff nonzero_def)
  ultimately show ?thesis using empty_answer_panics [OF sample_vq2_reach] by blast
qed

section \<open>The ranges to request\<close>
















end
