(* ===== verification/Addresses.thy ===== *)
theory Addresses
  imports Rust_Collections
begin

text \<open>
  The addresses of a peer with their connection states, \<^verbatim>\<open>src/network/service/addresses.rs\<close>. The
  type of addresses is a parameter. \<open>None\<close> as the result of an operation is a panic. The list
  refines a map from addresses to states, on which every operation is one step of the state
  machine of one address.
\<close>

section \<open>Model\<close>

datatype addr_state = Connected | PendingConnect | DisconnectedReachable | NotTried

record 'a addresses =
  addr_list :: "('a \<times> addr_state) list"

definition addrs_with_capacity :: "'a addresses" where
  "addrs_with_capacity = \<lparr>addr_list = []\<rparr>"

definition addrs_len :: "'a addresses \<Rightarrow> nat" where
  "addrs_len ad = length (addr_list ad)"

definition addrs_iter :: "'a addresses \<Rightarrow> 'a list" where
  "addrs_iter ad = map fst (addr_list ad)"

definition iter_connected :: "'a addresses \<Rightarrow> 'a list" where
  "iter_connected ad = map fst (filter (\<lambda>(_, s). s = Connected) (addr_list ad))"

definition addrs_is_empty :: "'a addresses \<Rightarrow> bool" where
  "addrs_is_empty ad = (addr_list ad = [])"

definition insert_discovered :: "'a addresses \<Rightarrow> 'a \<Rightarrow> 'a addresses" where
  "insert_discovered ad a =
     (if \<exists>(b, _) \<in> set (addr_list ad). b = a then ad
      else ad\<lparr>addr_list := addr_list ad @ [(a, NotTried)]\<rparr>)"

definition addrs_remove :: "'a addresses \<Rightarrow> 'a \<Rightarrow> bool \<times> 'a addresses" where
  "addrs_remove ad a =
     (case position (\<lambda>(b, _). b = a) (addr_list ad) of
        Some i \<Rightarrow> (True, ad\<lparr>addr_list := vec_remove i (addr_list ad)\<rparr>)
      | None \<Rightarrow> (False, ad))"

text \<open>Assigning to the state of the entry at an index.\<close>

definition set_state_at :: "nat \<Rightarrow> addr_state \<Rightarrow> 'a addresses \<Rightarrow> 'a addresses" where
  "set_state_at i s ad = ad\<lparr>addr_list := (addr_list ad)[i := (fst (addr_list ad ! i), s)]\<rparr>"

definition set_connected :: "'a addresses \<Rightarrow> 'a \<Rightarrow> 'a addresses option" where
  "set_connected ad a =
     (case position (\<lambda>(b, _). b = a) (addr_list ad) of
        Some i \<Rightarrow>
          if snd (addr_list ad ! i) = Connected then None
          else Some (set_state_at i Connected ad)
      | None \<Rightarrow> Some ad)"

definition set_disconnected :: "'a addresses \<Rightarrow> 'a \<Rightarrow> 'a addresses option" where
  "set_disconnected ad a =
     (case position (\<lambda>(b, _). b = a) (addr_list ad) of
        Some i \<Rightarrow>
          (case snd (addr_list ad ! i) of
             Connected \<Rightarrow> Some (set_state_at i DisconnectedReachable ad)
           | PendingConnect \<Rightarrow> Some (set_state_at i NotTried ad)
           | _ \<Rightarrow> None)
      | None \<Rightarrow> Some ad)"

definition addrs_shuffle :: "'a addresses \<Rightarrow> 'a addresses" where
  "addrs_shuffle ad =
     (case addr_list ad of
        [] \<Rightarrow> ad
      | item # rest \<Rightarrow> ad\<lparr>addr_list := rest @ [item]\<rparr>)"

definition addr_to_pending :: "'a addresses \<Rightarrow> 'a option \<times> 'a addresses" where
  "addr_to_pending ad =
     (case position (\<lambda>(_, s). s = DisconnectedReachable \<or> s = NotTried) (addr_list ad) of
        None \<Rightarrow> (None, ad)
      | Some i \<Rightarrow> (Some (fst (addr_list ad ! i)), set_state_at i PendingConnect ad))"

section \<open>The map of states\<close>

declare position_None [simp del]

definition addr_states :: "'a addresses \<Rightarrow> ('a \<rightharpoonup> addr_state)" where
  "addr_states ad = map_of (addr_list ad)"

definition addrs_inv :: "'a addresses \<Rightarrow> bool" where
  "addrs_inv ad \<longleftrightarrow> distinct (map fst (addr_list ad))"

text \<open>The operations as steps on the map.\<close>

inductive addr_step :: "'a addresses \<Rightarrow> 'a addresses \<Rightarrow> bool" where
  discovered: "addr_step ad (insert_discovered ad a)"
| removed: "addr_step ad (snd (addrs_remove ad a))"
| connected: "set_connected ad a = Some ad' \<Longrightarrow> addr_step ad ad'"
| disconnected: "set_disconnected ad a = Some ad' \<Longrightarrow> addr_step ad ad'"
| shuffled: "addr_step ad (addrs_shuffle ad)"
| pending: "addr_step ad (snd (addr_to_pending ad))"

lemma set_state_at_inv [simp]: "addrs_inv (set_state_at i s ad) \<longleftrightarrow> addrs_inv ad"
  by (simp add: addrs_inv_def set_state_at_def keys_list_update)

lemma set_state_at_states:
  "addrs_inv ad \<Longrightarrow> i < length (addr_list ad) \<Longrightarrow>
     addr_states (set_state_at i s ad) = (addr_states ad)(fst (addr_list ad ! i) \<mapsto> s)"
  by (simp add: addrs_inv_def set_state_at_def addr_states_def map_of_list_update)

lemma insert_discovered_states:
  assumes "addrs_inv ad"
  shows "addrs_inv (insert_discovered ad a)"
    and "addr_states (insert_discovered ad a) =
      (if a \<in> dom (addr_states ad) then addr_states ad else (addr_states ad)(a \<mapsto> NotTried))"
proof -
  have known: "(\<exists>(b, _) \<in> set (addr_list ad). b = a) \<longleftrightarrow> a \<in> dom (addr_states ad)"
    by (force simp: addr_states_def dom_map_of_conv_image_fst)
  show "addrs_inv (insert_discovered ad a)"
    using assms by (force simp: addrs_inv_def insert_discovered_def)
  show "addr_states (insert_discovered ad a) =
      (if a \<in> dom (addr_states ad) then addr_states ad else (addr_states ad)(a \<mapsto> NotTried))"
    unfolding insert_discovered_def known
    by (auto simp: addr_states_def map_add_def fun_eq_iff dom_def split: option.splits)
qed

text \<open>Looking up an address by its position is looking it up in the map.\<close>

lemma addr_position_cases:
  assumes "addrs_inv ad"
  obtains (unknown) "position (\<lambda>(b, _). b = a) (addr_list ad) = None" "addr_states ad a = None"
    | (known) i where "position (\<lambda>(b, _). b = a) (addr_list ad) = Some i" "i < length (addr_list ad)"
      "fst (addr_list ad ! i) = a" "addr_states ad a = Some (snd (addr_list ad ! i))"
proof (cases "position (\<lambda>(b, _). b = a) (addr_list ad)")
  case None
  then have "addr_states ad a = None" unfolding position_key_None by (simp add: addr_states_def)
  with None that(1) show thesis by blast
next
  case (Some i)
  note i = position_key [OF Some]
  have "map_of (addr_list ad) (fst (addr_list ad ! i)) = Some (snd (addr_list ad ! i))"
    using assms i(1) by (simp add: addrs_inv_def)
  with Some i that(2) show thesis by (simp add: addr_states_def)
qed

lemma addrs_remove_states:
  assumes "addrs_inv ad"
  shows "addrs_inv (snd (addrs_remove ad a)) \<and> fst (addrs_remove ad a) = (a \<in> dom (addr_states ad)) \<and>
    addr_states (snd (addrs_remove ad a)) = (addr_states ad)(a := None)"
  using assms
proof (cases rule: addr_position_cases [of ad a, consumes 1])
  case unknown
  then show ?thesis using assms by (auto simp: addrs_remove_def dom_def)
next
  case (known i)
  then show ?thesis
    using assms map_of_vec_remove [of "addr_list ad" i]
    by (auto simp: addrs_remove_def addrs_inv_def addr_states_def dom_def)
qed

text \<open>The changes of the state of a known address.\<close>

lemma set_connected_states:
  assumes "addrs_inv ad"
  shows "case set_connected ad a of
      None \<Rightarrow> addr_states ad a = Some Connected
    | Some ad' \<Rightarrow> addrs_inv ad' \<and> addr_states ad a \<noteq> Some Connected \<and>
        addr_states ad' = (if a \<in> dom (addr_states ad) then (addr_states ad)(a \<mapsto> Connected) else addr_states ad)"
  using assms
proof (cases rule: addr_position_cases [of ad a, consumes 1])
  case unknown
  then show ?thesis using assms by (auto simp: set_connected_def dom_def)
next
  case (known i)
  then show ?thesis
    using assms set_state_at_states [OF assms known(2)] by (simp add: set_connected_def dom_def)
qed

definition after_disconnect :: "addr_state \<Rightarrow> addr_state option" where
  "after_disconnect s = (case s of Connected \<Rightarrow> Some DisconnectedReachable | PendingConnect \<Rightarrow> Some NotTried | _ \<Rightarrow> None)"

lemma set_disconnected_states:
  assumes "addrs_inv ad"
  shows "case set_disconnected ad a of
      None \<Rightarrow> \<exists>s. addr_states ad a = Some s \<and> after_disconnect s = None
    | Some ad' \<Rightarrow> addrs_inv ad' \<and>
        addr_states ad' = (case addr_states ad a of None \<Rightarrow> addr_states ad | Some s \<Rightarrow> (addr_states ad)(a := after_disconnect s))"
  using assms
proof (cases rule: addr_position_cases [of ad a, consumes 1])
  case unknown
  then show ?thesis using assms by (simp add: set_disconnected_def)
next
  case (known i)
  then show ?thesis
    using assms set_state_at_states [OF assms known(2)]
    by (cases "snd (addr_list ad ! i)") (simp_all add: set_disconnected_def after_disconnect_def)
qed

lemma addrs_shuffle_states:
  assumes "addrs_inv ad"
  shows "addrs_inv (addrs_shuffle ad) \<and> addr_states (addrs_shuffle ad) = addr_states ad"
proof (cases "addr_list ad")
  case (Cons x xs)
  obtain k v where x: "x = (k, v)" by (cases x)
  have k: "map_of xs k = None" using assms Cons x by (simp add: addrs_inv_def map_of_eq_None_iff)
  have "map_of (xs @ [x]) = map_of (x # xs)"
    using k by (auto simp: x map_add_def fun_eq_iff split: option.splits)
  then show ?thesis using assms Cons by (auto simp: addrs_inv_def addrs_shuffle_def addr_states_def)
qed (use assms in \<open>simp add: addrs_shuffle_def\<close>)

definition not_connected :: "addr_state \<Rightarrow> bool" where
  "not_connected s \<longleftrightarrow> s = DisconnectedReachable \<or> s = NotTried"

lemma addr_to_pending_states:
  assumes "addrs_inv ad"
  shows "case addr_to_pending ad of
      (None, ad') \<Rightarrow> ad' = ad \<and> (\<forall>a s. addr_states ad a = Some s \<longrightarrow> \<not> not_connected s)
    | (Some a, ad') \<Rightarrow> addrs_inv ad' \<and> (\<exists>s. addr_states ad a = Some s \<and> not_connected s) \<and>
        addr_states ad' = (addr_states ad)(a \<mapsto> PendingConnect)"
proof (cases "position (\<lambda>(_, s). s = DisconnectedReachable \<or> s = NotTried) (addr_list ad)")
  case None
  then have "addr_to_pending ad = (None, ad)" by (simp add: addr_to_pending_def)
  moreover have "\<not> not_connected s" if "addr_states ad a = Some s" for a s
    using None that by (auto simp: position_None addr_states_def not_connected_def dest!: map_of_SomeD)
  ultimately show ?thesis by simp
next
  case (Some i)
  from position_SomeD [OF Some] have i: "i < length (addr_list ad)" "not_connected (snd (addr_list ad ! i))"
    by (auto simp: case_prod_unfold not_connected_def)
  moreover have "addr_states ad (fst (addr_list ad ! i)) = Some (snd (addr_list ad ! i))"
    using assms i(1) by (simp add: addrs_inv_def addr_states_def)
  ultimately show ?thesis
    using Some assms set_state_at_states [OF assms i(1)] by (auto simp: addr_to_pending_def)
qed

section \<open>Properties\<close>

inductive addrs_reachable :: "'a addresses \<Rightarrow> bool" where
  new: "addrs_reachable addrs_with_capacity"
| step: "addrs_reachable ad \<Longrightarrow> addr_step ad ad' \<Longrightarrow> addrs_reachable ad'"

lemma addr_step_inv: "addr_step ad ad' \<Longrightarrow> addrs_inv ad \<Longrightarrow> addrs_inv ad'"
proof (induction rule: addr_step.induct)
  case (connected ad a ad')
  then show ?case using set_connected_states [of ad a] by simp
next
  case (disconnected ad a ad')
  then show ?case using set_disconnected_states [of ad a] by simp
next
  case (pending ad)
  then show ?case using addr_to_pending_states [of ad] by (auto split: prod.splits option.splits)
qed (simp_all add: insert_discovered_states addrs_remove_states addrs_shuffle_states)

lemma addrs_reachable_inv: "addrs_reachable ad \<Longrightarrow> addrs_inv ad"
proof (induction rule: addrs_reachable.induct)
  case new
  show ?case by (simp add: addrs_inv_def addrs_with_capacity_def)
qed (rule addr_step_inv)

text \<open>
  C18: no address is listed twice, and every operation is one step on the map of states: discovering
  adds an unknown address as not tried, connecting and disconnecting change the state of the
  one address and panic exactly in the documented states, picking an address to dial
  takes one that is neither connected nor pending, and fails only when there is none.
\<close>

theorem addresses_refine_states:
  assumes "addrs_reachable ad"
  shows "distinct (addrs_iter ad) \<and>
    addr_states (insert_discovered ad a) = (if a \<in> dom (addr_states ad) then addr_states ad else (addr_states ad)(a \<mapsto> NotTried)) \<and>
    addr_states (snd (addrs_remove ad a)) = (addr_states ad)(a := None) \<and>
    map_option addr_states (set_connected ad a) =
      (case addr_states ad a of None \<Rightarrow> Some (addr_states ad)
       | Some s \<Rightarrow> if s = Connected then None else Some ((addr_states ad)(a \<mapsto> Connected))) \<and>
    map_option addr_states (set_disconnected ad a) =
      (case addr_states ad a of None \<Rightarrow> Some (addr_states ad)
       | Some s \<Rightarrow> map_option (\<lambda>s'. (addr_states ad)(a \<mapsto> s')) (after_disconnect s)) \<and>
    (case addr_to_pending ad of
       (None, ad') \<Rightarrow> ad' = ad \<and> (\<forall>s \<in> ran (addr_states ad). \<not> not_connected s)
     | (Some b, ad') \<Rightarrow> (\<exists>s. addr_states ad b = Some s \<and> not_connected s) \<and>
         addr_states ad' = (addr_states ad)(b \<mapsto> PendingConnect))"
proof -
  have inv: "addrs_inv ad" using addrs_reachable_inv [OF assms] .
  have con: "map_option addr_states (set_connected ad a) =
      (case addr_states ad a of None \<Rightarrow> Some (addr_states ad)
       | Some s \<Rightarrow> if s = Connected then None else Some ((addr_states ad)(a \<mapsto> Connected)))"
    using set_connected_states [OF inv, of a] by (auto simp: dom_def split: option.splits)
  have dis: "map_option addr_states (set_disconnected ad a) =
      (case addr_states ad a of None \<Rightarrow> Some (addr_states ad)
       | Some s \<Rightarrow> map_option (\<lambda>s'. (addr_states ad)(a \<mapsto> s')) (after_disconnect s))"
    using inv
  proof (cases rule: addr_position_cases [of ad a, consumes 1])
    case unknown
    then show ?thesis by (simp add: set_disconnected_def)
  next
    case (known i)
    then show ?thesis using set_state_at_states [OF inv known(2)]
      by (cases "snd (addr_list ad ! i)") (simp_all add: set_disconnected_def after_disconnect_def)
  qed
  have pend: "case addr_to_pending ad of
       (None, ad') \<Rightarrow> ad' = ad \<and> (\<forall>s \<in> ran (addr_states ad). \<not> not_connected s)
     | (Some b, ad') \<Rightarrow> (\<exists>s. addr_states ad b = Some s \<and> not_connected s) \<and>
         addr_states ad' = (addr_states ad)(b \<mapsto> PendingConnect)"
    using addr_to_pending_states [OF inv] by (auto simp: ran_def split: prod.splits option.splits)
  have "distinct (addrs_iter ad)" using inv by (simp add: addrs_inv_def addrs_iter_def)
  with con dis pend insert_discovered_states(2) [OF inv, of a] addrs_remove_states [OF inv, of a]
  show ?thesis by (intro conjI) simp_all
qed

text \<open>
  C31: an address that is neither connected nor pending does get its turn: after as many shuffles as
  there are addresses before it in the list, it is the one picked.
\<close>

lemma shuffles_rotate:
  "addr_list ((addrs_shuffle ^^ n) ad) = rotate n (addr_list ad)"
proof (induction n)
  case (Suc n)
  have "addr_list (addrs_shuffle x) = rotate1 (addr_list x)" for x :: "'a addresses"
    by (simp add: addrs_shuffle_def split: list.splits)
  with Suc show ?case by simp
qed simp

theorem shuffled_address_is_picked:
  assumes "i < length (addr_list ad)" "addr_list ad ! i = (a, s)" "not_connected s"
  shows "fst (addr_to_pending ((addrs_shuffle ^^ i) ad)) = Some a"
proof -
  define xs where "xs = addr_list ((addrs_shuffle ^^ i) ad)"
  have "xs = rotate i (addr_list ad)" by (simp add: xs_def shuffles_rotate)
  then have "xs = (a, s) # drop (Suc i) (addr_list ad) @ take i (addr_list ad)"
    using assms(1,2) by (simp add: rotate_drop_take Cons_nth_drop_Suc [symmetric])
  then have "position (\<lambda>(_, s). s = DisconnectedReachable \<or> s = NotTried) xs = Some 0" "fst (xs ! 0) = a"
    using assms(3) by (simp_all add: not_connected_def)
  then show ?thesis by (simp add: addr_to_pending_def xs_def)
qed

definition sample_addresses :: "nat addresses" where
  "sample_addresses = the (set_connected (insert_discovered (insert_discovered addrs_with_capacity 1) 2) 1)"

lemma sample_addresses_eq: "sample_addresses = \<lparr>addr_list = [(1, Connected), (2, NotTried)]\<rparr>"
  by (simp add: sample_addresses_def set_connected_def insert_discovered_def addrs_with_capacity_def set_state_at_def)

lemma sample_addresses_reachable: "addrs_reachable sample_addresses"
proof -
  have "addrs_reachable (insert_discovered (insert_discovered addrs_with_capacity 1) 2 :: nat addresses)"
    by (rule addrs_reachable.step [OF addrs_reachable.step [OF addrs_reachable.new discovered] discovered])
  moreover have "set_connected (insert_discovered (insert_discovered addrs_with_capacity 1) 2 :: nat addresses) 1 = Some sample_addresses"
    by (simp add: sample_addresses_eq set_connected_def insert_discovered_def addrs_with_capacity_def set_state_at_def)
  ultimately show ?thesis by (rule addrs_reachable.step [OF _ addr_step.connected])
qed

theorem addresses_refine_states_witness:
  "distinct (addrs_iter sample_addresses) \<and>
    addr_states (snd (addrs_remove sample_addresses 2)) = (addr_states sample_addresses)(2 := None)"
  using addresses_refine_states [OF sample_addresses_reachable, of 2] by blast

theorem shuffled_address_is_picked_witness:
  "fst (addr_to_pending ((addrs_shuffle ^^ 1) sample_addresses)) = Some 2"
  by (rule shuffled_address_is_picked [of _ _ _ NotTried]) (simp_all add: sample_addresses_eq not_connected_def)

end
