(* ===== verification/KBuckets.thy ===== *)
theory KBuckets
  imports Rust_Collections
begin

text \<open>
  The k-buckets of the Kademlia discovery, \<^verbatim>\<open>src/network/kademlia/kbuckets.rs\<close>. The keys are hashed
  by SHA-256, which is the argument \<open>hash\<close>, a function into lists of 32 bytes; the number of
  entries of a bucket is the argument \<open>cap\<close>, and adding a duration to an instant is the argument
  \<open>add\<close>. The entries of a bucket are a vector of bounded capacity (of the crate \<^verbatim>\<open>arrayvec\<close>), a list
  here; inserting into a full one, or out of range, panics.
\<close>

section \<open>Distances\<close>

type_synonym digest = "u8 list"

definition leading_zeros :: "u8 \<Rightarrow> nat" where
  "leading_zeros b = length (takeWhile (\<lambda>i. \<not> bit b i) (rev [0..<8]))"

definition distance_log2 :: "digest \<Rightarrow> digest \<Rightarrow> nat option" where
  "distance_log2 a b =
     (case filter (\<lambda>n. leading_zeros (a ! n XOR b ! n) \<noteq> 8) [0..<32] of
        [] \<Rightarrow> None
      | n # _ \<Rightarrow>
          let xor_distance = (31 - n) * 8 + (8 - leading_zeros (a ! n XOR b ! n))
          in Some (xor_distance - 1))"

section \<open>Buckets\<close>

datatype peer_state = PeerConnected | PeerDisconnected

record ('k, 'v, 'now) bucket =
  entries :: "('k \<times> 'v) list"
  num_connected_entries :: nat
  pending_entry :: "'now option"

record ('k, 'v, 'now, 'd) kbuckets =
  local_key :: "'k \<times> digest"
  buckets :: "('k, 'v, 'now) bucket list"
  pending_timeout :: 'd

definition bucket_empty :: "('k, 'v, 'now) bucket" where
  "bucket_empty = \<lparr>entries = [], num_connected_entries = 0, pending_entry = None\<rparr>"

definition kbuckets_new :: "('k \<Rightarrow> digest) \<Rightarrow> 'k \<Rightarrow> 'd \<Rightarrow> ('k, 'v, 'now, 'd) kbuckets" where
  "kbuckets_new hash k timeout =
     \<lparr>local_key = (k, hash k), buckets = replicate 256 bucket_empty, pending_timeout = timeout\<rparr>"

definition bucket_get :: "('k, 'v, 'now) bucket \<Rightarrow> 'k \<Rightarrow> 'v option" where
  "bucket_get b k = map_option snd (List.find (\<lambda>e. fst e = k) (entries b))"

definition kbuckets_get :: "('k \<Rightarrow> digest) \<Rightarrow> ('k, 'v, 'now, 'd) kbuckets \<Rightarrow> 'k \<Rightarrow> 'v option" where
  "kbuckets_get hash kb k =
     (case distance_log2 (snd (local_key kb)) (hash k) of
        None \<Rightarrow> None
      | Some d \<Rightarrow> bucket_get (buckets kb ! d) k)"

text \<open>\<^verbatim>\<open>get_mut\<close>: the caller changes the value it is given a reference to.\<close>

definition bucket_get_mut :: "('k, 'v, 'now) bucket \<Rightarrow> 'k \<Rightarrow> ('v \<Rightarrow> 'v) \<Rightarrow> ('k, 'v, 'now) bucket" where
  "bucket_get_mut b k f =
     (case position (\<lambda>e. fst e = k) (entries b) of
        None \<Rightarrow> b
      | Some i \<Rightarrow> b\<lparr>entries := (entries b)[i := (fst (entries b ! i), f (snd (entries b ! i)))]\<rparr>)"

definition kbuckets_get_mut ::
    "('k \<Rightarrow> digest) \<Rightarrow> ('k, 'v, 'now, 'd) kbuckets \<Rightarrow> 'k \<Rightarrow> ('v \<Rightarrow> 'v) \<Rightarrow> ('k, 'v, 'now, 'd) kbuckets" where
  "kbuckets_get_mut hash kb k f =
     (case distance_log2 (snd (local_key kb)) (hash k) of
        None \<Rightarrow> kb
      | Some d \<Rightarrow> kb\<lparr>buckets := (buckets kb)[d := bucket_get_mut (buckets kb ! d) k f]\<rparr>)"

datatype kbuckets_entry = LocalKey | Vacant nat | Occupied nat

definition kbuckets_entry :: "('k \<Rightarrow> digest) \<Rightarrow> ('k, 'v, 'now, 'd) kbuckets \<Rightarrow> 'k \<Rightarrow> kbuckets_entry" where
  "kbuckets_entry hash kb k =
     (case distance_log2 (snd (local_key kb)) (hash k) of
        None \<Rightarrow> LocalKey
      | Some d \<Rightarrow> if bucket_get (buckets kb ! d) k \<noteq> None then Occupied d else Vacant d)"

definition kb_iter_ordered :: "('k, 'v, 'now, 'd) kbuckets \<Rightarrow> ('k \<times> 'v) list" where
  "kb_iter_ordered kb = concat (map entries (buckets kb))"

definition closest_entries :: "('k \<Rightarrow> digest) \<Rightarrow> ('k, 'v, 'now, 'd) kbuckets \<Rightarrow> 'k \<Rightarrow> ('k \<times> 'v) list" where
  "closest_entries hash kb target =
     sort_key (\<lambda>(k, _). case distance_log2 (hash k) (hash target) of None \<Rightarrow> 0 | Some d \<Rightarrow> d + 1)
       (kb_iter_ordered kb)"

section \<open>Changing the buckets\<close>

datatype insert_error = InsertFull

text \<open>The vector of bounded capacity.\<close>

definition arr_insert :: "nat \<Rightarrow> nat \<Rightarrow> 'a \<Rightarrow> 'a list \<Rightarrow> ('e, 'a list) outcome" where
  "arr_insert cap i x xs = (if length xs < cap \<and> i \<le> length xs then Inr (vec_insert i x xs) else Inl Panic)"

text \<open>
  \<^verbatim>\<open>VacantEntry::insert\<close>, on the bucket. The result is the entry that was removed to make space,
  and the bucket.
\<close>

definition bucket_insert ::
    "nat \<Rightarrow> ('now \<Rightarrow> 'd \<Rightarrow> 'now) \<Rightarrow> 'd \<Rightarrow> ('k, 'v, 'now::linorder) bucket \<Rightarrow> 'k \<Rightarrow> 'v \<Rightarrow> 'now \<Rightarrow> peer_state \<Rightarrow>
     (insert_error, ('k \<times> 'v) option \<times> ('k, 'v, 'now) bucket) outcome" where
  "bucket_insert cap add timeout b k v now state =
     (case state of
        PeerConnected \<Rightarrow>
          if num_connected_entries b < cap then
            let full = (length (entries b) = cap);
                previous = (if full \<and> entries b \<noteq> [] then Some (last (entries b)) else None);
                b = (if full then b\<lparr>entries := butlast (entries b), pending_entry := Some (add now timeout)\<rparr> else b)
            in and_then (arr_insert cap (num_connected_entries b) (k, v) (entries b)) (\<lambda>es.
                 let b = b\<lparr>entries := es, num_connected_entries := num_connected_entries b + 1\<rparr>;
                     b = (if num_connected_entries b = cap then b\<lparr>pending_entry := None\<rparr> else b)
                 in Inr (previous, b))
          else Inl (Err InsertFull)
      | PeerDisconnected \<Rightarrow>
          if length (entries b) = cap then
            if num_connected_entries b = cap then Inl (Err InsertFull)
            else
              (case pending_entry b of
                 None \<Rightarrow> Inl Panic
               | Some t \<Rightarrow>
                   if t > now then Inl (Err InsertFull)
                   else
                     let previous = (if entries b = [] then None else Some (last (entries b)));
                         es = butlast (entries b)
                     in and_then (arr_insert cap (length es) (k, v) es) (\<lambda>es.
                          Inr (previous, b\<lparr>entries := es, pending_entry := Some (add now timeout)\<rparr>)))
          else
            and_then (arr_insert cap (length (entries b)) (k, v) (entries b)) (\<lambda>es.
              let b = b\<lparr>entries := es\<rparr>
              in Inr (None, if length (entries b) = cap then b\<lparr>pending_entry := Some (add now timeout)\<rparr> else b)))"

definition vacant_insert ::
    "nat \<Rightarrow> ('now \<Rightarrow> 'd \<Rightarrow> 'now) \<Rightarrow> ('k, 'v, 'now::linorder, 'd) kbuckets \<Rightarrow> nat \<Rightarrow> 'k \<Rightarrow> 'v \<Rightarrow> 'now \<Rightarrow> peer_state \<Rightarrow>
     (insert_error, ('k \<times> 'v) option \<times> ('k, 'v, 'now, 'd) kbuckets) outcome" where
  "vacant_insert cap add kb d k v now state =
     and_then (bucket_insert cap add (pending_timeout kb) (buckets kb ! d) k v now state) (\<lambda>(previous, b).
       Inr (previous, kb\<lparr>buckets := (buckets kb)[d := b]\<rparr>))"

datatype or_insert_error = OrInsertFull | OrInsertLocalKey

definition or_insert ::
    "('k \<Rightarrow> digest) \<Rightarrow> nat \<Rightarrow> ('now \<Rightarrow> 'd \<Rightarrow> 'now) \<Rightarrow> ('k, 'v, 'now::linorder, 'd) kbuckets \<Rightarrow> 'k \<Rightarrow> 'v \<Rightarrow> 'now \<Rightarrow>
     peer_state \<Rightarrow> (or_insert_error, ('k, 'v, 'now, 'd) kbuckets) outcome" where
  "or_insert hash cap add kb k v now state =
     (case kbuckets_entry hash kb k of
        LocalKey \<Rightarrow> Inl (Err OrInsertLocalKey)
      | Vacant d \<Rightarrow>
          (case vacant_insert cap add kb d k v now state of
             Inr (_, kb) \<Rightarrow> Inr kb
           | Inl (Err InsertFull) \<Rightarrow> Inl (Err OrInsertFull)
           | Inl Panic \<Rightarrow> Inl Panic)
      | Occupied d \<Rightarrow> Inr kb)"

text \<open>\<^verbatim>\<open>OccupiedEntry::set_state\<close>, on the bucket; \<open>None\<close> is a panic.\<close>

definition bucket_set_state ::
    "nat \<Rightarrow> ('now \<Rightarrow> 'd \<Rightarrow> 'now) \<Rightarrow> 'd \<Rightarrow> ('k, 'v, 'now) bucket \<Rightarrow> 'k \<Rightarrow> 'now \<Rightarrow> peer_state \<Rightarrow>
     ('k, 'v, 'now) bucket option" where
  "bucket_set_state cap add timeout b k now state =
     Option.bind (position (\<lambda>e. fst e = k) (entries b)) (\<lambda>pos.
       case state of
         PeerConnected \<Rightarrow>
           if pos \<ge> num_connected_entries b then
             let entry = entries b ! pos;
                 b = b\<lparr>entries := vec_insert (num_connected_entries b) entry (vec_remove pos (entries b)),
                       num_connected_entries := num_connected_entries b + 1\<rparr>
             in Some (if pos = cap - 1 then b\<lparr>pending_entry := Some (add now timeout)\<rparr> else b)
           else Some b
       | PeerDisconnected \<Rightarrow>
           if pos < num_connected_entries b then
             let entry = entries b ! pos;
                 n = num_connected_entries b - 1;
                 b = b\<lparr>entries := vec_insert n entry (vec_remove pos (entries b)), num_connected_entries := n\<rparr>
             in Some (if n = cap - 1 then b\<lparr>pending_entry := Some (add now timeout)\<rparr> else b)
           else Some b)"

definition occupied_set_state ::
    "nat \<Rightarrow> ('now \<Rightarrow> 'd \<Rightarrow> 'now) \<Rightarrow> ('k, 'v, 'now, 'd) kbuckets \<Rightarrow> nat \<Rightarrow> 'k \<Rightarrow> 'now \<Rightarrow> peer_state \<Rightarrow>
     ('k, 'v, 'now, 'd) kbuckets option" where
  "occupied_set_state cap add kb d k now state =
     map_option (\<lambda>b. kb\<lparr>buckets := (buckets kb)[d := b]\<rparr>)
       (bucket_set_state cap add (pending_timeout kb) (buckets kb ! d) k now state)"

section \<open>The distance is the logarithm of the exclusive or\<close>

lemma leading_zeros_le: "leading_zeros b \<le> 8"
proof -
  have "length (takeWhile (\<lambda>i. \<not> bit b i) (rev [0..<8])) \<le> length (rev [0..<8::nat])" by (rule length_takeWhile_le)
  then show ?thesis by (simp add: leading_zeros_def)
qed

lemma rev_upt_nth: "i < n \<Longrightarrow> rev [0..<n] ! i = n - 1 - i"
  by (simp add: rev_nth)

lemma leading_zeros_bits:
  assumes "7 - leading_zeros b < j" "j < 8" "leading_zeros b < 8 \<or> leading_zeros b = 8"
  shows "\<not> bit b j"
proof -
  have "7 - j < leading_zeros b" using assms by linarith
  then have "\<not> bit b (takeWhile (\<lambda>i. \<not> bit b i) (rev [0..<8]) ! (7 - j))"
    using nth_mem set_takeWhileD unfolding leading_zeros_def by fastforce
  moreover have "takeWhile (\<lambda>i. \<not> bit b i) (rev [0..<8]) ! (7 - j) = rev [0..<8] ! (7 - j)"
    using \<open>7 - j < leading_zeros b\<close> by (simp add: takeWhile_nth leading_zeros_def)
  ultimately show ?thesis using assms(2) by (simp add: rev_upt_nth)
qed

lemma leading_zeros_top: "leading_zeros b < 8 \<Longrightarrow> bit b (7 - leading_zeros b)"
  using nth_length_takeWhile [of "\<lambda>i. \<not> bit b i" "rev [0..<8]"]
  by (simp add: leading_zeros_def rev_upt_nth)

lemma leading_zeros_8: "leading_zeros b = 8 \<longleftrightarrow> b = (0 :: u8)"
proof
  assume l: "leading_zeros b = 8"
  have "\<not> bit b j" if "j < 8" for j
  proof -
    have "rev [0..<8] ! (7 - j) = j" using that by (simp add: rev_upt_nth)
    moreover have "\<not> bit b (rev [0..<8] ! (7 - j))"
    proof -
      have "7 - j < length (takeWhile (\<lambda>i. \<not> bit b i) (rev [0..<8]))" using l by (simp add: leading_zeros_def)
      then show ?thesis using takeWhile_nth [of "7 - j"] nth_mem set_takeWhileD by metis
    qed
    ultimately show ?thesis by simp
  qed
  then show "b = 0" by (intro bit_word_eqI) simp
next
  assume "b = 0"
  then show "leading_zeros b = 8" by (simp add: leading_zeros_def takeWhile_eq_all_conv [THEN iffD2])
qed

lemma leading_zeros_value:
  assumes "leading_zeros b < 8"
  shows "2 ^ (7 - leading_zeros b) \<le> unat b" "unat b < 2 ^ (8 - leading_zeros b)"
proof -
  define m where "m = 7 - leading_zeros b"
  have m: "8 - leading_zeros b = Suc m" using assms by (simp add: m_def)
  have "bit b m" using leading_zeros_top [OF assms] by (simp add: m_def)
  then have "bit (unat b) m" by (simp add: bit_unsigned_iff)
  then have "odd (unat b div 2 ^ m)" by (simp add: bit_iff_odd)
  then have "unat b div 2 ^ m \<noteq> 0" by (metis even_zero)
  then show "2 ^ (7 - leading_zeros b) \<le> unat b" unfolding m_def [symmetric] by (simp add: div_eq_0_iff)
  have "take_bit (Suc m) b = b"
  proof (rule bit_word_eqI)
    fix n assume "n < LENGTH(8)"
    then show "bit (take_bit (Suc m) b) n \<longleftrightarrow> bit b n"
      using leading_zeros_bits [of b n] assms by (cases "n \<le> m") (auto simp: bit_take_bit_iff m_def)
  qed
  then have "take_bit (Suc m) (unat b) = unat b" by (metis unsigned_take_bit_eq)
  then show "unat b < 2 ^ (8 - leading_zeros b)" unfolding m by (metis take_bit_nat_less_exp)
qed

text \<open>A list of bytes as a number, most significant byte first.\<close>

primrec be_value :: "u8 list \<Rightarrow> nat" where
  "be_value [] = 0"
| "be_value (x # xs) = unat x * 256 ^ length xs + be_value xs"

lemma be_value_less: "be_value xs < 256 ^ length xs"
proof (induction xs)
  case (Cons x xs)
  have "unat x + 1 \<le> 256" using unsigned_less [of x, where ?'a = nat] by simp
  have "be_value (x # xs) < (unat x + 1) * 256 ^ length xs" using Cons by simp
  also have "\<dots> \<le> 256 * 256 ^ length xs" using \<open>unat x + 1 \<le> 256\<close> by (rule mult_le_mono1)
  finally show ?case by simp
qed simp

lemma be_value_zeros: "be_value (replicate n 0 @ xs) = be_value xs"
  by (induction n) simp_all

lemma be_value_zero_iff: "be_value xs = 0 \<longleftrightarrow> (\<forall>x \<in> set xs. x = 0)"
  by (induction xs) (auto simp: unat_eq_0)

text \<open>The exponent of the highest power of two that a number reaches.\<close>

definition is_log2 :: "nat \<Rightarrow> nat \<Rightarrow> bool" where
  "is_log2 x d \<longleftrightarrow> 2 ^ d \<le> x \<and> x < 2 ^ Suc d"

lemma be_value_log2:
  assumes "v \<noteq> 0"
  shows "is_log2 (be_value (v # xs)) (length xs * 8 + (8 - leading_zeros v) - 1)"
proof -
  have "leading_zeros v < 8" using assms leading_zeros_8 [of v] leading_zeros_le [of v] by linarith
  note v = leading_zeros_value [OF this]
  define m where "m = 7 - leading_zeros v"
  have m: "8 - leading_zeros v = Suc m" using \<open>leading_zeros v < 8\<close> by (simp add: m_def)
  have pow: "(256::nat) ^ n = 2 ^ (n * 8)" for n using power_mult [of "2::nat" 8 n] by (simp add: mult.commute)
  have "(2::nat) ^ (length xs * 8 + m) = 2 ^ m * 256 ^ length xs" by (simp add: pow power_add)
  also have "\<dots> \<le> unat v * 256 ^ length xs" using v(1) by (intro mult_le_mono1) (simp add: m_def)
  also have "\<dots> \<le> be_value (v # xs)" by simp
  finally have low: "2 ^ (length xs * 8 + m) \<le> be_value (v # xs)" .
  have "be_value (v # xs) < (unat v + 1) * 256 ^ length xs" using be_value_less [of xs] by simp
  also have "\<dots> \<le> 2 ^ Suc m * 256 ^ length xs" using v(2) by (intro mult_le_mono1) (simp add: m)
  also have "\<dots> = 2 ^ Suc (length xs * 8 + m)" by (simp add: pow power_add)
  finally show ?thesis using low by (simp add: is_log2_def m)
qed

lemma first_filter_upt:
  assumes "filter P [0..<n] = i # rest"
  shows "i < n" "P i" "\<And>j. j < i \<Longrightarrow> \<not> P j"
proof -
  have "i \<in> set (filter P [0..<n])" using assms by simp
  then show "i < n" "P i" by auto
  show "\<not> P j" if "j < i" for j
  proof
    assume "P j"
    then have "j \<in> set (i # rest)" using that \<open>i < n\<close> assms [symmetric] by simp
    moreover have "sorted (i # rest)" using assms [symmetric] by (simp add: sorted_wrt_filter)
    ultimately show False using that by auto
  qed
qed

lemma xor_eq_zero: "a XOR b = 0 \<longleftrightarrow> a = b" for a b :: u8
  by (metis xor.assoc xor.left_neutral xor_self_eq)

lemma distance_log2_bound: "distance_log2 a b = Some d \<Longrightarrow> d < 256"
  by (auto simp: distance_log2_def Let_def split: list.splits)

lemma distance_log2_correct:
  assumes "length a = 32" "length b = 32"
  shows "case distance_log2 a b of
      None \<Rightarrow> a = b
    | Some d \<Rightarrow> d < 256 \<and> is_log2 (be_value (map2 (XOR) a b)) d"
proof -
  define xs where "xs = map2 (XOR) a b"
  have len: "length xs = 32" and nth: "\<And>n. n < 32 \<Longrightarrow> xs ! n = a ! n XOR b ! n" using assms by (simp_all add: xs_def)
  show ?thesis
  proof (cases "filter (\<lambda>n. leading_zeros (a ! n XOR b ! n) \<noteq> 8) [0..<32]")
    case Nil
    then have "a ! n XOR b ! n = 0" if "n < 32" for n
      using that by (auto simp: filter_empty_conv leading_zeros_8)
    then have "a = b" using assms by (intro nth_equalityI) (simp_all add: xor_eq_zero)
    with Nil show ?thesis by (simp add: distance_log2_def)
  next
    case (Cons i rest)
    note i = first_filter_upt [OF Cons]
    have v: "xs ! i \<noteq> 0" using i(1,2) nth by (simp add: leading_zeros_8)
    have "take i xs = replicate i 0"
      using i(1,3) nth len by (intro nth_equalityI) (auto simp: leading_zeros_8)
    then have "xs = replicate i 0 @ xs ! i # drop (Suc i) xs" using id_take_nth_drop [of i xs] i(1) len by simp
    then have "be_value xs = be_value (xs ! i # drop (Suc i) xs)" by (metis be_value_zeros)
    with be_value_log2 [OF v, of "drop (Suc i) xs"] len
    have "is_log2 (be_value xs) ((31 - i) * 8 + (8 - leading_zeros (xs ! i)) - 1)" by simp
    moreover have "distance_log2 a b = Some ((31 - i) * 8 + (8 - leading_zeros (xs ! i)) - 1)"
      using Cons nth i(1) by (simp add: distance_log2_def Let_def)
    ultimately show ?thesis using distance_log2_bound by (simp add: xs_def)
  qed
qed

section \<open>One bucket\<close>

definition connected_keys :: "('k, 'v, 'now) bucket \<Rightarrow> 'k set" where
  "connected_keys b = fst ` set (take (num_connected_entries b) (entries b))"

definition bucket_ok :: "nat \<Rightarrow> ('k, 'v, 'now) bucket \<Rightarrow> bool" where
  "bucket_ok cap b \<longleftrightarrow>
     length (entries b) \<le> cap \<and> num_connected_entries b \<le> length (entries b) \<and>
     distinct (map fst (entries b)) \<and> (length (entries b) < cap \<longrightarrow> pending_entry b = None)"

lemma take_vec_insert: "i \<le> length xs \<Longrightarrow> take (Suc i) (vec_insert i x xs) = take i xs @ [x]"
  by (simp add: vec_insert_def)

lemma take_vec_insert_before: "i \<le> length xs \<Longrightarrow> take i (vec_insert i x xs) = take i xs"
  by (simp add: vec_insert_def)

lemma distinct_vec_insert:
  "distinct (map fst (vec_insert i x xs)) \<longleftrightarrow> fst x \<notin> fst ` set xs \<and> distinct (map fst xs)"
proof -
  have "distinct (ys @ y # zs) \<longleftrightarrow> y \<notin> set (ys @ zs) \<and> distinct (ys @ zs)" for y and ys zs :: "'a list"
    by auto
  moreover have "map fst (take i xs) @ map fst (drop i xs) = map fst xs" by (metis append_take_drop_id map_append)
  ultimately have "distinct (map fst (take i xs) @ fst x # map fst (drop i xs)) \<longleftrightarrow> fst x \<notin> set (map fst xs) \<and> distinct (map fst xs)"
    by metis
  then show ?thesis by (simp only: vec_insert_def map_append list.map set_map)
qed

lemma bucket_get_map_of: "bucket_get b k = map_of (entries b) k"
proof -
  have "map_option snd (List.find (\<lambda>e. fst e = k) xs) = map_of xs k" for xs :: "('b \<times> 'a) list"
    by (induction xs) auto
  then show ?thesis by (simp add: bucket_get_def)
qed

text \<open>Removing the last entry of a full bucket that has a disconnected one.\<close>

lemma butlast_take: "n < length xs \<Longrightarrow> take n (butlast xs) = take n xs"
  by (auto simp: butlast_conv_take min_def)

lemma set_butlast_distinct:
  assumes "distinct (map fst xs)" "xs \<noteq> []"
  shows "set (butlast xs) = set xs - {last xs}" "fst (last xs) \<notin> fst ` set (butlast xs)"
proof -
  have xs: "xs = butlast xs @ [last xs]" using assms(2) by simp
  have "distinct (map fst (butlast xs @ [last xs]))" using assms(1) xs by metis
  then show *: "fst (last xs) \<notin> fst ` set (butlast xs)" by simp
  have "set xs = set (butlast xs) \<union> {last xs}" using xs by (metis set_append list.simps(15) empty_set)
  with * show "set (butlast xs) = set xs - {last xs}" by auto
qed

lemma last_disconnected:
  assumes "distinct (map fst xs)" "n < length xs"
  shows "fst (last xs) \<notin> fst ` set (take n xs)"
proof -
  have "set (take n xs) \<subseteq> set (butlast xs)" using butlast_take [OF assms(2)] by (metis set_take_subset)
  moreover have "xs \<noteq> []" using assms(2) by auto
  ultimately show ?thesis using set_butlast_distinct [OF assms(1)] by blast
qed

definition inserted ::
    "nat \<Rightarrow> ('k, 'v, 'now) bucket \<Rightarrow> 'k \<Rightarrow> 'v \<Rightarrow> peer_state \<Rightarrow> ('k \<times> 'v) option \<Rightarrow> ('k, 'v, 'now) bucket \<Rightarrow> bool" where
  "inserted cap b k v state previous b' \<longleftrightarrow>
     bucket_ok cap b' \<and> set (entries b') = insert (k, v) (set (entries b) - set_option previous) \<and>
     connected_keys b' = (if state = PeerConnected then insert k (connected_keys b) else connected_keys b) \<and>
     (\<forall>e \<in> set_option previous. e \<in> set (entries b) \<and> fst e \<notin> connected_keys b \<and> length (entries b) = cap)"

lemma insert_connected:
  assumes ok: "bucket_ok cap b" and new: "k \<notin> fst ` set (entries b)" and n: "num_connected_entries b < cap"
  shows "\<exists>previous b'. bucket_insert cap add timeout b k v now PeerConnected = Inr (previous, b') \<and>
    inserted cap b k v PeerConnected previous b'"
proof -
  have d: "distinct (map fst (entries b))" and le: "length (entries b) \<le> cap" "num_connected_entries b \<le> length (entries b)"
    using ok by (simp_all add: bucket_ok_def)
  define full where "full \<longleftrightarrow> length (entries b) = cap"
  define es where "es = (if full then butlast (entries b) else entries b)"
  define previous where "previous = (if full then Some (last (entries b)) else None)"
  have ne: "entries b \<noteq> []" if full using that n le by (auto simp: full_def)
  have len: "length es < cap" "num_connected_entries b \<le> length es" using le n by (auto simp: es_def full_def)
  have tk: "take (num_connected_entries b) es = take (num_connected_entries b) (entries b)"
    using n by (simp add: es_def full_def butlast_take)
  have set_es: "set es = set (entries b) - set_option previous"
    using set_butlast_distinct(1) [OF d ne] by (simp add: es_def previous_def)
  have d_es: "distinct (map fst es)" "k \<notin> fst ` set es"
    using d new by (auto simp: es_def map_butlast distinct_butlast dest: in_set_butlastD)
  define b' where "b' = b\<lparr>entries := vec_insert (num_connected_entries b) (k, v) es,
    num_connected_entries := num_connected_entries b + 1,
    pending_entry := (if num_connected_entries b + 1 = cap then None
      else if full then Some (add now timeout) else pending_entry b)\<rparr>"
  have "bucket_insert cap add timeout b k v now PeerConnected = Inr (previous, b')"
    using n len ne by (auto simp: bucket_insert_def arr_insert_def Let_def b'_def es_def previous_def full_def)
  moreover have "bucket_ok cap b'"
    using ok len d_es by (auto simp: bucket_ok_def b'_def distinct_vec_insert es_def full_def)
  moreover have "set (entries b') = insert (k, v) (set (entries b) - set_option previous)"
    by (simp add: b'_def set_es)
  moreover have "connected_keys b' = insert k (connected_keys b)"
    using len by (simp add: connected_keys_def b'_def take_vec_insert tk)
  moreover have "\<forall>e \<in> set_option previous. e \<in> set (entries b) \<and> fst e \<notin> connected_keys b \<and> length (entries b) = cap"
    using last_disconnected [OF d, of "num_connected_entries b"] n ne by (auto simp: previous_def connected_keys_def full_def)
  ultimately show ?thesis by (auto simp: inserted_def)
qed

lemma insert_disconnected:
  assumes ok: "bucket_ok cap b" and new: "k \<notin> fst ` set (entries b)"
    and res: "bucket_insert cap add timeout b k v now PeerDisconnected = Inr (previous, b')"
  shows "inserted cap b k v PeerDisconnected previous b'"
proof -
  have d: "distinct (map fst (entries b))" and le: "length (entries b) \<le> cap" "num_connected_entries b \<le> length (entries b)"
    using ok by (simp_all add: bucket_ok_def)
  show ?thesis
  proof (cases "length (entries b) = cap")
    case False
    then have b': "previous = None" "entries b' = entries b @ [(k, v)]" "num_connected_entries b' = num_connected_entries b"
      "pending_entry b' = (if length (entries b) + 1 = cap then Some (add now timeout) else pending_entry b)"
      using res le by (auto simp: bucket_insert_def arr_insert_def vec_insert_def Let_def split: if_splits)
    with False ok new d le show ?thesis
      by (auto simp: inserted_def bucket_ok_def connected_keys_def)
  next
    case True
    then have n: "num_connected_entries b < length (entries b)" "entries b \<noteq> []"
      using res le by (auto simp: bucket_insert_def split: if_splits)
    then have b': "previous = Some (last (entries b))" "entries b' = butlast (entries b) @ [(k, v)]"
      "num_connected_entries b' = num_connected_entries b"
      using res True by (auto simp: bucket_insert_def arr_insert_def vec_insert_def Let_def split: if_splits option.splits)
    have "distinct (map fst (butlast (entries b) @ [(k, v)]))"
      using d new by (auto simp: map_butlast distinct_butlast dest: in_set_butlastD)
    moreover have "take (num_connected_entries b) (butlast (entries b) @ [(k, v)]) = take (num_connected_entries b) (entries b)"
      using n by (simp add: butlast_take)
    moreover have "length (entries b') = cap" using b' True n by (cases "entries b") auto
    ultimately show ?thesis
      using b' n True le set_butlast_distinct [OF d n(2)] last_disconnected [OF d n(1)]
      by (auto simp: inserted_def bucket_ok_def connected_keys_def)
  qed
qed

end
