(* ===== verification/KBuckets_Props.thy ===== *)
theory KBuckets_Props
  imports KBuckets "HOL-Library.Multiset"
begin

text \<open>
  What the k-buckets guarantee: the shape of every bucket that the operations can build, what
  inserting and changing the state of a peer do to the peers known and to those that are
  connected, and the order in which the closest peers are listed.
\<close>

section \<open>Changing the state of a peer\<close>

lemma set_vec_remove: "i < length xs \<Longrightarrow> insert (xs ! i) (set (vec_remove i xs)) = set xs"
  using arg_cong [OF id_take_nth_drop, of i xs set] by (simp add: vec_remove_def)

lemma distinct_vec_remove:
  assumes "distinct (map fst xs)" "i < length xs"
  shows "distinct (map fst (vec_remove i xs))" "fst (xs ! i) \<notin> fst ` set (vec_remove i xs)"
proof -
  have xs: "xs = take i xs @ xs ! i # drop (Suc i) xs" using assms(2) by (simp add: id_take_nth_drop)
  have "distinct (map fst (take i xs @ xs ! i # drop (Suc i) xs))" using assms(1) xs by metis
  then show "distinct (map fst (vec_remove i xs))" "fst (xs ! i) \<notin> fst ` set (vec_remove i xs)"
    by (auto simp: vec_remove_def)
qed

lemma set_state_result:
  assumes ok: "bucket_ok cap b" and k: "k \<in> fst ` set (entries b)"
  shows "\<exists>b'. bucket_set_state cap add timeout b k now state = Some b' \<and> bucket_ok cap b' \<and>
    set (entries b') = set (entries b) \<and>
    connected_keys b' = (if state = PeerConnected then insert k (connected_keys b) else connected_keys b - {k})"
proof -
  let ?es = "entries b" and ?n = "num_connected_entries b"
  have d: "distinct (map fst ?es)" and le: "length ?es \<le> cap" "?n \<le> length ?es" using ok by (simp_all add: bucket_ok_def)
  obtain pos where pos: "position (\<lambda>e. fst e = k) ?es = Some pos"
    using k by (cases "position (\<lambda>e. fst e = k) ?es") auto
  from position_SomeD [OF pos] have p: "pos < length ?es" "fst (?es ! pos) = k" by simp_all
  note rm = distinct_vec_remove [OF d p(1)] set_vec_remove [OF p(1)]
  have move: "distinct (map fst (vec_insert i (?es ! pos) (vec_remove pos ?es)))"
      "set (vec_insert i (?es ! pos) (vec_remove pos ?es)) = set ?es" for i
    using rm by (simp_all add: distinct_vec_insert)
  have conn: "k \<in> connected_keys b \<longleftrightarrow> pos < ?n"
  proof
    assume "pos < ?n"
    then have "?es ! pos \<in> set (take ?n ?es)" using p(1) by (auto simp: in_set_conv_nth)
    then show "k \<in> connected_keys b" using p(2) by (force simp: connected_keys_def)
  next
    assume "k \<in> connected_keys b"
    then obtain j where j: "j < ?n" "j < length ?es" "fst (?es ! j) = k"
      by (auto simp: connected_keys_def in_set_conv_nth)
    then have "j = pos" using d p by (metis length_map nth_eq_iff_index_eq nth_map)
    with j show "pos < ?n" by simp
  qed
  have moved: "bucket_ok cap (b\<lparr>entries := vec_insert i (?es ! pos) (vec_remove pos ?es), num_connected_entries := m, pending_entry := t\<rparr>)"
    if "m \<le> length ?es" "length ?es < cap \<Longrightarrow> t = pending_entry b" for i m t
    using that ok move(1) [of i] p(1) by (auto simp: bucket_ok_def)
  consider (up) "state = PeerConnected" "?n \<le> pos" | (down) "state = PeerDisconnected" "pos < ?n"
    | (same) "state = PeerConnected" "pos < ?n" | (same') "state = PeerDisconnected" "?n \<le> pos"
    by (cases state; cases "pos < ?n") auto
  then show ?thesis
  proof cases
    case up
    define b' where "b' = b\<lparr>entries := vec_insert ?n (?es ! pos) (vec_remove pos ?es), num_connected_entries := ?n + 1,
      pending_entry := (if pos = cap - 1 then Some (add now timeout) else pending_entry b)\<rparr>"
    have "bucket_set_state cap add timeout b k now state = Some b'"
      using up pos by (simp add: bucket_set_state_def Let_def b'_def)
    moreover have "bucket_ok cap b'" unfolding b'_def using up p(1) by (intro moved) auto
    moreover have "take ?n (vec_remove pos ?es) = take ?n ?es" using up(2) p(1) unfolding vec_remove_def by simp
    then have "connected_keys b' = insert k (connected_keys b)"
      using up p by (simp add: connected_keys_def b'_def take_vec_insert)
    ultimately show ?thesis using up move by (simp add: b'_def)
  next
    case down
    define b' where "b' = b\<lparr>entries := vec_insert (?n - 1) (?es ! pos) (vec_remove pos ?es), num_connected_entries := ?n - 1,
      pending_entry := (if ?n - 1 = cap - 1 then Some (add now timeout) else pending_entry b)\<rparr>"
    have "bucket_set_state cap add timeout b k now state = Some b'"
      using down pos by (simp add: bucket_set_state_def Let_def b'_def)
    moreover have "bucket_ok cap b'" unfolding b'_def using down le by (intro moved) auto
    moreover have "connected_keys b' = connected_keys b - {k}"
    proof -
      have tk: "take (?n - 1) (vec_remove pos ?es) = vec_remove pos (take ?n ?es)"
        using down le by (simp add: vec_remove_def drop_take)
      have "distinct (map fst (take ?n ?es))" using distinct_take [OF d, of ?n] by (simp only: take_map)
      from distinct_vec_remove(2) [OF this, of pos] down p
      have "k \<notin> fst ` set (vec_remove pos (take ?n ?es))" by simp
      moreover have "insert (?es ! pos) (set (vec_remove pos (take ?n ?es))) = set (take ?n ?es)"
        using set_vec_remove [of pos "take ?n ?es"] down p by simp
      then have "insert k (fst ` set (vec_remove pos (take ?n ?es))) = fst ` set (take ?n ?es)"
        using p(2) by (metis image_insert)
      ultimately have "fst ` set (vec_remove pos (take ?n ?es)) = fst ` set (take ?n ?es) - {k}"
        by (metis Diff_insert_absorb)
      then show ?thesis using down le p tk by (simp add: take_vec_insert_before connected_keys_def b'_def)
    qed
    ultimately show ?thesis using down move by (simp add: b'_def)
  next
    case same
    with pos ok conn show ?thesis by (simp add: bucket_set_state_def insert_absorb)
  next
    case same'
    with pos ok conn show ?thesis by (simp add: bucket_set_state_def)
  qed
qed

section \<open>All the buckets\<close>

definition bucket_at :: "('k \<Rightarrow> digest) \<Rightarrow> nat \<Rightarrow> digest \<Rightarrow> nat \<Rightarrow> ('k, 'v, 'now) bucket \<Rightarrow> bool" where
  "bucket_at hash cap loc d b \<longleftrightarrow>
     bucket_ok cap b \<and> fst ` set (entries b) \<subseteq> {k. distance_log2 loc (hash k) = Some d}"

definition kb_inv :: "('k \<Rightarrow> digest) \<Rightarrow> nat \<Rightarrow> ('k, 'v, 'now, 'd) kbuckets \<Rightarrow> bool" where
  "kb_inv hash cap kb \<longleftrightarrow>
     snd (local_key kb) = hash (fst (local_key kb)) \<and> length (buckets kb) = 256 \<and>
     (\<forall>d < 256. bucket_at hash cap (snd (local_key kb)) d (buckets kb ! d))"

inductive kb_step ::
    "('k \<Rightarrow> digest) \<Rightarrow> nat \<Rightarrow> ('now \<Rightarrow> 'd \<Rightarrow> 'now) \<Rightarrow> ('k, 'v, 'now::linorder, 'd) kbuckets \<Rightarrow> ('k, 'v, 'now, 'd) kbuckets \<Rightarrow> bool"
  for hash cap add where
  insert: "kbuckets_entry hash kb k = Vacant d \<Longrightarrow> vacant_insert cap add kb d k v now state = Inr (previous, kb') \<Longrightarrow>
    kb_step hash cap add kb kb'"
| set_state: "kbuckets_entry hash kb k = Occupied d \<Longrightarrow> occupied_set_state cap add kb d k now state = Some kb' \<Longrightarrow>
    kb_step hash cap add kb kb'"
| get_mut: "kb_step hash cap add kb (kbuckets_get_mut hash kb k f)"

inductive kb_reachable ::
    "('k \<Rightarrow> digest) \<Rightarrow> nat \<Rightarrow> ('now \<Rightarrow> 'd \<Rightarrow> 'now) \<Rightarrow> ('k, 'v, 'now::linorder, 'd) kbuckets \<Rightarrow> bool"
  for hash cap add where
  new: "kb_reachable hash cap add (kbuckets_new hash k timeout)"
| step: "kb_reachable hash cap add kb \<Longrightarrow> kb_step hash cap add kb kb' \<Longrightarrow> kb_reachable hash cap add kb'"

lemma kb_inv_bucket: "kb_inv hash cap kb \<Longrightarrow> d < 256 \<Longrightarrow> bucket_at hash cap (snd (local_key kb)) d (buckets kb ! d)"
  unfolding kb_inv_def by blast

text \<open>Replacing one bucket.\<close>

lemma kb_inv_update:
  assumes "kb_inv hash cap kb" "bucket_at hash cap (snd (local_key kb)) d b"
  shows "kb_inv hash cap (kb\<lparr>buckets := (buckets kb)[d := b]\<rparr>)"
proof -
  have "bucket_at hash cap (snd (local_key kb)) j ((buckets kb)[d := b] ! j)" if "j < 256" for j
    using that assms kb_inv_bucket [OF assms(1) that] by (cases "j = d") (simp_all add: kb_inv_def)
  with assms(1) show ?thesis by (simp add: kb_inv_def)
qed

lemma entry_Vacant:
  assumes "kbuckets_entry hash kb k = Vacant d"
  shows "distance_log2 (snd (local_key kb)) (hash k) = Some d" "d < 256" "k \<notin> fst ` set (entries (buckets kb ! d))"
proof -
  show d: "distance_log2 (snd (local_key kb)) (hash k) = Some d"
    using assms by (auto simp: kbuckets_entry_def split: option.splits if_splits)
  then show "d < 256" by (rule distance_log2_bound)
  show "k \<notin> fst ` set (entries (buckets kb ! d))"
    using assms d by (simp add: kbuckets_entry_def bucket_get_map_of map_of_eq_None_iff [symmetric] split: if_splits)
qed

lemma entry_Occupied:
  assumes "kbuckets_entry hash kb k = Occupied d"
  shows "distance_log2 (snd (local_key kb)) (hash k) = Some d" "d < 256" "k \<in> fst ` set (entries (buckets kb ! d))"
proof -
  show d: "distance_log2 (snd (local_key kb)) (hash k) = Some d"
    using assms by (auto simp: kbuckets_entry_def split: option.splits if_splits)
  then show "d < 256" by (rule distance_log2_bound)
  have "map_of (entries (buckets kb ! d)) k \<noteq> None"
    using assms d by (simp add: kbuckets_entry_def bucket_get_map_of split: if_splits)
  then show "k \<in> fst ` set (entries (buckets kb ! d))" unfolding map_of_eq_None_iff by simp
qed

lemma vacant_insert_result:
  assumes "kb_inv hash cap kb" "kbuckets_entry hash kb k = Vacant d"
    and "vacant_insert cap add kb d k v now state = Inr (previous, kb')"
  obtains b' where "kb' = kb\<lparr>buckets := (buckets kb)[d := b']\<rparr>" "inserted cap (buckets kb ! d) k v state previous b'"
proof -
  note e = entry_Vacant [OF assms(2)]
  have ok: "bucket_ok cap (buckets kb ! d)" using kb_inv_bucket [OF assms(1) e(2)] by (simp add: bucket_at_def)
  obtain b' where b': "bucket_insert cap add (pending_timeout kb) (buckets kb ! d) k v now state = Inr (previous, b')"
      "kb' = kb\<lparr>buckets := (buckets kb)[d := b']\<rparr>"
    using assms(3) by (auto simp: vacant_insert_def and_then_eq_Inr)
  have "inserted cap (buckets kb ! d) k v state previous b'"
  proof (cases state)
    case PeerConnected
    then have "num_connected_entries (buckets kb ! d) < cap" using b'(1) by (auto simp: bucket_insert_def split: if_splits)
    from insert_connected [OF ok e(3) this, of add "pending_timeout kb" v now] b'(1) PeerConnected show ?thesis by auto
  next
    case PeerDisconnected
    with insert_disconnected [OF ok e(3)] b'(1) show ?thesis by simp
  qed
  with b'(2) that show thesis by blast
qed

lemma bucket_get_mut_entries:
  "map fst (entries (bucket_get_mut b k f)) = map fst (entries b)"
  "num_connected_entries (bucket_get_mut b k f) = num_connected_entries b"
  "pending_entry (bucket_get_mut b k f) = pending_entry b"
  by (simp_all add: bucket_get_mut_def keys_list_update split: option.splits)

lemma bucket_get_mut_at:
  assumes "bucket_at hash cap loc d b"
  shows "bucket_at hash cap loc d (bucket_get_mut b k f)"
proof -
  have "length (entries (bucket_get_mut b k f)) = length (entries b)"
      "fst ` set (entries (bucket_get_mut b k f)) = fst ` set (entries b)"
    using bucket_get_mut_entries(1) [of b k f] by (metis length_map, metis set_map)
  with assms show ?thesis by (simp add: bucket_at_def bucket_ok_def bucket_get_mut_entries)
qed

lemma kb_step_inv: "kb_step hash cap add kb kb' \<Longrightarrow> kb_inv hash cap kb \<Longrightarrow> kb_inv hash cap kb'"
proof (induction rule: kb_step.induct)
  case (insert kb k d v now state previous kb')
  note e = entry_Vacant [OF insert(1)]
  from insert(3,1,2) obtain b' where b': "kb' = kb\<lparr>buckets := (buckets kb)[d := b']\<rparr>"
      "inserted cap (buckets kb ! d) k v state previous b'" by (rule vacant_insert_result)
  have "fst ` set (entries b') \<subseteq> insert k (fst ` set (entries (buckets kb ! d)))" using b'(2) by (auto simp: inserted_def)
  then have "bucket_at hash cap (snd (local_key kb)) d b'"
    using kb_inv_bucket [OF insert(3) e(2)] e(1) b'(2) by (auto simp: bucket_at_def inserted_def)
  with b'(1) kb_inv_update [OF insert(3)] show ?case by simp
next
  case (set_state kb k d now state kb')
  note e = entry_Occupied [OF set_state(1)]
  have ok: "bucket_ok cap (buckets kb ! d)" using kb_inv_bucket [OF set_state(3) e(2)] by (simp add: bucket_at_def)
  obtain b' where b': "kb' = kb\<lparr>buckets := (buckets kb)[d := b']\<rparr>" "bucket_ok cap b'"
      "set (entries b') = set (entries (buckets kb ! d))"
    using set_state(2) set_state_result [OF ok e(3), of add "pending_timeout kb" now state]
    by (auto simp: occupied_set_state_def)
  have "bucket_at hash cap (snd (local_key kb)) d b'"
    using kb_inv_bucket [OF set_state(3) e(2)] b'(2,3) by (simp add: bucket_at_def)
  with b'(1) kb_inv_update [OF set_state(3)] show ?case by simp
next
  case (get_mut kb k f)
  show ?case
  proof (cases "distance_log2 (snd (local_key kb)) (hash k)")
    case None
    with get_mut show ?thesis by (simp add: kbuckets_get_mut_def)
  next
    case (Some d)
    from kb_inv_update [OF get_mut bucket_get_mut_at [OF kb_inv_bucket [OF get_mut distance_log2_bound [OF Some]]]] Some
    show ?thesis by (simp add: kbuckets_get_mut_def)
  qed
qed

lemma kb_reachable_inv: "kb_reachable hash cap add kb \<Longrightarrow> kb_inv hash cap kb"
proof (induction rule: kb_reachable.induct)
  case (new k timeout)
  show ?case by (simp add: kb_inv_def kbuckets_new_def bucket_empty_def bucket_ok_def bucket_at_def)
next
  case (step kb kb')
  then show ?case using kb_step_inv by blast
qed

section \<open>The peers known and the peers connected\<close>

definition kb_connected :: "('k \<Rightarrow> digest) \<Rightarrow> ('k, 'v, 'now, 'd) kbuckets \<Rightarrow> 'k set" where
  "kb_connected hash kb =
     {k. \<exists>d. distance_log2 (snd (local_key kb)) (hash k) = Some d \<and> k \<in> connected_keys (buckets kb ! d)}"

lemma kb_at_distance:
  assumes "distance_log2 (snd (local_key kb)) (hash j) = Some d"
  shows "kbuckets_get hash kb j = map_of (entries (buckets kb ! d)) j"
    and "j \<in> kb_connected hash kb \<longleftrightarrow> j \<in> connected_keys (buckets kb ! d)"
  using assms by (simp_all add: kbuckets_get_def kb_connected_def bucket_get_map_of)

lemma kb_get_update:
  assumes "kb_inv hash cap kb" "d < 256"
  shows "kbuckets_get hash (kb\<lparr>buckets := (buckets kb)[d := b]\<rparr>) j =
      (if distance_log2 (snd (local_key kb)) (hash j) = Some d then map_of (entries b) j else kbuckets_get hash kb j)"
  using assms
  by (auto simp: kbuckets_get_def kb_inv_def bucket_get_map_of nth_list_update dest: distance_log2_bound split: option.splits)

lemma kb_connected_update:
  assumes "kb_inv hash cap kb" "d < 256"
  shows "j \<in> kb_connected hash (kb\<lparr>buckets := (buckets kb)[d := b]\<rparr>) \<longleftrightarrow>
      (if distance_log2 (snd (local_key kb)) (hash j) = Some d then j \<in> connected_keys b else j \<in> kb_connected hash kb)"
  using assms by (auto simp: kb_connected_def kb_inv_def nth_list_update dest: distance_log2_bound)

lemma kb_get_at:
  assumes "kb_inv hash cap kb" "d < 256" "j \<in> fst ` set (entries (buckets kb ! d))"
  shows "kbuckets_get hash kb j = map_of (entries (buckets kb ! d)) j"
proof -
  have "distance_log2 (snd (local_key kb)) (hash j) = Some d"
    using kb_inv_bucket [OF assms(1,2)] assms(3) by (auto simp: bucket_at_def)
  then show ?thesis by (simp add: kbuckets_get_def bucket_get_map_of)
qed

lemma inserted_map_of:
  assumes ok: "bucket_ok cap b" and ins: "inserted cap b k v state previous b'" and new: "k \<notin> fst ` set (entries b)"
  shows "map_of (entries b') = (map_of (entries b) |` (- fst ` set_option previous))(k \<mapsto> v)"
proof
  fix j
  have d: "distinct (map fst (entries b))" "distinct (map fst (entries b'))"
    using ok ins by (simp_all add: inserted_def bucket_ok_def)
  have s: "set (entries b') = insert (k, v) (set (entries b) - set_option previous)"
    and p: "set_option previous \<subseteq> set (entries b)" using ins by (auto simp: inserted_def)
  show "map_of (entries b') j = ((map_of (entries b) |` (- fst ` set_option previous))(k \<mapsto> v)) j"
  proof (cases "map_of (entries b') j")
    case None
    then have "(j, w) \<notin> set (entries b')" for w using weak_map_of_SomeI [of j w "entries b'"] by auto
    then have gone: "j \<noteq> k" "\<And>w. (j, w) \<in> set (entries b) \<Longrightarrow> (j, w) \<in> set_option previous"
      unfolding s by auto
    have "j \<in> fst ` set_option previous \<or> map_of (entries b) j = None"
    proof (cases "map_of (entries b) j")
      case (Some w)
      from gone(2) [OF map_of_SomeD [OF this]] show ?thesis by force
    qed simp
    then have "(map_of (entries b) |` (- fst ` set_option previous)) j = None" by (auto simp: restrict_map_def)
    with None gone(1) show ?thesis by simp
  next
    case (Some w)
    then have "(j, w) \<in> set (entries b')" by (rule map_of_SomeD)
    then consider "j = k" "w = v" | "(j, w) \<in> set (entries b)" "(j, w) \<notin> set_option previous" using s by auto
    then show ?thesis
    proof cases
      case 1
      with Some show ?thesis by simp
    next
      case 2
      then have "j \<noteq> k" using new by force
      moreover have "j \<notin> fst ` set_option previous"
      proof
        assume "j \<in> fst ` set_option previous"
        then obtain w' where w': "(j, w') \<in> set_option previous" by force
        with p have "(j, w') \<in> set (entries b)" by blast
        with 2(1) d(1) have "w' = w" by (metis map_of_is_SomeI option.inject)
        with w' 2(2) show False by simp
      qed
      ultimately show ?thesis using 2(1) d(1) Some by simp
    qed
  qed
qed

section \<open>Properties\<close>

text \<open>
  C32: in all k-buckets built by the operations there are 256 buckets of at most the capacity, the
  connected peers come first, no peer is twice in a bucket, every peer is in the bucket of
  its distance to the local key, whose own hash is in none, and there is a time of expiry only
  when the bucket is full.
\<close>

theorem kbuckets_well_formed:
  assumes "kb_reachable hash cap add kb" "d < 256"
  shows "length (buckets kb) = 256 \<and> length (entries (buckets kb ! d)) \<le> cap \<and>
    num_connected_entries (buckets kb ! d) \<le> length (entries (buckets kb ! d)) \<and>
    distinct (map fst (entries (buckets kb ! d))) \<and>
    fst ` set (entries (buckets kb ! d)) \<subseteq> {k. distance_log2 (hash (fst (local_key kb))) (hash k) = Some d} \<and>
    (pending_entry (buckets kb ! d) = None \<or> length (entries (buckets kb ! d)) = cap)"
proof -
  have inv: "kb_inv hash cap kb" using kb_reachable_inv [OF assms(1)] .
  then have "snd (local_key kb) = hash (fst (local_key kb))" "length (buckets kb) = 256" unfolding kb_inv_def by blast+
  with kb_inv_bucket [OF inv assms(2)] show ?thesis by (auto simp: bucket_at_def bucket_ok_def)
qed

text \<open>
  C8: inserting a peer, when it succeeds, makes it known with its value and with the given state,
  forgets at most one other peer, which was not connected and whose entry is returned, and changes
  nothing else.
\<close>

theorem kbuckets_insert_effect:
  assumes "kb_reachable hash cap add kb" "kbuckets_entry hash kb k = Vacant d"
    and "vacant_insert cap add kb d k v now state = Inr (previous, kb')"
  shows "kbuckets_get hash kb' = (kbuckets_get hash kb |` (- fst ` set_option previous))(k \<mapsto> v) \<and>
    kb_connected hash kb' = (if state = PeerConnected then insert k (kb_connected hash kb) else kb_connected hash kb) \<and>
    set_option previous \<subseteq> {(j, w). j \<noteq> k \<and> kbuckets_get hash kb j = Some w \<and> j \<notin> kb_connected hash kb}"
proof -
  have inv: "kb_inv hash cap kb" using kb_reachable_inv [OF assms(1)] .
  note e = entry_Vacant [OF assms(2)]
  let ?b = "buckets kb ! d" and ?dist = "\<lambda>j. distance_log2 (snd (local_key kb)) (hash j)"
  have at: "bucket_at hash cap (snd (local_key kb)) d ?b" using kb_inv_bucket [OF inv e(2)] .
  from inv assms(2,3) obtain b' where b': "kb' = kb\<lparr>buckets := (buckets kb)[d := b']\<rparr>"
      "inserted cap ?b k v state previous b'" by (rule vacant_insert_result)
  have p: "set_option previous \<subseteq> set (entries ?b)" using b'(2) by (auto simp: inserted_def)
  have pd: "?dist j = Some d" if "j \<in> fst ` set_option previous" for j
    using that p at by (auto simp: bucket_at_def)
  have m: "map_of (entries b') = (map_of (entries ?b) |` (- fst ` set_option previous))(k \<mapsto> v)"
    using inserted_map_of [OF _ b'(2) e(3)] at by (simp add: bucket_at_def)
  have "kbuckets_get hash kb' j = ((kbuckets_get hash kb |` (- fst ` set_option previous))(k \<mapsto> v)) j" for j
  proof (cases "?dist j = Some d")
    case True
    then have "kbuckets_get hash kb j = map_of (entries ?b) j" by (rule kb_at_distance)
    with True m b'(1) show ?thesis by (simp add: kb_get_update [OF inv e(2)] restrict_map_def)
  next
    case False
    then have "j \<noteq> k" "j \<notin> fst ` set_option previous" using e(1) pd by auto
    with False b'(1) show ?thesis by (simp add: kb_get_update [OF inv e(2)] restrict_map_def)
  qed
  moreover have "j \<in> kb_connected hash kb' \<longleftrightarrow> j \<in> (if state = PeerConnected then insert k (kb_connected hash kb) else kb_connected hash kb)" for j
    using b' e(1) kb_at_distance(2) [of kb hash j d]
    by (cases "?dist j = Some d") (auto simp: kb_connected_update [OF inv e(2)] inserted_def)
  moreover have "set_option previous \<subseteq> {(j, w). j \<noteq> k \<and> kbuckets_get hash kb j = Some w \<and> j \<notin> kb_connected hash kb}"
  proof (rule subsetI)
    fix x assume "x \<in> set_option previous"
    moreover obtain j w where x: "x = (j, w)" by (cases x)
    ultimately have jw: "(j, w) \<in> set_option previous" by simp
    then have j: "(j, w) \<in> set (entries ?b)" "j \<notin> connected_keys ?b" using b'(2) by (auto simp: inserted_def)
    then have "kbuckets_get hash kb j = Some w"
      using kb_get_at [OF inv e(2), of j] at by (force simp: bucket_at_def bucket_ok_def)
    moreover have "j \<noteq> k" using j(1) e(3) by force
    moreover have "?dist j = Some d" using pd jw by force
    ultimately show "x \<in> {(j, w). j \<noteq> k \<and> kbuckets_get hash kb j = Some w \<and> j \<notin> kb_connected hash kb}"
      using j(2) by (simp add: x kb_at_distance(2))
  qed
  ultimately show ?thesis by (intro conjI) (auto intro: set_eqI)
qed

text \<open>
  Changing the state of a known peer never panics; it changes whether that peer is connected,
  and nothing else about which peers are known or connected.
\<close>

lemma kbuckets_set_state_effect:
  assumes "kb_reachable hash cap add kb" "kbuckets_entry hash kb k = Occupied d"
  shows "\<exists>kb'. occupied_set_state cap add kb d k now state = Some kb' \<and>
    kbuckets_get hash kb' = kbuckets_get hash kb \<and>
    kb_connected hash kb' = (if state = PeerConnected then insert k (kb_connected hash kb) else kb_connected hash kb - {k})"
proof -
  have inv: "kb_inv hash cap kb" using kb_reachable_inv [OF assms(1)] .
  note e = entry_Occupied [OF assms(2)]
  let ?b = "buckets kb ! d"
  have ok: "bucket_ok cap ?b" using kb_inv_bucket [OF inv e(2)] by (simp add: bucket_at_def)
  from set_state_result [OF ok e(3), of add "pending_timeout kb" now state] obtain b' where
    b': "bucket_set_state cap add (pending_timeout kb) ?b k now state = Some b'" "bucket_ok cap b'"
      "set (entries b') = set (entries ?b)"
      "connected_keys b' = (if state = PeerConnected then insert k (connected_keys ?b) else connected_keys ?b - {k})" by blast
  define kb' where "kb' = kb\<lparr>buckets := (buckets kb)[d := b']\<rparr>"
  have "map_of (entries b') = map_of (entries ?b)"
    using b'(2,3) ok by (intro map_of_eqI) (auto simp: bucket_ok_def)
  then have "kbuckets_get hash kb' j = kbuckets_get hash kb j" for j
    using kb_at_distance(1) [of kb hash j d] by (simp add: kb'_def kb_get_update [OF inv e(2)])
  moreover have "j \<in> kb_connected hash kb' \<longleftrightarrow> j \<in> (if state = PeerConnected then insert k (kb_connected hash kb) else kb_connected hash kb - {k})" for j
    using b'(4) e(1) kb_at_distance(2) [of kb hash j d]
    by (cases "distance_log2 (snd (local_key kb)) (hash j) = Some d") (auto simp: kb'_def kb_connected_update [OF inv e(2)])
  moreover have "occupied_set_state cap add kb d k now state = Some kb'"
    using b'(1) by (simp add: occupied_set_state_def kb'_def)
  ultimately show ?thesis by (intro exI [of _ kb']) (auto intro: set_eqI)
qed

text \<open>
  C33: for hashes of 32 bytes, \<^verbatim>\<open>distance_log2\<close> is the logarithm, rounded down, of the exclusive or
  of the two hashes read as numbers, and is absent exactly when they are equal; it always is
  the index of one of the 256 buckets.
\<close>

theorem distance_log2_is_logarithm:
  assumes "length a = 32" "length b = 32"
  shows "case distance_log2 a b of
      None \<Rightarrow> a = b
    | Some d \<Rightarrow> d < 256 \<and> 2 ^ d \<le> be_value (map2 (XOR) a b) \<and> be_value (map2 (XOR) a b) < 2 ^ Suc d"
  using distance_log2_correct [OF assms] by (simp add: is_log2_def split: option.splits)

text \<open>
  The closest entries to a target are all the entries of the k-buckets, by increasing distance of
  their hash to that of the target, an entry with the same hash first.
\<close>

definition target_distance :: "('k \<Rightarrow> digest) \<Rightarrow> 'k \<Rightarrow> 'k \<times> 'v \<Rightarrow> nat" where
  "target_distance hash target e = (case distance_log2 (hash (fst e)) (hash target) of None \<Rightarrow> 0 | Some d \<Rightarrow> d + 1)"

lemma closest_entries_sorted:
  "mset (closest_entries hash kb target) = mset (concat (map entries (buckets kb))) \<and>
    sorted (map (target_distance hash target) (closest_entries hash kb target))"
proof -
  have "(\<lambda>(k, _). case distance_log2 (hash k) (hash target) of None \<Rightarrow> 0 | Some d \<Rightarrow> d + 1) =
      (target_distance hash target :: 'a \<times> 'b \<Rightarrow> nat)"
    by (auto simp: target_distance_def fun_eq_iff)
  then show ?thesis
    using sorted_sort_key [of "target_distance hash target" "kb_iter_ordered kb"]
    by (simp add: closest_entries_def kb_iter_ordered_def)
qed

text \<open>
  C34: when a connected peer takes the last free place of a bucket whose last entry is
  disconnected, no time of expiry is set, and the next attempt to insert a disconnected peer
  into that bucket panics.
\<close>

theorem insert_after_fill_panics:
  assumes "bucket_ok cap b" "Suc (length (entries b)) = cap" "num_connected_entries b < length (entries b)"
  shows "\<exists>b'. bucket_insert cap add timeout b k v now PeerConnected = Inr (None, b') \<and>
    bucket_insert cap add timeout b' k' v' now' PeerDisconnected = Inl Panic"
proof -
  have p: "pending_entry b = None" using assms(1,2) by (simp add: bucket_ok_def)
  define b' where "b' = b\<lparr>entries := vec_insert (num_connected_entries b) (k, v) (entries b),
    num_connected_entries := num_connected_entries b + 1\<rparr>"
  have "bucket_insert cap add timeout b k v now PeerConnected = Inr (None, b')"
    using assms by (simp add: bucket_insert_def arr_insert_def Let_def b'_def)
  moreover have "bucket_insert cap add timeout b' k' v' now' PeerDisconnected = Inl Panic"
    using assms p by (simp add: bucket_insert_def b'_def)
  ultimately show ?thesis by blast
qed

section \<open>Instances\<close>

text \<open>Keys that are numbers, hashed to themselves, and buckets of two entries.\<close>

definition sample_hash :: "nat \<Rightarrow> digest" where
  "sample_hash k = replicate 31 0 @ [word_of_nat k]"

definition sample_kb :: "(nat, string, nat, nat) kbuckets" where
  "sample_kb = kbuckets_new sample_hash 0 10"

definition sample_kb' :: "(nat, string, nat, nat) kbuckets" where
  "sample_kb' = sample_kb\<lparr>buckets := (buckets sample_kb)[2 := \<lparr>entries = [(4, ''a'')], num_connected_entries = 0, pending_entry = None\<rparr>]\<rparr>"

lemma sample_distance: "distance_log2 (sample_hash 0) (sample_hash 4) = Some 2"
proof -
  have "map2 (XOR) (sample_hash 0) (sample_hash 4) = replicate 31 0 @ [4]"
    by (simp add: sample_hash_def zip_append zip_replicate)
  then have v: "be_value (map2 (XOR) (sample_hash 0) (sample_hash 4)) = 4" by (simp add: be_value_zeros)
  have ne: "sample_hash 0 \<noteq> sample_hash 4" by (simp add: sample_hash_def)
  have len: "length (sample_hash 0) = 32" "length (sample_hash 4) = 32" by (simp_all add: sample_hash_def)
  from distance_log2_correct [OF len] ne v obtain d where d: "distance_log2 (sample_hash 0) (sample_hash 4) = Some d" "is_log2 4 d"
    by (auto split: option.splits)
  have "d = 2"
  proof (rule ccontr)
    assume "d \<noteq> 2"
    then have "Suc d \<le> 2 \<or> 3 \<le> d" by linarith
    then have "(2::nat) ^ Suc d \<le> 2 ^ 2 \<or> (2::nat) ^ 3 \<le> 2 ^ d" by (meson one_le_numeral power_increasing)
    with d(2) show False by (auto simp: is_log2_def)
  qed
  with d show ?thesis by simp
qed

lemma sample_kb_reachable: "kb_reachable sample_hash 2 (+) sample_kb"
  unfolding sample_kb_def by (rule kb_reachable.new)

lemma sample_entry: "kbuckets_entry sample_hash sample_kb 4 = Vacant 2"
  using sample_distance
  by (simp add: kbuckets_entry_def sample_kb_def kbuckets_new_def bucket_get_map_of bucket_empty_def)

lemma sample_insert: "vacant_insert 2 (+) sample_kb 2 4 ''a'' 0 PeerDisconnected = Inr (None, sample_kb')"
  by (simp add: vacant_insert_def bucket_insert_def arr_insert_def vec_insert_def sample_kb'_def sample_kb_def
      kbuckets_new_def bucket_empty_def)

lemma sample_kb'_reachable: "kb_reachable sample_hash 2 (+) sample_kb'"
  by (rule kb_reachable.step [OF sample_kb_reachable kb_step.insert [OF sample_entry sample_insert]])

lemma sample_occupied: "kbuckets_entry sample_hash sample_kb' 4 = Occupied 2"
  using sample_distance
  by (simp add: kbuckets_entry_def sample_kb'_def sample_kb_def kbuckets_new_def bucket_get_map_of)

theorem kbuckets_well_formed_witness:
  "length (buckets sample_kb') = 256 \<and> length (entries (buckets sample_kb' ! 2)) \<le> 2"
  using kbuckets_well_formed [OF sample_kb'_reachable, of 2] by simp

theorem kbuckets_insert_effect_witness:
  "kbuckets_get sample_hash sample_kb' = (kbuckets_get sample_hash sample_kb |` (- fst ` set_option (None :: (nat \<times> string) option)))(4 \<mapsto> ''a'')"
  using kbuckets_insert_effect [OF sample_kb_reachable sample_entry sample_insert] by blast

theorem distance_log2_is_logarithm_witness:
  "case distance_log2 (sample_hash 1) (sample_hash 7) of
      None \<Rightarrow> sample_hash 1 = sample_hash 7
    | Some d \<Rightarrow> d < 256 \<and> 2 ^ d \<le> be_value (map2 (XOR) (sample_hash 1) (sample_hash 7)) \<and>
        be_value (map2 (XOR) (sample_hash 1) (sample_hash 7)) < 2 ^ Suc d"
  by (rule distance_log2_is_logarithm) (simp_all add: sample_hash_def)

theorem insert_after_fill_panics_witness:
  "\<exists>b'. bucket_insert 2 (+) 10 (buckets sample_kb' ! 2) 5 ''b'' 0 PeerConnected = Inr (None, b') \<and>
    bucket_insert 2 (+) 10 b' 6 ''c'' 100 PeerDisconnected = Inl Panic"
proof (rule insert_after_fill_panics)
  have b: "buckets sample_kb' ! 2 = \<lparr>entries = [(4, ''a'')], num_connected_entries = 0, pending_entry = None\<rparr>"
    by (simp add: sample_kb'_def sample_kb_def kbuckets_new_def)
  show "bucket_ok 2 (buckets sample_kb' ! 2)" "Suc (length (entries (buckets sample_kb' ! 2))) = 2"
    "num_connected_entries (buckets sample_kb' ! 2) < length (entries (buckets sample_kb' ! 2))"
    by (simp_all add: b bucket_ok_def)
qed

end
