(* ===== verification/Async_Tree.thy ===== *)
theory Async_Tree
  imports Fork_Tree_Props
begin

text \<open>
  The tree of blocks with asynchronous operations of \<^verbatim>\<open>src/chain/async_tree.rs\<close>, on top of the fork
  tree. The order in which the slab of the fork tree iterates is the argument \<open>keys\<close>; adding a
  duration to an instant is the argument \<open>add\<close>. Weights of blocks and identifiers of operations are
  machine words. \<open>None\<close> as the result of an operation is a panic.
\<close>

section \<open>State\<close>

datatype ('now, 'a) async_op_state =
    Finished 'a bool
  | InProgress u64 "'now option"
  | Pending bool "'now option"

record ('now, 'b, 'a) block =
  block_data :: 'b
  async_op :: "('now, 'a) async_op_state"
  input_best_block_weight :: u32

record ('now, 'd, 'b, 'a) async_tree =
  non_finalized_blocks :: "('now, 'b, 'a) block fork_tree"
  finalized_async_user_data :: 'a
  best_block_index :: "nat option"
  input_finalized_index :: "nat option"
  input_best_block_next_weight :: u32
  finalized_block_weight :: u32
  next_async_op_id :: u64
  retry_after_failed :: 'd

definition async_tree_new :: "'a \<Rightarrow> 'd \<Rightarrow> ('now, 'd, 'b, 'a) async_tree" where
  "async_tree_new fin retry =
     \<lparr>non_finalized_blocks = fork_tree_new, finalized_async_user_data = fin, best_block_index = None,
      input_finalized_index = None, input_best_block_next_weight = 2, finalized_block_weight = 1,
      next_async_op_id = 0, retry_after_failed = retry\<rparr>"

abbreviation block_at :: "('now, 'd, 'b, 'a) async_tree \<Rightarrow> nat \<Rightarrow> ('now, 'b, 'a) block option" where
  "block_at at \<equiv> fork_tree_get (non_finalized_blocks at)"

definition is_reported :: "('now, 'b, 'a) block \<Rightarrow> bool" where
  "is_reported b = (case async_op b of Finished _ reported \<Rightarrow> reported | _ \<Rightarrow> False)"

section \<open>Queries\<close>

definition map_async_op :: "('a \<Rightarrow> 'c) \<Rightarrow> ('now, 'a) async_op_state \<Rightarrow> ('now, 'c) async_op_state" where
  "map_async_op f s = (case s of
      Finished d reported \<Rightarrow> Finished (f d) reported
    | InProgress op timeout \<Rightarrow> InProgress op timeout
    | Pending same timeout \<Rightarrow> Pending same timeout)"

definition map_async_op_user_data ::
    "('a \<Rightarrow> 'c) \<Rightarrow> ('now, 'd, 'b, 'a) async_tree \<Rightarrow> ('now, 'd, 'b, 'c) async_tree" where
  "map_async_op_user_data f at =
     \<lparr>non_finalized_blocks = fork_tree_map (\<lambda>b.
        \<lparr>block_data = block_data b, async_op = map_async_op f (async_op b),
         input_best_block_weight = input_best_block_weight b\<rparr>) (non_finalized_blocks at),
      finalized_async_user_data = f (finalized_async_user_data at),
      best_block_index = best_block_index at, input_finalized_index = input_finalized_index at,
      input_best_block_next_weight = input_best_block_next_weight at,
      finalized_block_weight = finalized_block_weight at, next_async_op_id = next_async_op_id at,
      retry_after_failed = retry_after_failed at\<rparr>"

text \<open>The outer \<open>None\<close> is the \<^verbatim>\<open>unwrap\<close> or the \<^verbatim>\<open>unreachable!()\<close>.\<close>

definition best_block :: "('now, 'd, 'b, 'a) async_tree \<Rightarrow> (nat \<times> 'a) option option" where
  "best_block at = (case best_block_index at of
      None \<Rightarrow> Some None
    | Some i \<Rightarrow> Option.bind (block_at at i) (\<lambda>b. case async_op b of Finished d True \<Rightarrow> Some (Some (i, d)) | _ \<Rightarrow> None))"

definition block_user_data :: "('now, 'd, 'b, 'a) async_tree \<Rightarrow> nat \<Rightarrow> 'b option" where
  "block_user_data at i = map_option block_data (block_at at i)"

definition block_async_user_data :: "('now, 'd, 'b, 'a) async_tree \<Rightarrow> nat \<Rightarrow> 'a option option" where
  "block_async_user_data at i =
     map_option (\<lambda>b. case async_op b of Finished d _ \<Rightarrow> Some d | _ \<Rightarrow> None) (block_at at i)"

text \<open>The two mutable references, with what the caller does to the value.\<close>

definition block_user_data_mut ::
    "('now, 'd, 'b, 'a) async_tree \<Rightarrow> nat \<Rightarrow> ('b \<Rightarrow> 'b) \<Rightarrow> ('now, 'd, 'b, 'a) async_tree option" where
  "block_user_data_mut at i f =
     map_option (\<lambda>t. at\<lparr>non_finalized_blocks := t\<rparr>)
       (fork_tree_get_mut (non_finalized_blocks at) i (\<lambda>b. b\<lparr>block_data := f (block_data b)\<rparr>))"

definition block_async_user_data_mut ::
    "('now, 'd, 'b, 'a) async_tree \<Rightarrow> nat \<Rightarrow> ('a \<Rightarrow> 'a) \<Rightarrow> ('now, 'd, 'b, 'a) async_tree option" where
  "block_async_user_data_mut at i f =
     map_option (\<lambda>t. at\<lparr>non_finalized_blocks := t\<rparr>)
       (fork_tree_get_mut (non_finalized_blocks at) i (\<lambda>b.
          b\<lparr>async_op := (case async_op b of Finished d reported \<Rightarrow> Finished (f d) reported | s \<Rightarrow> s)\<rparr>))"

record ('b, 'a) input_iter_item =
  item_id :: nat
  item_user_data :: 'b
  item_async_op_user_data :: "'a option"
  item_is_output_best :: bool

definition input_iter_item :: "('now, 'd, 'b, 'a) async_tree \<Rightarrow> nat \<times> ('now, 'b, 'a) block \<Rightarrow> ('b, 'a) input_iter_item" where
  "input_iter_item at = (\<lambda>(i, b).
     \<lparr>item_id = i, item_user_data = block_data b,
      item_async_op_user_data = (case async_op b of Finished d True \<Rightarrow> Some d | _ \<Rightarrow> None),
      item_is_output_best = (best_block_index at = Some i)\<rparr>)"

definition input_iter_ancestry_order :: "('now, 'd, 'b, 'a) async_tree \<Rightarrow> ('b, 'a) input_iter_item list option" where
  "input_iter_ancestry_order at =
     map_option (map (input_iter_item at)) (iter_ancestry_order (non_finalized_blocks at))"

definition input_iter_unordered ::
    "(('now, 'b, 'a) block node slab \<Rightarrow> nat list) \<Rightarrow> ('now, 'd, 'b, 'a) async_tree \<Rightarrow> ('b, 'a) input_iter_item list" where
  "input_iter_unordered keys at = map (input_iter_item at) (iter_unordered keys (non_finalized_blocks at))"

definition has_async_op :: "u64 \<Rightarrow> ('now, 'b, 'a) block \<Rightarrow> bool" where
  "has_async_op op b = (case async_op b of InProgress op' _ \<Rightarrow> op' = op | _ \<Rightarrow> False)"

definition async_op_blocks ::
    "(('now, 'b, 'a) block node slab \<Rightarrow> nat list) \<Rightarrow> ('now, 'd, 'b, 'a) async_tree \<Rightarrow> u64 \<Rightarrow> 'b list" where
  "async_op_blocks keys at op =
     map block_data (filter (has_async_op op) (map snd (iter_unordered keys (non_finalized_blocks at))))"

section \<open>Asynchronous operations\<close>

text \<open>Assigning to the operation of a block, with \<^verbatim>\<open>get_mut(index).unwrap().async_op\<close>.\<close>

definition set_async_op ::
    "nat \<Rightarrow> ('now, 'a) async_op_state \<Rightarrow> ('now, 'd, 'b, 'a) async_tree \<Rightarrow> ('now, 'd, 'b, 'a) async_tree option" where
  "set_async_op i s at =
     map_option (\<lambda>t. at\<lparr>non_finalized_blocks := t\<rparr>)
       (fork_tree_get_mut (non_finalized_blocks at) i (\<lambda>b. b\<lparr>async_op := s\<rparr>))"

definition async_op_finished ::
    "(('now, 'b, 'a) block node slab \<Rightarrow> nat list) \<Rightarrow> ('now, 'd, 'b, 'a) async_tree \<Rightarrow> u64 \<Rightarrow> 'a \<Rightarrow>
     (nat list \<times> ('now, 'd, 'b, 'a) async_tree) option" where
  "async_op_finished keys at op d =
     (let lst = map fst (filter (\<lambda>(_, b). has_async_op op b) (iter_unordered keys (non_finalized_blocks at)))
      in map_option (Pair lst)
           (for_each (\<lambda>i at. Option.bind (block_at at i) (\<lambda>b.
              if has_async_op op b then set_async_op i (Finished d False) at else Some at)) lst at))"

text \<open>The body of the loop of \<^verbatim>\<open>async_op_failure\<close>, for one block.\<close>

definition fail_block ::
    "u64 \<Rightarrow> 'now::linorder \<Rightarrow> nat \<Rightarrow> ('now, 'd, 'b, 'a) async_tree \<Rightarrow> ('now, 'd, 'b, 'a) async_tree option" where
  "fail_block op new_timeout i at =
     Option.bind (block_at at i) (\<lambda>b.
       case async_op b of
         InProgress op' timeout \<Rightarrow>
           if op' = op then
             let new_timeout = (case timeout of Some t \<Rightarrow> Some (min t new_timeout) | None \<Rightarrow> Some new_timeout)
             in Option.bind (fork_tree_parent (non_finalized_blocks at) i) (\<lambda>par.
                Option.bind (case par of None \<Rightarrow> Some False
                  | Some p \<Rightarrow> map_option (has_async_op op) (block_at at p)) (\<lambda>same_as_parent.
                set_async_op i (Pending same_as_parent new_timeout) at))
           else Some at
       | _ \<Rightarrow> Some at)"

definition async_op_failure ::
    "('now::linorder \<Rightarrow> 'd \<Rightarrow> 'now) \<Rightarrow> ('now, 'd, 'b, 'a) async_tree \<Rightarrow> u64 \<Rightarrow> 'now \<Rightarrow> ('now, 'd, 'b, 'a) async_tree option" where
  "async_op_failure add at op now =
     (let new_timeout = add now (retry_after_failed at)
      in Option.bind (iter_ancestry_order (non_finalized_blocks at)) (\<lambda>lst.
         for_each (fail_block op new_timeout) (rev (map fst lst)) at))"

datatype 'now next_op_internal = ReadyInternal u64 nat | NotReadyInternal "'now option"

text \<open>
  \<^verbatim>\<open>start_necessary_async_op\<close>. The blocks to update are those below the block, through blocks
  whose operation is to be that of their parent.
\<close>

definition waits_for_parent :: "('now, 'b, 'a) block \<Rightarrow> bool" where
  "waits_for_parent b = (case async_op b of Pending True _ \<Rightarrow> True | _ \<Rightarrow> False)"

definition shares_op :: "('now, 'd, 'b, 'a) async_tree \<Rightarrow> nat \<Rightarrow> nat \<Rightarrow> bool option" where
  "shares_op at i child =
     Option.bind (is_ancestor (nodes (non_finalized_blocks at)) i child) (\<lambda>anc.
       if \<not> anc then Some False
       else Option.bind (node_to_root_path (nodes (non_finalized_blocks at)) child) (\<lambda>path.
         all_option (\<lambda>j. map_option waits_for_parent (block_at at j)) (takeWhile (\<lambda>j. j \<noteq> i) path)))"

definition start_necessary_async_op ::
    "(('now, 'b, 'a) block node slab \<Rightarrow> nat list) \<Rightarrow> ('now::linorder, 'd, 'b, 'a) async_tree \<Rightarrow> nat \<Rightarrow> 'now \<Rightarrow>
     ('now next_op_internal \<times> ('now, 'd, 'b, 'a) async_tree) option" where
  "start_necessary_async_op keys at i now =
     Option.bind (block_at at i) (\<lambda>b.
       case async_op b of
         Pending False timeout \<Rightarrow>
           if (case timeout of None \<Rightarrow> True | Some t \<Rightarrow> t \<le> now) then
             let op = next_async_op_id at;
                 at = at\<lparr>next_async_op_id := op + 1\<rparr>
             in Option.bind (filter_option (shares_op at i) (map fst (iter_unordered keys (non_finalized_blocks at)))) (\<lambda>to_update.
                map_option (Pair (ReadyInternal op i))
                  (for_each (\<lambda>j. set_async_op j (InProgress op None)) to_update at))
           else Some (NotReadyInternal timeout, at)
       | _ \<Rightarrow> Some (NotReadyInternal None, at))"

definition min_when :: "'now::linorder option \<Rightarrow> 'now option \<Rightarrow> 'now option" where
  "min_when a b = (case (a, b) of
      (None, None) \<Rightarrow> None
    | (Some a, None) \<Rightarrow> Some a
    | (None, Some b) \<Rightarrow> Some b
    | (Some a, Some b) \<Rightarrow> Some (min a b))"

text \<open>\<^verbatim>\<open>Iterator::max_by_key\<close>: the last of the greatest elements.\<close>

definition max_by_key :: "('x \<Rightarrow> 'k::linorder) \<Rightarrow> 'x list \<Rightarrow> 'x option" where
  "max_by_key f xs = foldl (\<lambda>acc x. case acc of None \<Rightarrow> Some x | Some y \<Rightarrow> if f y \<le> f x then Some x else Some y) None xs"

datatype ('now, 'b) next_necessary_async_op = Ready u64 nat 'b | NotReady "'now option"

fun try_start ::
    "(('now, 'b, 'a) block node slab \<Rightarrow> nat list) \<Rightarrow> 'now \<Rightarrow> nat list \<Rightarrow> 'now option \<Rightarrow> ('now::linorder, 'd, 'b, 'a) async_tree \<Rightarrow>
     (('now, 'b) next_necessary_async_op \<times> ('now, 'd, 'b, 'a) async_tree) option" where
  "try_start keys now [] when at = Some (NotReady when, at)"
| "try_start keys now (i # is) when at =
     Option.bind (start_necessary_async_op keys at i now) (\<lambda>(r, at).
       case r of
         ReadyInternal op j \<Rightarrow> map_option (\<lambda>b. (Ready op j (block_data b), at)) (block_at at j)
       | NotReadyInternal w \<Rightarrow> try_start keys now is (min_when w when) at)"

definition next_necessary_async_op ::
    "(('now, 'b, 'a) block node slab \<Rightarrow> nat list) \<Rightarrow> ('now::linorder, 'd, 'b, 'a) async_tree \<Rightarrow> 'now \<Rightarrow>
     (('now, 'b) next_necessary_async_op \<times> ('now, 'd, 'b, 'a) async_tree) option" where
  "next_necessary_async_op keys at now =
     (let bl = iter_unordered keys (non_finalized_blocks at);
          fin = (case input_finalized_index at of Some i \<Rightarrow> [i] | None \<Rightarrow> []);
          best = (case max_by_key (\<lambda>(_, b). input_best_block_weight b) bl of Some (i, _) \<Rightarrow> [i] | None \<Rightarrow> [])
      in try_start keys now (fin @ best @ map fst bl) None at)"

section \<open>Input\<close>

text \<open>The operation of a block to insert.\<close>

definition initial_async_op :: "('now, 'd, 'b, 'a) async_tree \<Rightarrow> bool \<Rightarrow> nat option \<Rightarrow> ('now, 'a) async_op_state option" where
  "initial_async_op at same_async_op_as_parent parent_index =
     (case (same_async_op_as_parent, parent_index) of
        (True, Some p) \<Rightarrow>
          map_option (\<lambda>pb. case async_op pb of
              InProgress op _ \<Rightarrow> InProgress op None
            | Finished d _ \<Rightarrow> Finished d False
            | Pending _ _ \<Rightarrow> Pending True None) (block_at at p)
      | (True, None) \<Rightarrow> Some (Finished (finalized_async_user_data at) False)
      | (False, _) \<Rightarrow> Some (Pending False None))"

text \<open>\<^verbatim>\<open>input_insert_block\<close>, with the vacant index that the slab picks as its first argument.\<close>

definition input_insert_block ::
    "nat \<Rightarrow> ('now, 'd, 'b, 'a) async_tree \<Rightarrow> 'b \<Rightarrow> nat option \<Rightarrow> bool \<Rightarrow> bool \<Rightarrow> (nat \<times> ('now, 'd, 'b, 'a) async_tree) option" where
  "input_insert_block new_index at bl parent_index same_async_op_as_parent is_new_best =
     (let (weight, at) =
        (if is_new_best
         then (input_best_block_next_weight at, at\<lparr>input_best_block_next_weight := input_best_block_next_weight at + 1\<rparr>)
         else (0, at))
      in Option.bind (initial_async_op at same_async_op_as_parent parent_index) (\<lambda>op.
         map_option (\<lambda>(t, i). (i, at\<lparr>non_finalized_blocks := t\<rparr>))
           (fork_tree_insert new_index (non_finalized_blocks at) parent_index
              \<lparr>block_data = bl, async_op = op, input_best_block_weight = weight\<rparr>)))"

definition update_best_weight ::
    "nat \<Rightarrow> ('now, 'd, 'b, 'a) async_tree \<Rightarrow> ('now, 'd, 'b, 'a) async_tree option" where
  "update_best_weight i at =
     Option.bind (block_at at i) (\<lambda>b.
       if input_best_block_weight b = input_best_block_next_weight at - 1 then Some at
       else map_option (\<lambda>t. at\<lparr>non_finalized_blocks := t,
              input_best_block_next_weight := input_best_block_next_weight at + 1\<rparr>)
            (fork_tree_get_mut (non_finalized_blocks at) i
              (\<lambda>b. b\<lparr>input_best_block_weight := input_best_block_next_weight at\<rparr>)))"

definition input_set_best_block ::
    "('now, 'd, 'b, 'a) async_tree \<Rightarrow> nat \<Rightarrow> ('now, 'd, 'b, 'a) async_tree option" where
  "input_set_best_block at new_best =
     Option.bind (case input_finalized_index at of
         None \<Rightarrow> Some True
       | Some fin \<Rightarrow> is_ancestor (nodes (non_finalized_blocks at)) fin new_best) (\<lambda>ok.
       if ok then update_best_weight new_best at else None)"

definition input_finalize ::
    "('now, 'd, 'b, 'a) async_tree \<Rightarrow> nat \<Rightarrow> nat \<Rightarrow> ('now, 'd, 'b, 'a) async_tree option" where
  "input_finalize at node_to_finalize new_best =
     Option.bind (is_ancestor (nodes (non_finalized_blocks at)) node_to_finalize new_best) (\<lambda>ok.
       if ok then update_best_weight new_best (at\<lparr>input_finalized_index := Some node_to_finalize\<rparr>) else None)"

section \<open>Output\<close>

record ('b, 'a) output_finalized =
  former_index :: nat
  finalized_user_data :: 'b
  finalized_async_op_user_data :: 'a
  former_finalized_async_op_user_data :: 'a
  pruned_blocks :: "(nat \<times> 'b \<times> 'a option) list"
  finalized_best_block_index :: "nat option"

datatype ('b, 'a) output_update =
    OutputFinalized "('b, 'a) output_finalized"
  | OutputBlock nat 'b 'a bool
  | BestBlockChanged "nat option"

text \<open>The weight of the output best block, and the loop that looks for a greater one.\<close>

definition best_weight :: "('now, 'd, 'b, 'a) async_tree \<Rightarrow> u32 option" where
  "best_weight at = (case best_block_index at of
      None \<Rightarrow> Some (finalized_block_weight at)
    | Some i \<Rightarrow> map_option input_best_block_weight (block_at at i))"

definition advance_best ::
    "(('now, 'b, 'a) block node slab \<Rightarrow> nat list) \<Rightarrow> ('now, 'd, 'b, 'a) async_tree \<Rightarrow> (bool \<times> ('now, 'd, 'b, 'a) async_tree) option" where
  "advance_best keys at =
     map_option (\<lambda>w.
       let (_, best, updated) =
         foldl (\<lambda>(w, best, updated) (i, b).
             if input_best_block_weight b \<le> w then (w, best, updated)
             else if \<not> is_reported b then (w, best, updated)
             else (input_best_block_weight b, Some i, True))
           (w, best_block_index at, False) (iter_unordered keys (non_finalized_blocks at))
       in (updated, at\<lparr>best_block_index := best\<rparr>)) (best_weight at)"

text \<open>The loop over the pruned blocks: the best block, the weight of the finalized block, the blocks pruned, and the finalized one.\<close>

definition handle_pruned ::
    "nat \<Rightarrow> nat option \<times> u32 \<times> (nat \<times> 'b \<times> 'a option) list \<times> ('now, 'b, 'a) block pruned_node option \<Rightarrow>
     ('now, 'b, 'a) block pruned_node \<Rightarrow>
     nat option \<times> u32 \<times> (nat \<times> 'b \<times> 'a option) list \<times> ('now, 'b, 'a) block pruned_node option" where
  "handle_pruned new_finalized = (\<lambda>(best, weight, pruned, fin) pn.
     let best = (if best = Some (pruned_index pn) then None else best)
     in if pruned_index pn = new_finalized
        then (best, input_best_block_weight (user_data pn), pruned, Some pn)
        else
          let op = (case async_op (user_data pn) of Finished d reported \<Rightarrow> if reported then Some d else None | _ \<Rightarrow> None)
          in (best, weight, pruned @ [(pruned_index pn, block_data (user_data pn), op)], fin))"

definition finalize_block ::
    "(('now, 'b, 'a) block node slab \<Rightarrow> nat list) \<Rightarrow> ('now, 'd, 'b, 'a) async_tree \<Rightarrow> nat \<Rightarrow>
     (('b, 'a) output_update option \<times> ('now, 'd, 'b, 'a) async_tree) option" where
  "finalize_block keys at new_finalized =
     (let at = (if input_finalized_index at = Some new_finalized then at\<lparr>input_finalized_index := None\<rparr> else at)
      in Option.bind (Fork_Tree.prune_ancestors (non_finalized_blocks at) new_finalized) (\<lambda>(t, pns).
         let (best, weight, pruned, fin) =
               foldl (handle_pruned new_finalized) (best_block_index at, finalized_block_weight at, [], None) pns;
             at = at\<lparr>non_finalized_blocks := t, best_block_index := best, finalized_block_weight := weight\<rparr>
         in Option.bind (advance_best keys at) (\<lambda>(_, at).
            Option.bind fin (\<lambda>fin.
              case async_op (user_data fin) of
                Finished d _ \<Rightarrow>
                  Some (Some (OutputFinalized
                      \<lparr>former_index = new_finalized, finalized_user_data = block_data (user_data fin),
                       finalized_async_op_user_data = d,
                       former_finalized_async_op_user_data = finalized_async_user_data at,
                       pruned_blocks = pruned, finalized_best_block_index = best_block_index at\<rparr>),
                    at\<lparr>finalized_async_user_data := d\<rparr>)
              | _ \<Rightarrow> None))))"

text \<open>The block to finalize next: the first on the way to the input finalized block, once reported.\<close>

definition new_finalized_block :: "nat \<Rightarrow> ('now, 'd, 'b, 'a) async_tree \<Rightarrow> nat option option" where
  "new_finalized_block M at = (case input_finalized_index at of
      None \<Rightarrow> Some None
    | Some fin \<Rightarrow>
        Option.bind (root_to_node_path M (nodes (non_finalized_blocks at)) fin) (\<lambda>path.
          case path of
            [] \<Rightarrow> Some None
          | i # _ \<Rightarrow> map_option (\<lambda>b. if is_reported b then Some i else None) (block_at at i)))"

definition can_report :: "('now, 'd, 'b, 'a) async_tree \<Rightarrow> nat \<Rightarrow> bool option" where
  "can_report at i =
     Option.bind (fork_tree_parent (non_finalized_blocks at) i) (\<lambda>par.
     Option.bind (case par of None \<Rightarrow> Some True | Some p \<Rightarrow> map_option is_reported (block_at at p)) (\<lambda>ok.
       if \<not> ok then Some False
       else map_option (\<lambda>b. case async_op b of Finished _ reported \<Rightarrow> \<not> reported | _ \<Rightarrow> False) (block_at at i)))"

definition report_block ::
    "('now, 'd, 'b, 'a) async_tree \<Rightarrow> nat \<Rightarrow> (('b, 'a) output_update option \<times> ('now, 'd, 'b, 'a) async_tree) option" where
  "report_block at i =
     Option.bind (block_at at i) (\<lambda>b.
       case async_op b of
         Finished d _ \<Rightarrow>
           Option.bind (set_async_op i (Finished d True) at) (\<lambda>at.
           Option.bind (best_weight at) (\<lambda>w.
             let is_new_best = (input_best_block_weight b > w);
                 at = (if is_new_best then at\<lparr>best_block_index := Some i\<rparr> else at)
             in Some (Some (OutputBlock i (block_data b) d is_new_best), at)))
       | _ \<Rightarrow> None)"

definition try_advance_output ::
    "(('now, 'b, 'a) block node slab \<Rightarrow> nat list) \<Rightarrow> nat \<Rightarrow> ('now, 'd, 'b, 'a) async_tree \<Rightarrow>
     (('b, 'a) output_update option \<times> ('now, 'd, 'b, 'a) async_tree) option" where
  "try_advance_output keys M at =
     Option.bind (new_finalized_block M at) (\<lambda>fin. case fin of
       Some i \<Rightarrow> finalize_block keys at i
     | None \<Rightarrow>
         Option.bind (find_option (can_report at) (map fst (iter_unordered keys (non_finalized_blocks at)))) (\<lambda>rep. case rep of
           Some i \<Rightarrow> report_block at i
         | None \<Rightarrow>
             Option.bind (advance_best keys at) (\<lambda>(updated, at).
               Some (if updated then Some (BestBlockChanged (best_block_index at)) else None, at))))"

end
