(* ===== verification/Async_Tree_Inv.thy ===== *)
theory Async_Tree_Inv
  imports Async_Tree
begin

text \<open>
  The invariant of the asynchronous tree: a block is reported in the output only after its parent, the
  best block of the output is a reported one, and the finalized block of the input is in the
  tree. It depends on the view of the tree that forgets everything but the links, the reported
  blocks and the two indices; every operation is shown to succeed and to keep it.
\<close>

section \<open>Changing blocks\<close>

lemma get_mut_effect:
  assumes "fork_tree_get_mut t i g = Some t'"
  shows "fork_tree_get t' = (fork_tree_get t)(i := map_option g (fork_tree_get t i))"
    and "fork_tree_parent t' = fork_tree_parent t"
  using assms by (auto simp: fork_tree_get_mut_def fork_tree_get_def fork_tree_parent_def fun_eq_iff)

lemma get_mut_some: "fork_tree_get t i = Some d \<Longrightarrow> \<exists>t'. fork_tree_get_mut t i g = Some t'"
  by (auto simp: fork_tree_get_mut_def fork_tree_get_def)

lemma get_dom: "i \<in> dom (nodes t) \<longleftrightarrow> (\<exists>d. fork_tree_get t i = Some d)"
  by (auto simp: fork_tree_get_def)

lemma parent_dom: "i \<in> dom (nodes t) \<longleftrightarrow> (\<exists>p. fork_tree_parent t i = Some p)"
  by (auto simp: fork_tree_parent_def)

lemma distinct_map_filter: "distinct (map f xs) \<Longrightarrow> distinct (map f (filter P xs))"
  by (induction xs) auto

lemma is_reported_update [simp]:
  "is_reported (b\<lparr>async_op := Finished d r\<rparr>) = r"
  "\<not> is_reported (b\<lparr>async_op := InProgress op w\<rparr>)"
  "\<not> is_reported (b\<lparr>async_op := Pending same w\<rparr>)"
  by (simp_all add: is_reported_def)

lemma has_async_op_unreported: "has_async_op op b \<Longrightarrow> \<not> is_reported b"
  and waits_for_parent_unreported: "waits_for_parent b \<Longrightarrow> \<not> is_reported b"
  by (auto simp: is_reported_def has_async_op_def waits_for_parent_def split: async_op_state.splits)

section \<open>The invariant\<close>

abbreviation tree_of :: "('now, 'd, 'b, 'a) async_tree \<Rightarrow> ('now, 'b, 'a) block fork_tree" where
  "tree_of \<equiv> non_finalized_blocks"

definition reported_set :: "('now, 'd, 'b, 'a) async_tree \<Rightarrow> nat set" where
  "reported_set at = {i. \<exists>b. block_at at i = Some b \<and> is_reported b}"

definition async_inv :: "nat \<Rightarrow> ('now, 'd, 'b, 'a) async_tree \<Rightarrow> bool" where
  "async_inv M at \<longleftrightarrow>
     fork_tree_reachable (tree_of at) \<and> M \<notin> dom (nodes (tree_of at)) \<and>
     (\<forall>i p. i \<in> reported_set at \<and> fork_tree_parent (tree_of at) i = Some (Some p) \<longrightarrow> p \<in> reported_set at) \<and>
     set_option (best_block_index at) \<subseteq> reported_set at \<and>
     set_option (input_finalized_index at) \<subseteq> dom (nodes (tree_of at))"

definition same_view :: "('now, 'd, 'b, 'a) async_tree \<Rightarrow> ('now, 'd, 'b, 'a) async_tree \<Rightarrow> bool" where
  "same_view at at' \<longleftrightarrow>
     (fork_tree_reachable (tree_of at) \<longrightarrow> fork_tree_reachable (tree_of at')) \<and>
     fork_tree_parent (tree_of at') = fork_tree_parent (tree_of at) \<and> reported_set at' = reported_set at \<and>
     best_block_index at' = best_block_index at \<and> input_finalized_index at' = input_finalized_index at"

lemma same_view_dom: "same_view at at' \<Longrightarrow> dom (nodes (tree_of at')) = dom (nodes (tree_of at))"
  by (auto simp: same_view_def parent_dom set_eq_iff)

lemma same_view_inv: "same_view at at' \<Longrightarrow> async_inv M at \<Longrightarrow> async_inv M at'"
  using same_view_dom [of at at'] by (auto simp: async_inv_def same_view_def)

lemma same_view_refl [simp]: "same_view at at"
  by (simp add: same_view_def)

lemma same_view_trans: "same_view at at1 \<Longrightarrow> same_view at1 at2 \<Longrightarrow> same_view at at2"
  by (simp add: same_view_def)

lemma get_mut_view:
  assumes "fork_tree_get_mut (tree_of at) i g = Some t'" "at' = at\<lparr>non_finalized_blocks := t'\<rparr>"
    and "\<And>b. block_at at i = Some b \<Longrightarrow> is_reported (g b) = is_reported b"
  shows "same_view at at'" "block_at at' = (block_at at)(i := map_option g (block_at at i))"
proof -
  show b: "block_at at' = (block_at at)(i := map_option g (block_at at i))"
    using get_mut_effect(1) [OF assms(1)] assms(2) by simp
  have "reported_set at' = reported_set at" using assms(3) by (auto simp: reported_set_def b)
  with get_mut_effect(2) [OF assms(1)] assms(1,2) show "same_view at at'"
    using fork_tree_reachable.get_mut [of "tree_of at" i g t'] by (auto simp: same_view_def)
qed

lemma set_async_op_view:
  assumes "block_at at i = Some b" "is_reported (b\<lparr>async_op := s\<rparr>) = is_reported b"
  shows "\<exists>at'. set_async_op i s at = Some at' \<and> same_view at at' \<and> at' = at\<lparr>non_finalized_blocks := tree_of at'\<rparr> \<and>
    block_at at' = (block_at at)(i \<mapsto> b\<lparr>async_op := s\<rparr>)"
proof -
  obtain t' where t': "fork_tree_get_mut (tree_of at) i (\<lambda>b. b\<lparr>async_op := s\<rparr>) = Some t'"
    using get_mut_some [OF assms(1)] by blast
  from get_mut_view [OF this refl] assms t' show ?thesis by (auto simp: set_async_op_def)
qed

text \<open>Giving several blocks, none of which is reported, the same unreported operation.\<close>

lemma for_each_set_async_op:
  fixes at :: "('now, 'd, 'b, 'a) async_tree"
  assumes "\<And>b :: ('now, 'b, 'a) block. \<not> is_reported (b\<lparr>async_op := s\<rparr>)"
    and "\<And>i. i \<in> set is \<Longrightarrow> \<exists>b. block_at at i = Some b \<and> \<not> is_reported b"
  shows "\<exists>at'. for_each (\<lambda>i. set_async_op i s) is at = Some at' \<and> same_view at at' \<and>
    at' = at\<lparr>non_finalized_blocks := tree_of at'\<rparr> \<and> block_at at' = (\<lambda>i. if i \<in> set is then map_option (\<lambda>b. b\<lparr>async_op := s\<rparr>) (block_at at i) else block_at at i)"
  using assms(2)
proof (induction "is" arbitrary: at)
  case (Cons i js)
  then obtain b where b: "block_at at i = Some b" "\<not> is_reported b" by auto
  then obtain at1 where at1: "set_async_op i s at = Some at1" "same_view at at1"
      "at1 = at\<lparr>non_finalized_blocks := tree_of at1\<rparr>" "block_at at1 = (block_at at)(i \<mapsto> b\<lparr>async_op := s\<rparr>)"
    using set_async_op_view [of at i b s] assms(1) by auto
  have "\<exists>b. block_at at1 j = Some b \<and> \<not> is_reported b" if "j \<in> set js" for j
    using Cons.prems [of j] that assms(1) at1(4) by (cases "j = i") auto
  from Cons.IH [OF this] obtain at2 where at2: "for_each (\<lambda>i. set_async_op i s) js at1 = Some at2" "same_view at1 at2"
      "at2 = at1\<lparr>non_finalized_blocks := tree_of at2\<rparr>" "block_at at2 = (\<lambda>j. if j \<in> set js then map_option (\<lambda>b. b\<lparr>async_op := s\<rparr>) (block_at at1 j) else block_at at1 j)"
    by blast
  have "at2 = at\<lparr>non_finalized_blocks := tree_of at2\<rparr>"
    by (subst at2(3), subst at1(3)) simp
  moreover have "block_at at2 = (\<lambda>j. if j \<in> set (i # js) then map_option (\<lambda>b. b\<lparr>async_op := s\<rparr>) (block_at at j) else block_at at j)"
    using b by (auto simp: at2(4) at1(4) fun_eq_iff)
  ultimately show ?case
    using at1(1) at2(1) same_view_trans [OF at1(2) at2(2)] by (intro exI [of _ at2]) simp
qed simp

text \<open>The guard of a loop holds when it holds at first, since a round changes only its own block.\<close>

lemma for_each_guarded:
  assumes "distinct is" "\<And>i. i \<in> set is \<Longrightarrow> \<exists>b. block_at at i = Some b \<and> Q b"
  shows "for_each (\<lambda>i at. Option.bind (block_at at i) (\<lambda>b. if Q b then set_async_op i s at else Some at)) is at =
    for_each (\<lambda>i. set_async_op i s) is at"
  using assms
proof (induction "is" arbitrary: at)
  case (Cons i js)
  then obtain b where b: "block_at at i = Some b" "Q b" by auto
  have same: "block_at at1 j = block_at at j" if "set_async_op i s at = Some at1" "j \<in> set js" for at1 j
    using that Cons.prems(1) by (auto simp: set_async_op_def dest: get_mut_effect(1))
  have "\<exists>b. block_at at1 j = Some b \<and> Q b" if "set_async_op i s at = Some at1" "j \<in> set js" for at1 j
    using same [OF that] Cons.prems(2) [of j] that(2) by simp
  with Cons.IH Cons.prems(1) b show ?case by (auto split: Option.bind_split)
qed simp

lemma async_op_finished_effect:
  assumes "slab_order keys" "async_inv M at"
  shows "\<exists>lst at'. async_op_finished keys at op d = Some (lst, at') \<and> same_view at at' \<and> distinct lst \<and>
    set lst = {i. \<exists>b. block_at at i = Some b \<and> has_async_op op b} \<and>
    block_at at' = (\<lambda>i. if i \<in> set lst then map_option (\<lambda>b. b\<lparr>async_op := Finished d False\<rparr>) (block_at at i) else block_at at i)"
proof -
  have R: "fork_tree_reachable (tree_of at)" using assms(2) by (simp add: async_inv_def)
  note iter = iter_unordered_spec [OF assms(1) R]
  define lst where "lst = map fst (filter (\<lambda>(_, b). has_async_op op b) (iter_unordered keys (tree_of at)))"
  have lst: "set lst = {i. \<exists>b. block_at at i = Some b \<and> has_async_op op b}"
    unfolding lst_def set_map set_filter iter(1) by force
  have dist: "distinct lst" unfolding lst_def by (rule distinct_map_filter [OF iter(2)])
  have "\<exists>at'. for_each (\<lambda>i. set_async_op i (Finished d False)) lst at = Some at' \<and> same_view at at' \<and>
    at' = at\<lparr>non_finalized_blocks := tree_of at'\<rparr> \<and> block_at at' = (\<lambda>i. if i \<in> set lst then map_option (\<lambda>b. b\<lparr>async_op := Finished d False\<rparr>) (block_at at i) else block_at at i)"
    by (rule for_each_set_async_op)
       (use lst in \<open>auto dest: has_async_op_unreported\<close>)
  moreover have "for_each (\<lambda>i at. Option.bind (block_at at i) (\<lambda>b.
      if has_async_op op b then set_async_op i (Finished d False) at else Some at)) lst at =
      for_each (\<lambda>i. set_async_op i (Finished d False)) lst at"
    by (rule for_each_guarded [OF dist]) (use lst in auto)
  ultimately show ?thesis using lst dist
    unfolding async_op_finished_def lst_def [symmetric] Let_def by auto
qed

lemma fail_block_view:
  assumes "fork_tree_reachable (tree_of at)" "i \<in> dom (nodes (tree_of at))"
  shows "\<exists>at'. fail_block op new_timeout i at = Some at' \<and> same_view at at'"
proof -
  obtain b where b: "block_at at i = Some b" using assms(2) get_dom [of i "tree_of at"] by blast
  obtain par where par: "fork_tree_parent (tree_of at) i = Some par" using assms(2) parent_dom [of i "tree_of at"] by blast
  have "\<exists>same. (case par of None \<Rightarrow> Some False | Some p \<Rightarrow> map_option (has_async_op op) (block_at at p)) = Some same"
  proof (cases par)
    case (Some p)
    with parent_in_tree [OF assms(1)] par get_dom [of p "tree_of at"] show ?thesis by auto
  qed auto
  then obtain same where same: "(case par of None \<Rightarrow> Some False | Some p \<Rightarrow> map_option (has_async_op op) (block_at at p)) = Some same"
    by blast
  show ?thesis
  proof (cases "has_async_op op b")
    case True
    then obtain timeout where o: "async_op b = InProgress op timeout"
      by (auto simp: has_async_op_def split: async_op_state.splits)
    with set_async_op_view [OF b, of "Pending same (case timeout of Some t \<Rightarrow> Some (min t new_timeout) | None \<Rightarrow> Some new_timeout)"]
    show ?thesis using b par same by (auto simp: fail_block_def is_reported_def [of b])
  next
    case False
    then show ?thesis using b by (auto simp: fail_block_def has_async_op_def split: async_op_state.splits)
  qed
qed

lemma async_op_failure_view:
  assumes "async_inv M at"
  shows "\<exists>at'. async_op_failure add at op now = Some at' \<and> same_view at at'"
proof -
  have R: "fork_tree_reachable (tree_of at)" using assms by (simp add: async_inv_def)
  obtain f where f: "represents (tree_of at) f" using reachable_represents [OF R] by blast
  have "\<exists>at2. fail_block op (add now (retry_after_failed at)) i at1 = Some at2 \<and> same_view at at2"
    if i: "i \<in> set (rev (map fst (preorder f)))" and v: "same_view at at1" for i at1
  proof -
    have i: "i \<in> dom (nodes (tree_of at))" using i f by (simp add: represents_def ixs_def)
    from fail_block_view [of at1 i op "add now (retry_after_failed at)"] v i same_view_dom [OF v] R
    obtain at2 where "fail_block op (add now (retry_after_failed at)) i at1 = Some at2" "same_view at1 at2"
      by (auto simp: same_view_def)
    with same_view_trans [OF v] show ?thesis by blast
  qed
  then have "\<exists>at'. for_each (fail_block op (add now (retry_after_failed at))) (rev (map fst (preorder f))) at = Some at' \<and>
      same_view at at'"
    by (intro for_each_keeps) simp_all
  with iter_ancestry_order_represents [OF f] show ?thesis by (simp add: async_op_failure_def)
qed

section \<open>Starting an operation\<close>

text \<open>
  The blocks whose operation is that of block \<open>i\<close>: the block itself and, below it, the blocks
  inserted as having the operation of their parent.
\<close>

inductive shares_async_op :: "('now, 'd, 'b, 'a) async_tree \<Rightarrow> nat \<Rightarrow> nat \<Rightarrow> bool" for at i where
  self: "shares_async_op at i i"
| child: "shares_async_op at i p \<Longrightarrow> fork_tree_parent (tree_of at) j = Some (Some p) \<Longrightarrow>
    block_at at j = Some b \<Longrightarrow> waits_for_parent b \<Longrightarrow> shares_async_op at i j"

inductive_simps shares_async_op_iff: "shares_async_op at i j"

lemma shares_op_path:
  assumes "node_to_root_path (nodes (tree_of at)) x = Some r" "\<And>j. j \<in> set r \<Longrightarrow> block_at at j \<noteq> None"
  shows "if i \<in> set r
    then all_option (\<lambda>j. map_option waits_for_parent (block_at at j)) (takeWhile (\<lambda>j. j \<noteq> i) r) = Some (shares_async_op at i x)
    else \<not> shares_async_op at i x"
  using assms
proof (induction r arbitrary: x)
  case Nil
  then show ?case by (auto elim: node_to_root_path_SomeD)
next
  case (Cons y r')
  obtain nd where nd: "nodes (tree_of at) x = Some nd" and y: "y = x"
    and up: "case parent nd of None \<Rightarrow> r' = [] | Some p \<Rightarrow> node_to_root_path (nodes (tree_of at)) p = Some r'"
    using Cons.prems(1) by (auto elim!: node_to_root_path_SomeD)
  have par: "fork_tree_parent (tree_of at) x = Some (parent nd)" using nd by (simp add: fork_tree_parent_def)
  obtain b where b: "block_at at x = Some b" using Cons.prems(2) [of x] y by auto
  show ?case
  proof (cases "x = i")
    case True
    then show ?thesis by (simp add: y shares_async_op.self)
  next
    case neq: False
    show ?thesis
    proof (cases "parent nd")
      case None
      with up neq par y show ?thesis by (auto simp: shares_async_op_iff [of at i x])
    next
      case (Some p)
      have "shares_async_op at i x \<longleftrightarrow> shares_async_op at i p \<and> waits_for_parent b"
        using neq par Some b by (auto simp: shares_async_op_iff [of at i x])
      with Cons.IH [of p] Cons.prems(2) up Some neq y b show ?thesis by auto
    qed
  qed
qed

lemma reachable_path:
  assumes "fork_tree_reachable t" "x \<in> dom (nodes t)"
  obtains p where "node_to_root_path (nodes t) x = Some (rev p)" "p \<noteq> []" "last p = x" "set p \<subseteq> dom (nodes t)"
    "\<And>a. is_ancestor (nodes t) a x = Some (a \<in> set p)"
    "\<And>M. M \<notin> dom (nodes t) \<Longrightarrow> root_to_node_path M (nodes t) x = Some p"
proof -
  obtain f where f: "represents t f" using reachable_represents [OF assms(1)] by blast
  obtain p where p: "path_to x f = Some p" "node_to_root_path (nodes t) x = Some (rev p)" "p \<noteq> []" "last p = x"
      "set p \<subseteq> dom (nodes t)"
    using represents_path [OF f assms(2)] by metis
  with that [of p] is_ancestor_represents [OF f p(1)] root_to_node_path_represents [OF f p(1)] show thesis by blast
qed

lemma shares_op_correct:
  assumes "fork_tree_reachable (tree_of at)" "j \<in> dom (nodes (tree_of at))"
  shows "shares_op at i j = Some (shares_async_op at i j)"
proof -
  obtain p where p: "node_to_root_path (nodes (tree_of at)) j = Some (rev p)" "set p \<subseteq> dom (nodes (tree_of at))"
      "\<And>a. is_ancestor (nodes (tree_of at)) a j = Some (a \<in> set p)"
    using reachable_path [OF assms] by metis
  have "block_at at k \<noteq> None" if "k \<in> set (rev p)" for k
    using that p(2) get_dom [of k "tree_of at"] by auto
  from shares_op_path [OF p(1) this, of i] p show ?thesis by (auto simp: shares_op_def)
qed

lemma shares_async_op_unreported:
  "shares_async_op at i j \<Longrightarrow> block_at at i = Some b \<Longrightarrow> \<not> is_reported b \<Longrightarrow>
     \<exists>b'. block_at at j = Some b' \<and> \<not> is_reported b'"
  by (induction rule: shares_async_op.induct) (auto dest: waits_for_parent_unreported)

text \<open>When the operation of a block is to be started, it is given to exactly the blocks that share it.\<close>

lemma start_op_effect:
  assumes "slab_order keys" "async_inv M at" "block_at at i = Some b"
    and "async_op b = Pending False timeout" "case timeout of None \<Rightarrow> True | Some t \<Rightarrow> t \<le> now"
  shows "\<exists>at'. start_necessary_async_op keys at i now = Some (ReadyInternal (next_async_op_id at) i, at') \<and>
    same_view at at' \<and> next_async_op_id at' = next_async_op_id at + 1 \<and>
    (\<forall>j. block_at at' j = (if shares_async_op at i j
       then map_option (\<lambda>b. b\<lparr>async_op := InProgress (next_async_op_id at) None\<rparr>) (block_at at j) else block_at at j))"
proof -
  define at1 where "at1 = at\<lparr>next_async_op_id := next_async_op_id at + 1\<rparr>"
  have R: "fork_tree_reachable (tree_of at)" using assms(2) by (simp add: async_inv_def)
  note iter = iter_unordered_spec [OF assms(1) R]
  have v: "same_view at at1" "tree_of at1 = tree_of at" by (simp_all add: at1_def same_view_def reported_set_def)
  have sh: "shares_op at1 i j = shares_op at i j" for j unfolding shares_op_def v(2) ..
  define js where "js = filter (shares_async_op at i) (map fst (iter_unordered keys (tree_of at)))"
  have in_dom: "shares_async_op at i j \<Longrightarrow> j \<in> dom (nodes (tree_of at)) \<and> (\<exists>b. block_at at j = Some b \<and> \<not> is_reported b)" for j
    using shares_async_op_unreported [OF _ assms(3)] assms(4) get_dom [of j "tree_of at"]
    by (simp add: is_reported_def [of b]) blast
  then have js: "set js = {j. shares_async_op at i j}" unfolding js_def set_filter iter(3) by auto
  have "filter_option (shares_op at1 i) (map fst (iter_unordered keys (tree_of at))) = Some js"
    unfolding js_def by (rule filter_option_total) (use sh shares_op_correct [OF R] iter(3) in auto)
  moreover have "\<exists>at'. for_each (\<lambda>j. set_async_op j (InProgress (next_async_op_id at) None)) js at1 = Some at' \<and> same_view at1 at' \<and>
    at' = at1\<lparr>non_finalized_blocks := tree_of at'\<rparr> \<and>
    block_at at' = (\<lambda>j. if j \<in> set js then map_option (\<lambda>b. b\<lparr>async_op := InProgress (next_async_op_id at) None\<rparr>) (block_at at1 j) else block_at at1 j)"
    by (rule for_each_set_async_op) (use in_dom js v(2) in auto)
  then obtain at' where at': "for_each (\<lambda>j. set_async_op j (InProgress (next_async_op_id at) None)) js at1 = Some at'"
    "same_view at1 at'" "at' = at1\<lparr>non_finalized_blocks := tree_of at'\<rparr>"
    "block_at at' = (\<lambda>j. if j \<in> set js then map_option (\<lambda>b. b\<lparr>async_op := InProgress (next_async_op_id at) None\<rparr>) (block_at at1 j) else block_at at1 j)"
    by blast
  ultimately have "start_necessary_async_op keys at i now = Some (ReadyInternal (next_async_op_id at) i, at')"
    using assms(3-5) by (simp add: start_necessary_async_op_def at1_def [symmetric] Let_def)
  moreover have "next_async_op_id at' = next_async_op_id at + 1" by (subst at'(3)) (simp add: at1_def)
  ultimately show ?thesis
    using at'(4) js v same_view_trans [OF v(1) at'(2)] by (intro exI [of _ at']) simp
qed

lemma start_op_view:
  assumes "slab_order keys" "async_inv M at" "i \<in> dom (nodes (tree_of at))"
  shows "\<exists>r at'. start_necessary_async_op keys at i now = Some (r, at') \<and> same_view at at' \<and>
    (\<forall>op j. r = ReadyInternal op j \<longrightarrow> j = i)"
proof -
  obtain b where b: "block_at at i = Some b" using assms(3) get_dom [of i "tree_of at"] by blast
  show ?thesis
  proof (cases "\<exists>timeout. async_op b = Pending False timeout \<and> (case timeout of None \<Rightarrow> True | Some t \<Rightarrow> t \<le> now)")
    case True
    with start_op_effect [OF assms(1,2) b, of _ now] show ?thesis by blast
  next
    case False
    then have "\<exists>w. start_necessary_async_op keys at i now = Some (NotReadyInternal w, at)"
      using b by (auto simp: start_necessary_async_op_def split: async_op_state.splits bool.splits)
    then show ?thesis by auto
  qed
qed

lemma try_start_view:
  assumes "slab_order keys" "async_inv M at" "set is \<subseteq> dom (nodes (tree_of at))"
  shows "\<exists>r at'. try_start keys now is when at = Some (r, at') \<and> same_view at at'"
  using assms(2,3)
proof (induction "is" arbitrary: "when" at)
  case (Cons i js)
  obtain r at1 where r: "start_necessary_async_op keys at i now = Some (r, at1)" "same_view at at1"
      "\<And>op j. r = ReadyInternal op j \<Longrightarrow> j = i"
    using start_op_view [OF assms(1) Cons.prems(1), of i now] Cons.prems(2) by auto
  have d: "dom (nodes (tree_of at1)) = dom (nodes (tree_of at))" by (rule same_view_dom [OF r(2)])
  show ?case
  proof (cases r)
    case (ReadyInternal op j)
    with r(3) Cons.prems(2) d have "j \<in> dom (nodes (tree_of at1))" by simp
    then obtain b where "block_at at1 j = Some b" using get_dom [of j "tree_of at1"] by blast
    with r ReadyInternal show ?thesis by simp
  next
    case (NotReadyInternal w)
    have "async_inv M at1" by (rule same_view_inv [OF r(2) Cons.prems(1)])
    from Cons.IH [OF this, of "min_when w when"] Cons.prems(2) d obtain r' at2
      where "try_start keys now js (min_when w when) at1 = Some (r', at2)" "same_view at1 at2" by auto
    with r NotReadyInternal same_view_trans [OF r(2)] show ?thesis by auto
  qed
qed simp

lemma max_by_key_in: "max_by_key f xs = Some x \<Longrightarrow> x \<in> set xs"
  unfolding max_by_key_def by (induction xs arbitrary: x rule: rev_induct) (auto split: option.splits if_splits)

lemma next_necessary_view:
  assumes "slab_order keys" "async_inv M at"
  shows "\<exists>r at'. next_necessary_async_op keys at now = Some (r, at') \<and> same_view at at'"
proof -
  have R: "fork_tree_reachable (tree_of at)" and fin: "set_option (input_finalized_index at) \<subseteq> dom (nodes (tree_of at))"
    using assms(2) by (simp_all add: async_inv_def)
  note iter = iter_unordered_spec [OF assms(1) R]
  have "i \<in> dom (nodes (tree_of at))" if "max_by_key g (iter_unordered keys (tree_of at)) = Some (i, b)" for i b
      and g :: "_ \<Rightarrow> u32"
    using max_by_key_in [OF that] iter(3) by force
  then have best: "set (case max_by_key (\<lambda>(_, b). input_best_block_weight b) (iter_unordered keys (tree_of at)) of
      Some (i, _) \<Rightarrow> [i] | None \<Rightarrow> []) \<subseteq> dom (nodes (tree_of at))"
    by (cases "max_by_key (\<lambda>(_, b). input_best_block_weight b) (iter_unordered keys (tree_of at))")
       (simp, metis (no_types, lifting) empty_set list.simps(15) case_prod_unfold option.simps(5) prod.collapse singletonD subsetI)
  show ?thesis
    unfolding next_necessary_async_op_def Let_def
    by (rule try_start_view [OF assms]) (use fin best iter(3) in \<open>cases "input_finalized_index at"; simp\<close>)
qed

end
