(* ===== verification/Async_Tree_Props.thy ===== *)
theory Async_Tree_Props
  imports Async_Tree_Inv
begin

text \<open>
  The input and output operations of the asynchronous tree keep the invariant; the output advances
  without panicking, stops, and is then in agreement with the input.
\<close>

section \<open>Input\<close>

lemma initial_async_op_unreported:
  "initial_async_op at same par = Some op \<Longrightarrow> \<not> is_reported \<lparr>block_data = bl, async_op = op, input_best_block_weight = w\<rparr>"
proof (cases "same \<and> par \<noteq> None")
  assume op: "initial_async_op at same par = Some op"
  case True
  with op obtain p pb where "block_at at p = Some pb"
      "op = (case async_op pb of InProgress op _ \<Rightarrow> InProgress op None | Finished d _ \<Rightarrow> Finished d False | Pending _ _ \<Rightarrow> Pending True None)"
    by (auto simp: initial_async_op_def)
  then show ?thesis by (cases "async_op pb") (simp_all add: is_reported_def)
next
  assume op: "initial_async_op at same par = Some op"
  case False
  with op show ?thesis by (auto simp: initial_async_op_def is_reported_def split: bool.splits option.splits)
qed

lemma insert_unreported_inv:
  assumes "async_inv M at" "nodes (tree_of at) k = None" "k \<noteq> M" "\<not> is_reported b"
    and ins: "fork_tree_insert k (tree_of at) par b = Some (t', i)"
    and at': "tree_of at' = t'" "best_block_index at' = best_block_index at"
      "input_finalized_index at' = input_finalized_index at"
  shows "async_inv M at'"
proof -
  have R: "fork_tree_reachable (tree_of at)" using assms(1) by (simp add: async_inv_def)
  have get: "block_at at' = (block_at at)(k \<mapsto> b)" and par: "fork_tree_parent t' = (fork_tree_parent (tree_of at))(k \<mapsto> par)"
    using insert_fields [OF ins] at'(1) by (simp_all add: fork_tree_get_def fork_tree_parent_def fun_eq_iff)
  have k: "k \<notin> reported_set at" using assms(2) by (simp add: reported_set_def fork_tree_get_def)
  have rep: "reported_set at' = reported_set at"
    using assms(4) k by (auto simp: reported_set_def get)
  have dom: "dom (nodes t') = insert k (dom (nodes (tree_of at)))"
    using par by (auto simp: parent_dom set_eq_iff)
  have "fork_tree_reachable t'" by (rule fork_tree_reachable.insert [OF R assms(2) ins])
  with assms(1,3) rep dom at' k par show ?thesis by (auto simp: async_inv_def)
qed

lemma insert_block_inv:
  assumes "async_inv M at" "nodes (tree_of at) k = None" "k \<noteq> M"
    and "input_insert_block k at bl par same best = Some (i, at')"
  shows "async_inv M at'"
proof -
  define at1 where "at1 = (if best then at\<lparr>input_best_block_next_weight := input_best_block_next_weight at + 1\<rparr> else at)"
  define w where "w = (if best then input_best_block_next_weight at else 0)"
  obtain op t' where op: "initial_async_op at1 same par = Some op" and at': "at' = at1\<lparr>non_finalized_blocks := t'\<rparr>"
    and ins: "fork_tree_insert k (tree_of at) par \<lparr>block_data = bl, async_op = op, input_best_block_weight = w\<rparr> = Some (t', i)"
    using assms(4) by (cases best) (auto simp: input_insert_block_def at1_def w_def bind_eq_Some_conv)
  from insert_unreported_inv [OF assms(1-3) initial_async_op_unreported [OF op] ins, of at']
  show ?thesis by (simp add: at' at1_def)
qed

lemma insert_block_succeeds:
  assumes "async_inv M at" "nodes (tree_of at) k = None" "set_option par \<subseteq> dom (nodes (tree_of at))"
  shows "\<exists>at'. input_insert_block k at bl par same best = Some (k, at')"
proof -
  have "fork_tree_reachable (tree_of at)" using assms(1) by (simp add: async_inv_def)
  then obtain f where f: "represents (tree_of at) f" using reachable_represents by blast
  have par: "p \<in> set (ixs f)" if "par = Some p" for p using that assms(3) f by (simp add: represents_def)
  have ins: "\<exists>t'. fork_tree_insert k (tree_of at) par b = Some (t', k)" for b
    using insert_root_represents [OF f assms(2), of b] insert_child_represents [OF f assms(2) par, of _ b]
    by (cases par) auto
  have "\<exists>op. initial_async_op at1 same par = Some op" if "tree_of at1 = tree_of at" for at1 :: "('a, 'b, 'c, 'd) async_tree"
    using that assms(3) get_dom [of _ "tree_of at"] by (cases par; cases same) (fastforce simp: initial_async_op_def)+
  then obtain op op' where
      "initial_async_op (at\<lparr>input_best_block_next_weight := input_best_block_next_weight at + 1\<rparr>) same par = Some op"
      "initial_async_op at same par = Some op'" by force
  with ins show ?thesis by (cases best) (auto simp: input_insert_block_def bind_eq_Some_conv; metis)+
qed

lemma update_best_weight_view:
  "update_best_weight i at = Some at' \<Longrightarrow> same_view at at'"
proof -
  assume u: "update_best_weight i at = Some at'"
  then obtain b where b: "block_at at i = Some b" by (auto simp: update_best_weight_def bind_eq_Some_conv)
  show "same_view at at'"
  proof (cases "input_best_block_weight b = input_best_block_next_weight at - 1")
    case True
    with u b show ?thesis by (simp add: update_best_weight_def)
  next
    case False
    define g :: "('a, 'c, 'd) block \<Rightarrow> ('a, 'c, 'd) block" where "g = (\<lambda>b. b\<lparr>input_best_block_weight := input_best_block_next_weight at\<rparr>)"
    obtain t where t: "fork_tree_get_mut (tree_of at) i g = Some t"
      "at' = at\<lparr>non_finalized_blocks := t, input_best_block_next_weight := input_best_block_next_weight at + 1\<rparr>"
      using u b False by (auto simp: update_best_weight_def g_def)
    have "same_view at (at\<lparr>non_finalized_blocks := t\<rparr>)"
      by (rule get_mut_view(1) [OF t(1) refl]) (simp add: g_def is_reported_def)
    then show ?thesis by (simp add: t(2) same_view_def reported_set_def)
  qed
qed

lemma set_best_block_view: "input_set_best_block at i = Some at' \<Longrightarrow> same_view at at'"
  by (auto simp: input_set_best_block_def bind_eq_Some_conv split: option.splits if_splits intro: update_best_weight_view)

lemma finalize_inv:
  assumes "async_inv M at" "input_finalize at i j = Some at'"
  shows "async_inv M at'"
proof -
  have R: "fork_tree_reachable (tree_of at)" using assms(1) by (simp add: async_inv_def)
  have anc: "is_ancestor (nodes (tree_of at)) i j = Some True"
    and u: "update_best_weight j (at\<lparr>input_finalized_index := Some i\<rparr>) = Some at'"
    using assms(2) by (auto simp: input_finalize_def bind_eq_Some_conv split: if_splits)
  then have j: "j \<in> dom (nodes (tree_of at))" by (auto simp: is_ancestor_def split: if_splits)
  obtain p where "set p \<subseteq> dom (nodes (tree_of at))" "is_ancestor (nodes (tree_of at)) i j = Some (i \<in> set p)"
    using reachable_path [OF R j] by metis
  with anc have "i \<in> dom (nodes (tree_of at))" by auto
  then have "async_inv M (at\<lparr>input_finalized_index := Some i\<rparr>)"
    using assms(1) by (simp add: async_inv_def reported_set_def)
  from same_view_inv [OF update_best_weight_view [OF u] this] show ?thesis .
qed

lemma user_data_mut_view:
  "block_user_data_mut at i f = Some at' \<Longrightarrow> same_view at at'"
  "block_async_user_data_mut at i g = Some at' \<Longrightarrow> same_view at at'"
  by (auto simp: block_user_data_mut_def block_async_user_data_mut_def is_reported_def
      split: async_op_state.splits intro!: get_mut_view(1) [OF _ refl])

section \<open>Output\<close>

lemma reported_dom: "reported_set at \<subseteq> dom (nodes (tree_of at))"
  using get_dom [of _ "tree_of at"] by (auto simp: reported_set_def)

lemma best_weight_some: "async_inv M at \<Longrightarrow> \<exists>w. best_weight at = Some w"
  by (auto simp: async_inv_def best_weight_def reported_set_def split: option.split)

text \<open>The loop over the blocks that raises the best block.\<close>

definition better :: "u32 \<times> nat option \<times> bool \<Rightarrow> nat \<times> ('now, 'b, 'a) block \<Rightarrow> u32 \<times> nat option \<times> bool" where
  "better = (\<lambda>(w, best, updated) (i, b).
     if input_best_block_weight b \<le> w then (w, best, updated)
     else if \<not> is_reported b then (w, best, updated)
     else (input_best_block_weight b, Some i, True))"

lemma better_fold:
  "foldl better (w, best, u) l = (w', best', u') \<Longrightarrow>
     (\<forall>i b. (i, b) \<in> set l \<and> is_reported b \<longrightarrow> input_best_block_weight b \<le> w') \<and>
     (w' = w \<and> best' = best \<and> u' = u \<or>
      w < w' \<and> u' \<and> (\<exists>i b. (i, b) \<in> set l \<and> best' = Some i \<and> is_reported b \<and> input_best_block_weight b = w'))"
proof (induction l arbitrary: w best u)
  case (Cons x l)
  obtain i b where x: "x = (i, b)" by fastforce
  show ?case
  proof (cases "input_best_block_weight b \<le> w \<or> \<not> is_reported b")
    case True
    then have "foldl better (w, best, u) l = (w', best', u')" using Cons.prems x by (auto simp: better_def split: if_splits)
    from Cons.IH [OF this] True x show ?thesis by fastforce
  next
    case False
    then have "foldl better (input_best_block_weight b, Some i, True) l = (w', best', u')"
      using Cons.prems x by (simp add: better_def)
    from Cons.IH [OF this] False x show ?thesis by fastforce
  qed
qed simp

lemma advance_best_spec:
  assumes "slab_order keys" "fork_tree_reachable (tree_of at)" "best_weight at = Some w"
  shows "\<exists>u best w'. advance_best keys at = Some (u, at\<lparr>best_block_index := best\<rparr>) \<and>
    (\<forall>i b. block_at at i = Some b \<and> is_reported b \<longrightarrow> input_best_block_weight b \<le> w') \<and>
    (\<not> u \<and> best = best_block_index at \<and> w' = w \<or>
     u \<and> w < w' \<and> (\<exists>i b. best = Some i \<and> block_at at i = Some b \<and> is_reported b \<and> input_best_block_weight b = w'))"
proof -
  obtain w' best u where f: "foldl better (w, best_block_index at, False) (iter_unordered keys (tree_of at)) = (w', best, u)"
    by (metis prod_cases3)
  then have "advance_best keys at = Some (u, at\<lparr>best_block_index := best\<rparr>)"
    using assms(3) by (simp add: advance_best_def better_def [symmetric])
  with better_fold [OF f] show ?thesis unfolding iter_unordered_spec(1) [OF assms(1,2)]
    by (intro exI [of _ u] exI [of _ best] exI [of _ w']) auto
qed

text \<open>The loop over the pruned blocks.\<close>

definition pruned_entry :: "('now, 'b, 'a) block pruned_node \<Rightarrow> nat \<times> 'b \<times> 'a option" where
  "pruned_entry pn = (pruned_index pn, block_data (user_data pn),
     case async_op (user_data pn) of Finished d reported \<Rightarrow> if reported then Some d else None | _ \<Rightarrow> None)"

lemma handle_pruned_fold:
  "foldl (handle_pruned x) (best, w, pr, fin) pns =
     (if best \<in> Some ` pruned_index ` set pns then None else best,
      case rev (filter (\<lambda>pn. pruned_index pn = x) pns) of [] \<Rightarrow> w | pn # _ \<Rightarrow> input_best_block_weight (user_data pn),
      pr @ map pruned_entry (filter (\<lambda>pn. pruned_index pn \<noteq> x) pns),
      case rev (filter (\<lambda>pn. pruned_index pn = x) pns) of [] \<Rightarrow> fin | pn # _ \<Rightarrow> Some pn)"
  by (induction pns rule: rev_induct) (auto simp: handle_pruned_def Let_def pruned_entry_def)

lemma prune_inv:
  assumes inv: "async_inv M at" and x: "x \<in> dom (nodes (tree_of at))"
    and pr: "prune_ancestors (tree_of at) x = Some (t', pns)"
    and get: "\<And>n. fork_tree_get t' n \<in> {None, block_at at n}"
    and at': "tree_of at' = t'" "set_option (best_block_index at') \<subseteq> reported_set at'"
      "set_option (input_finalized_index at') \<subseteq> dom (nodes t')"
  shows "async_inv M at'"
proof -
  have R: "fork_tree_reachable (tree_of at)" using inv by (simp add: async_inv_def)
  have R': "fork_tree_reachable t'" by (rule fork_tree_reachable.prune_ancestors [OF R x pr])
  have kept: "j \<in> reported_set at \<and> block_at at' j = block_at at j" if "j \<in> reported_set at'" for j
    using that get [of j] by (auto simp: reported_set_def at'(1))
  have "p \<in> reported_set at'" if j: "j \<in> reported_set at'" and p: "fork_tree_parent t' j = Some (Some p)" for j p
  proof -
    have "p \<in> reported_set at" using prune_ancestors_parent [OF R x pr p] kept [OF j] inv by (auto simp: async_inv_def)
    moreover have "block_at at' p = block_at at p"
      using parent_in_tree [OF R' p] get_dom [of p t'] get [of p] at'(1) by auto
    ultimately show ?thesis by (simp add: reported_set_def)
  qed
  moreover have "M \<notin> dom (nodes t')"
    using inv get [of M] get_dom [of M t'] get_dom [of M "tree_of at"] by (auto simp: async_inv_def)
  ultimately show ?thesis using R' at' by (auto simp: async_inv_def)
qed

lemma distinct_filter_key: "distinct (map f xs) \<Longrightarrow> x \<in> set xs \<Longrightarrow> filter (\<lambda>y. f y = f x) xs = [x]"
  by (induction xs) (auto simp: filter_empty_conv image_iff)

lemma finalize_prune:
  assumes "async_inv M at" and b: "block_at at i = Some b"
  obtains t' pns pn where "prune_ancestors (tree_of at) i = Some (t', pns)" "fork_tree_reachable t'"
    "\<And>n. fork_tree_get t' n = (if n \<noteq> i \<and> is_ancestor (nodes (tree_of at)) i n = Some True then block_at at n else None)"
    "rev (filter (\<lambda>pn. pruned_index pn = i) pns) = [pn]" "user_data pn = b"
    "\<And>j. j \<in> dom (nodes (tree_of at)) \<Longrightarrow> j \<notin> pruned_index ` set pns \<Longrightarrow> fork_tree_get t' j = block_at at j"
proof -
  have R: "fork_tree_reachable (tree_of at)" using assms(1) by (simp add: async_inv_def)
  have i: "i \<in> dom (nodes (tree_of at))" using b get_dom [of i "tree_of at"] by blast
  obtain t' pns where pr: "prune_ancestors (tree_of at) i = Some (t', pns)"
    and get: "\<And>n. fork_tree_get t' n = (if n \<noteq> i \<and> is_ancestor (nodes (tree_of at)) i n = Some True then block_at at n else None)"
    and pns: "distinct (map pruned_index pns)" "set (map entry pns) = {(n, d). block_at at n = Some d \<and> fork_tree_get t' n = None}"
    using prune_ancestors_effect [OF R i] by blast
  have "(i, b) \<in> set (map entry pns)" unfolding pns(2) using b get [of i] by simp
  then obtain pn where pn: "pn \<in> set pns" "pruned_index pn = i" "user_data pn = b" by (auto simp: entry_def)
  from distinct_filter_key [OF pns(1) pn(1)] pn(2) have only: "rev (filter (\<lambda>pn. pruned_index pn = i) pns) = [pn]" by simp
  have "fork_tree_get t' j = block_at at j" if "j \<in> dom (nodes (tree_of at))" "j \<notin> pruned_index ` set pns" for j
  proof -
    have "(j, d) \<notin> set (map entry pns)" for d using that(2) by (auto simp: entry_def)
    with that(1) get_dom [of j "tree_of at"] have "fork_tree_get t' j \<noteq> None" unfolding pns(2) by auto
    then show ?thesis using get [of j] by (auto split: if_splits)
  qed
  with that [OF pr fork_tree_reachable.prune_ancestors [OF R i pr] get only pn(3)] show thesis by blast
qed

text \<open>The state once the pruned blocks have been handled, before the best block is raised.\<close>

lemma finalize_pruned_inv:
  assumes inv: "async_inv M at" "input_finalized_index at = Some fin"
    and path: "root_to_node_path M (nodes (tree_of at)) fin = Some (i # p)" and b: "block_at at i = Some b"
    and pr: "prune_ancestors (tree_of at) i = Some (t', pns)"
    and get: "\<And>n. fork_tree_get t' n = (if n \<noteq> i \<and> is_ancestor (nodes (tree_of at)) i n = Some True then block_at at n else None)"
    and gone: "\<And>j. j \<in> dom (nodes (tree_of at)) \<Longrightarrow> j \<notin> pruned_index ` set pns \<Longrightarrow> fork_tree_get t' j = block_at at j"
    and at': "tree_of at' = t'" "input_finalized_index at' = (if fin = i then None else Some fin)"
      "best_block_index at' = (if best_block_index at \<in> Some ` pruned_index ` set pns then None else best_block_index at)"
  shows "async_inv M at'"
proof (rule prune_inv [OF inv(1) _ pr _ at'(1)])
  have R: "fork_tree_reachable (tree_of at)" and M: "M \<notin> dom (nodes (tree_of at))" and f: "fin \<in> dom (nodes (tree_of at))"
    and best: "set_option (best_block_index at) \<subseteq> reported_set at"
    using inv by (simp_all add: async_inv_def)
  show "i \<in> dom (nodes (tree_of at))" using b get_dom [of i "tree_of at"] by blast
  show "fork_tree_get t' n \<in> {None, block_at at n}" for n using get [of n] by simp
  show "set_option (best_block_index at') \<subseteq> reported_set at'"
  proof
    fix j assume "j \<in> set_option (best_block_index at')"
    then have "best_block_index at = Some j" and j: "j \<notin> pruned_index ` set pns" by (auto simp: at'(3) split: if_splits)
    with best have r: "j \<in> reported_set at" by simp
    with gone [OF _ j] reported_dom [of at] have "fork_tree_get t' j = block_at at j" by blast
    with r show "j \<in> reported_set at'" by (simp add: reported_set_def at'(1))
  qed
  obtain q where "is_ancestor (nodes (tree_of at)) i fin = Some (i \<in> set q)" "root_to_node_path M (nodes (tree_of at)) fin = Some q"
    using reachable_path [OF R f] M by metis
  then have "is_ancestor (nodes (tree_of at)) i fin = Some True" using path by auto
  then have "fork_tree_get t' fin = block_at at fin" if "fin \<noteq> i" using get [of fin] that by simp
  then show "set_option (input_finalized_index at') \<subseteq> dom (nodes t')"
    using f get_dom [of fin t'] get_dom [of fin "tree_of at"] by (auto simp: at'(2))
qed

lemma advance_best_inv:
  assumes "slab_order keys" "async_inv M at"
  shows "\<exists>u best w w'. advance_best keys at = Some (u, at\<lparr>best_block_index := best\<rparr>) \<and> async_inv M (at\<lparr>best_block_index := best\<rparr>) \<and>
    best_weight at = Some w \<and> best_weight (at\<lparr>best_block_index := best\<rparr>) = Some w' \<and> (if u then w < w' else best = best_block_index at) \<and>
    (\<forall>i\<in>reported_set at. \<forall>b. block_at at i = Some b \<longrightarrow> input_best_block_weight b \<le> w')"
proof -
  have R: "fork_tree_reachable (tree_of at)" using assms(2) by (simp add: async_inv_def)
  obtain w where w: "best_weight at = Some w" using best_weight_some [OF assms(2)] by blast
  obtain u best w' where u: "advance_best keys at = Some (u, at\<lparr>best_block_index := best\<rparr>)"
    and max: "\<And>i b. block_at at i = Some b \<Longrightarrow> is_reported b \<Longrightarrow> input_best_block_weight b \<le> w'"
    and c: "\<not> u \<and> best = best_block_index at \<and> w' = w \<or>
      u \<and> w < w' \<and> (\<exists>i b. best = Some i \<and> block_at at i = Some b \<and> is_reported b \<and> input_best_block_weight b = w')"
    using advance_best_spec [OF assms(1) R w] by blast
  have max: "\<forall>i\<in>reported_set at. \<forall>b. block_at at i = Some b \<longrightarrow> input_best_block_weight b \<le> w'"
    using max by (auto simp: reported_set_def)
  show ?thesis
  proof (cases u)
    case False
    then have "best = best_block_index at" "w' = w" using c by simp_all
    with u w max assms(2) False show ?thesis by (intro exI [of _ u] exI [of _ best] exI [of _ w]) simp
  next
    case True
    then obtain i b where best: "w < w'" "best = Some i" "block_at at i = Some b" "is_reported b" "input_best_block_weight b = w'"
      using c by blast
    have "async_inv M (at\<lparr>best_block_index := best\<rparr>)"
      using assms(2) best by (simp add: async_inv_def reported_set_def)
    moreover have "best_weight (at\<lparr>best_block_index := best\<rparr>) = Some w'" using best by (simp add: best_weight_def)
    ultimately show ?thesis using u w max best(1) True by (intro exI [of _ u] exI [of _ best] exI [of _ w] exI [of _ w']) simp
  qed
qed

lemma shrinks:
  assumes "\<And>n. fork_tree_get t' n \<in> {None, fork_tree_get t n}" "fork_tree_get t' i = None" "fork_tree_get t i = Some b"
  shows "dom (nodes t') \<subset> dom (nodes t)"
proof
  show "dom (nodes t') \<subseteq> dom (nodes t)"
    using assms(1) get_dom [of _ t'] get_dom [of _ t] by (metis insertE option.distinct(1) singletonD subsetI)
  show "dom (nodes t') \<noteq> dom (nodes t)"
    using assms(2,3) get_dom [of i t'] get_dom [of i t] by auto
qed

lemma finalize_block_spec:
  assumes "slab_order keys" "async_inv M at" "input_finalized_index at = Some fin"
    and path: "root_to_node_path M (nodes (tree_of at)) fin = Some (i # p)" and b: "block_at at i = Some b" "is_reported b"
  shows "\<exists>out at'. finalize_block keys at i = Some (Some (OutputFinalized out), at') \<and> async_inv M at' \<and> former_index out = i \<and>
    (\<forall>n. block_at at' n = (if n \<noteq> i \<and> is_ancestor (nodes (tree_of at)) i n = Some True then block_at at n else None)) \<and>
    dom (nodes (tree_of at')) \<subset> dom (nodes (tree_of at))"
proof -
  obtain d where d: "async_op b = Finished d True" using b(2) by (auto simp: is_reported_def split: async_op_state.splits)
  obtain t' pns pn where pr: "prune_ancestors (tree_of at) i = Some (t', pns)"
    and get: "\<And>n. fork_tree_get t' n = (if n \<noteq> i \<and> is_ancestor (nodes (tree_of at)) i n = Some True then block_at at n else None)"
    and pn: "rev (filter (\<lambda>pn. pruned_index pn = i) pns) = [pn]" "user_data pn = b"
    and gone: "\<And>j. j \<in> dom (nodes (tree_of at)) \<Longrightarrow> j \<notin> pruned_index ` set pns \<Longrightarrow> fork_tree_get t' j = block_at at j"
    using finalize_prune [OF assms(2) b(1)] by blast
  define at1 where "at1 = (if fin = i then at\<lparr>input_finalized_index := None\<rparr> else at)"
  define best0 where "best0 = (if best_block_index at \<in> Some ` pruned_index ` set pns then None else best_block_index at)"
  define at2 where "at2 = at1\<lparr>non_finalized_blocks := t', best_block_index := best0,
    finalized_block_weight := input_best_block_weight b\<rparr>"
  have inv2: "async_inv M at2"
    by (rule finalize_pruned_inv [OF assms(2,3) path b(1) pr get gone]) (simp_all add: at2_def at1_def best0_def assms(3))
  from advance_best_inv [OF assms(1) this] obtain u best where adv: "advance_best keys at2 = Some (u, at2\<lparr>best_block_index := best\<rparr>)"
    and inv3: "async_inv M (at2\<lparr>best_block_index := best\<rparr>)" by blast
  define out where "out = \<lparr>former_index = i, finalized_user_data = block_data b, finalized_async_op_user_data = d,
    former_finalized_async_op_user_data = finalized_async_user_data at,
    pruned_blocks = map pruned_entry (filter (\<lambda>pn. pruned_index pn \<noteq> i) pns), finalized_best_block_index = best\<rparr>"
  define at4 where "at4 = at2\<lparr>best_block_index := best, finalized_async_user_data := d\<rparr>"
  have "finalize_block keys at i = Some (Some (OutputFinalized out), at4)"
    using pr adv pn d assms(3)
    by (cases "fin = i"; cases "best_block_index at \<in> Some ` pruned_index ` set pns")
       (simp_all add: finalize_block_def Let_def handle_pruned_fold best0_def at1_def at2_def out_def at4_def)
  moreover have "async_inv M at4" using inv3 by (simp add: at4_def async_inv_def reported_set_def)
  moreover have "block_at at4 n = fork_tree_get t' n" for n by (simp add: at4_def at2_def)
  moreover have "dom (nodes t') \<subset> dom (nodes (tree_of at))"
    by (rule shrinks [OF _ _ b(1)]) (use get in auto)
  ultimately show ?thesis using get by (intro exI [of _ out] exI [of _ at4]) (simp add: out_def at4_def at2_def)
qed

text \<open>A block can be reported once its operation is finished and its parent is reported.\<close>

definition reportable :: "('now, 'd, 'b, 'a) async_tree \<Rightarrow> nat \<Rightarrow> bool" where
  "reportable at i \<longleftrightarrow> (\<exists>b d. block_at at i = Some b \<and> async_op b = Finished d False) \<and>
     (\<forall>p. fork_tree_parent (tree_of at) i = Some (Some p) \<longrightarrow> p \<in> reported_set at)"

lemma can_report_correct:
  assumes "async_inv M at" "i \<in> dom (nodes (tree_of at))"
  shows "can_report at i = Some (reportable at i)"
proof -
  have R: "fork_tree_reachable (tree_of at)" using assms(1) by (simp add: async_inv_def)
  obtain b where b: "block_at at i = Some b" using assms(2) get_dom [of i "tree_of at"] by blast
  obtain par where par: "fork_tree_parent (tree_of at) i = Some par" using assms(2) parent_dom [of i "tree_of at"] by blast
  have "(case par of None \<Rightarrow> Some True | Some p \<Rightarrow> map_option is_reported (block_at at p)) =
      Some (\<forall>p. par = Some p \<longrightarrow> p \<in> reported_set at)"
  proof (cases par)
    case (Some p)
    then obtain pb where "block_at at p = Some pb"
      using parent_in_tree [OF R] par get_dom [of p "tree_of at"] by blast
    with Some show ?thesis by (simp add: reported_set_def)
  qed simp
  with b par show ?thesis by (simp add: can_report_def reportable_def split: async_op_state.split)
qed

lemma report_block_spec:
  assumes "async_inv M at" "reportable at i"
  shows "\<exists>d a best at'. report_block at i = Some (Some (OutputBlock i d a best), at') \<and> async_inv M at' \<and>
    dom (nodes (tree_of at')) = dom (nodes (tree_of at)) \<and> reported_set at' = insert i (reported_set at) \<and> i \<notin> reported_set at"
proof -
  obtain b d where b: "block_at at i = Some b" "async_op b = Finished d False" using assms(2) by (auto simp: reportable_def)
  obtain t' where t': "fork_tree_get_mut (tree_of at) i (\<lambda>b. b\<lparr>async_op := Finished d True\<rparr>) = Some t'"
    using get_mut_some [OF b(1)] by blast
  define at1 where "at1 = at\<lparr>non_finalized_blocks := t'\<rparr>"
  have get: "block_at at1 = (block_at at)(i \<mapsto> b\<lparr>async_op := Finished d True\<rparr>)"
    and par: "fork_tree_parent (tree_of at1) = fork_tree_parent (tree_of at)"
    using get_mut_effect [OF t'] b(1) by (simp_all add: at1_def)
  have rep: "reported_set at1 = insert i (reported_set at)" by (auto simp: reported_set_def get)
  have dom: "dom (nodes (tree_of at1)) = dom (nodes (tree_of at))" using par by (auto simp: parent_dom set_eq_iff)
  have "fork_tree_reachable (tree_of at1)"
    using assms(1) fork_tree_reachable.get_mut [OF _ t'] by (simp add: at1_def async_inv_def)
  then have inv1: "async_inv M at1"
    using assms rep dom par by (auto simp: async_inv_def reportable_def at1_def)
  then obtain w where w: "best_weight at1 = Some w" using best_weight_some by blast
  define at2 where "at2 = (if input_best_block_weight b > w then at1\<lparr>best_block_index := Some i\<rparr> else at1)"
  have "report_block at i = Some (Some (OutputBlock i (block_data b) d (input_best_block_weight b > w)), at2)"
    using b t' w by (simp add: report_block_def set_async_op_def at1_def [symmetric] at2_def Let_def)
  moreover have "async_inv M at2" using inv1 rep by (simp add: at2_def async_inv_def reported_set_def)
  moreover have "reported_set at2 = reported_set at1" "tree_of at2 = tree_of at1"
    by (simp_all add: at2_def reported_set_def)
  moreover have "i \<notin> reported_set at" using b by (simp add: reported_set_def is_reported_def)
  ultimately show ?thesis using rep dom by (intro exI [of _ "block_data b"] exI [of _ d] exI [of _ "input_best_block_weight b > w"] exI [of _ at2]) simp
qed

text \<open>The output agrees with the input, as far as the finished operations allow.\<close>

definition output_in_sync :: "nat \<Rightarrow> ('now, 'd, 'b, 'a) async_tree \<Rightarrow> bool" where
  "output_in_sync M at \<longleftrightarrow>
     (\<forall>fin i p. input_finalized_index at = Some fin \<and> root_to_node_path M (nodes (tree_of at)) fin = Some (i # p) \<longrightarrow>
        i \<notin> reported_set at) \<and>
     (\<forall>i. \<not> reportable at i) \<and>
     (\<exists>w. best_weight at = Some w \<and>
       (\<forall>i\<in>reported_set at. \<forall>b. block_at at i = Some b \<longrightarrow> input_best_block_weight b \<le> w))"

lemma new_finalized_block_correct:
  assumes "async_inv M at"
  shows "\<exists>r. new_finalized_block M at = Some r \<and>
    (case r of
       Some i \<Rightarrow> (\<exists>fin p b. input_finalized_index at = Some fin \<and>
         root_to_node_path M (nodes (tree_of at)) fin = Some (i # p) \<and> block_at at i = Some b \<and> is_reported b)
     | None \<Rightarrow> (\<forall>fin i p. input_finalized_index at = Some fin \<and>
         root_to_node_path M (nodes (tree_of at)) fin = Some (i # p) \<longrightarrow> i \<notin> reported_set at))"
proof (cases "input_finalized_index at")
  case None
  then show ?thesis by (simp add: new_finalized_block_def)
next
  case (Some fin)
  have R: "fork_tree_reachable (tree_of at)" and M: "M \<notin> dom (nodes (tree_of at))" and f: "fin \<in> dom (nodes (tree_of at))"
    using assms Some by (simp_all add: async_inv_def)
  obtain q where q: "root_to_node_path M (nodes (tree_of at)) fin = Some q" "q \<noteq> []" "set q \<subseteq> dom (nodes (tree_of at))"
    using reachable_path [OF R f] M by metis
  then obtain i p where p: "q = i # p" by (cases q) auto
  obtain b where b: "block_at at i = Some b" using q(3) p get_dom [of i "tree_of at"] by auto
  show ?thesis
    using Some q(1) p b by (cases "is_reported b") (simp_all add: new_finalized_block_def reported_set_def)
qed

lemma try_advance_output_spec:
  assumes "slab_order keys" "async_inv M at"
  shows "\<exists>u at'. try_advance_output keys M at = Some (u, at') \<and> async_inv M at' \<and>
    (case u of
       None \<Rightarrow> at' = at \<and> output_in_sync M at
     | Some (OutputFinalized out) \<Rightarrow> dom (nodes (tree_of at')) \<subset> dom (nodes (tree_of at))
     | Some (OutputBlock i d a best) \<Rightarrow> dom (nodes (tree_of at')) = dom (nodes (tree_of at)) \<and>
         reported_set at' = insert i (reported_set at) \<and> i \<notin> reported_set at
     | Some (BestBlockChanged best) \<Rightarrow> tree_of at' = tree_of at \<and> best = best_block_index at' \<and>
         (\<exists>w w'. best_weight at = Some w \<and> best_weight at' = Some w' \<and> w < w'))"
proof -
  have R: "fork_tree_reachable (tree_of at)" using assms(2) by (simp add: async_inv_def)
  note iter = iter_unordered_spec [OF assms(1) R]
  have find: "find_option (can_report at) (map fst (iter_unordered keys (tree_of at))) =
      Some (List.find (reportable at) (map fst (iter_unordered keys (tree_of at))))"
    by (rule find_option_total) (use can_report_correct [OF assms(2)] iter(3) in blast)
  obtain r where r: "new_finalized_block M at = Some r" and
    c: "case r of
       Some i \<Rightarrow> (\<exists>fin p b. input_finalized_index at = Some fin \<and>
         root_to_node_path M (nodes (tree_of at)) fin = Some (i # p) \<and> block_at at i = Some b \<and> is_reported b)
     | None \<Rightarrow> (\<forall>fin i p. input_finalized_index at = Some fin \<and>
         root_to_node_path M (nodes (tree_of at)) fin = Some (i # p) \<longrightarrow> i \<notin> reported_set at)"
    using new_finalized_block_correct [OF assms(2)] by blast
  show ?thesis
  proof (cases r)
    case (Some i)
    with c obtain fin p b where "input_finalized_index at = Some fin"
      "root_to_node_path M (nodes (tree_of at)) fin = Some (i # p)" "block_at at i = Some b" "is_reported b" by auto
    from finalize_block_spec [OF assms this] obtain out at' where
      fin: "finalize_block keys at i = Some (Some (OutputFinalized out), at')" "async_inv M at'"
        "dom (nodes (tree_of at')) \<subset> dom (nodes (tree_of at))" by blast
    with fin r Some show ?thesis by (simp add: try_advance_output_def)
  next
    case no_fin: None
    show ?thesis
    proof (cases "List.find (reportable at) (map fst (iter_unordered keys (tree_of at)))")
      case (Some i)
      then have "reportable at i" by (auto simp: find_Some_iff)
      from report_block_spec [OF assms(2) this] obtain d a best at' where
        "report_block at i = Some (Some (OutputBlock i d a best), at')" "async_inv M at'"
        "dom (nodes (tree_of at')) = dom (nodes (tree_of at))" "reported_set at' = insert i (reported_set at)" "i \<notin> reported_set at"
        by blast
      with r no_fin find Some show ?thesis by (simp add: try_advance_output_def)
    next
      case None
      then have "\<not> reportable at i" if "i \<in> dom (nodes (tree_of at))" for i
        using that unfolding find_None_iff iter(3) [symmetric] by blast
      then have none: "\<not> reportable at i" for i
        using get_dom [of i "tree_of at"] by (auto simp: reportable_def)
      obtain u best w w' where adv: "advance_best keys at = Some (u, at\<lparr>best_block_index := best\<rparr>)"
          "async_inv M (at\<lparr>best_block_index := best\<rparr>)" "best_weight at = Some w" "best_weight (at\<lparr>best_block_index := best\<rparr>) = Some w'"
        and u: "if u then w < w' else best = best_block_index at"
        and max: "\<forall>i\<in>reported_set at. \<forall>b. block_at at i = Some b \<longrightarrow> input_best_block_weight b \<le> w'"
        using advance_best_inv [OF assms] by blast
      have "output_in_sync M at" if "\<not> u"
        unfolding output_in_sync_def using that u none c no_fin max adv by simp
      with r no_fin find None adv u show ?thesis by (cases u) (simp_all add: try_advance_output_def)
    qed
  qed
qed

section \<open>Reachable trees\<close>

inductive async_reachable ::
    "(('now, 'b, 'a) block node slab \<Rightarrow> nat list) \<Rightarrow> ('now::linorder \<Rightarrow> 'd \<Rightarrow> 'now) \<Rightarrow> nat \<Rightarrow> ('now, 'd, 'b, 'a) async_tree \<Rightarrow> bool"
  for keys add M where
  new: "async_reachable keys add M (async_tree_new fin retry)"
| insert_block: "async_reachable keys add M at \<Longrightarrow> nodes (tree_of at) k = None \<Longrightarrow> k \<noteq> M \<Longrightarrow>
    input_insert_block k at bl par same best = Some (i, at') \<Longrightarrow> async_reachable keys add M at'"
| set_best_block: "async_reachable keys add M at \<Longrightarrow> input_set_best_block at i = Some at' \<Longrightarrow> async_reachable keys add M at'"
| finalize: "async_reachable keys add M at \<Longrightarrow> input_finalize at i j = Some at' \<Longrightarrow> async_reachable keys add M at'"
| next_op: "async_reachable keys add M at \<Longrightarrow> next_necessary_async_op keys at now = Some (r, at') \<Longrightarrow> async_reachable keys add M at'"
| op_finished: "async_reachable keys add M at \<Longrightarrow> async_op_finished keys at op d = Some (lst, at') \<Longrightarrow> async_reachable keys add M at'"
| op_failure: "async_reachable keys add M at \<Longrightarrow> async_op_failure add at op now = Some at' \<Longrightarrow> async_reachable keys add M at'"
| user_data: "async_reachable keys add M at \<Longrightarrow> block_user_data_mut at i f = Some at' \<Longrightarrow> async_reachable keys add M at'"
| async_user_data: "async_reachable keys add M at \<Longrightarrow> block_async_user_data_mut at i g = Some at' \<Longrightarrow> async_reachable keys add M at'"
| advance: "async_reachable keys add M at \<Longrightarrow> try_advance_output keys M at = Some (u, at') \<Longrightarrow> async_reachable keys add M at'"

lemma async_inv_new: "async_inv M (async_tree_new fin retry)"
  by (simp add: async_inv_def async_tree_new_def reported_set_def fork_tree_get_def fork_tree_reachable.new)
     (simp add: fork_tree_new_def)

lemma async_reachable_inv:
  assumes "slab_order keys" "async_reachable keys add M at"
  shows "async_inv M at"
  using assms(2)
proof induction
  case (new fin retry)
  show ?case by (rule async_inv_new)
next
  case (insert_block at k bl par same best i at')
  show ?case by (rule insert_block_inv [OF insert_block.IH insert_block.hyps(2-4)])
next
  case (set_best_block at i at')
  show ?case by (rule same_view_inv [OF set_best_block_view [OF set_best_block.hyps(2)] set_best_block.IH])
next
  case (finalize at i j at')
  show ?case by (rule finalize_inv [OF finalize.IH finalize.hyps(2)])
next
  case (next_op at now r at')
  from next_necessary_view [OF assms(1) next_op.IH, of now] next_op.hyps(2) have "same_view at at'" by auto
  then show ?case using next_op.IH by (rule same_view_inv)
next
  case (op_finished at op d lst at')
  from async_op_finished_effect [OF assms(1) op_finished.IH, of op d] op_finished.hyps(2) have "same_view at at'" by auto
  then show ?case using op_finished.IH by (rule same_view_inv)
next
  case (op_failure at op now at')
  from async_op_failure_view [OF op_failure.IH, of add op now] op_failure.hyps(2) have "same_view at at'" by auto
  then show ?case using op_failure.IH by (rule same_view_inv)
next
  case (user_data at i f at')
  show ?case by (rule same_view_inv [OF user_data_mut_view(1) [OF user_data.hyps(2)] user_data.IH])
next
  case (async_user_data at i g at')
  show ?case by (rule same_view_inv [OF user_data_mut_view(2) [OF async_user_data.hyps(2)] async_user_data.IH])
next
  case (advance at u at')
  from try_advance_output_spec [OF assms(1) advance.IH] advance.hyps(2) show ?case by auto
qed





section \<open>A sample\<close>

text \<open>A block with the operation of the finalized block, and a block below it with its own.\<close>

definition sample_async1 :: "(nat, nat, string, string) async_tree" where
  "sample_async1 = snd (the (input_insert_block 0 (async_tree_new ''f'' 5) ''a'' None True True))"

definition sample_async :: "(nat, nat, string, string) async_tree" where
  "sample_async = snd (the (input_insert_block 1 sample_async1 ''b'' (Some 0) False True))"

lemma sample_async_block:
  "nodes (tree_of sample_async1) 1 = None" "block_at sample_async 1 = Some \<lparr>block_data = ''b'', async_op = Pending False None, input_best_block_weight = 3\<rparr>"
  "input_insert_block 0 (async_tree_new ''f'' 5) ''a'' None True True = Some (0, sample_async1)"
  "input_insert_block 1 sample_async1 ''b'' (Some 0) False True = Some (1, sample_async)"
  by (simp_all add: sample_async_def sample_async1_def input_insert_block_def initial_async_op_def fork_tree_insert_def async_tree_new_def
      fork_tree_new_def slab_modify_def fork_tree_get_def)

lemma sample_async_reachable: "async_reachable key_order (+) 7 sample_async"
proof -
  have "async_reachable key_order (+) 7 sample_async1"
    by (rule async_reachable.insert_block [OF async_reachable.new _ _ sample_async_block(3)])
       (simp_all add: async_tree_new_def fork_tree_new_def)
  from async_reachable.insert_block [OF this sample_async_block(1) _ sample_async_block(4)] show ?thesis by simp
qed

section \<open>Properties\<close>





text \<open>
  C35: starting the operation of a block whose time has come takes a fresh identifier and gives it to
  the block and to exactly the blocks below it that wait for the same operation.
\<close>

theorem async_op_shared_below:
  assumes "slab_order keys" "async_reachable keys add M at" "block_at at i = Some b"
    and "async_op b = Pending False timeout" "case timeout of None \<Rightarrow> True | Some t \<Rightarrow> t \<le> now"
  shows "\<exists>at'. start_necessary_async_op keys at i now = Some (ReadyInternal (next_async_op_id at) i, at') \<and>
    next_async_op_id at' = next_async_op_id at + 1 \<and>
    (\<forall>j. block_at at' j = (if shares_async_op at i j
       then map_option (\<lambda>b. b\<lparr>async_op := InProgress (next_async_op_id at) None\<rparr>) (block_at at j) else block_at at j))"
  using start_op_effect [OF assms(1) async_reachable_inv [OF assms(1,2)] assms(3-5)] by blast

theorem async_op_shared_below_witness:
  "\<exists>at'. start_necessary_async_op key_order sample_async 1 0 = Some (ReadyInternal (next_async_op_id sample_async) 1, at')"
  using async_op_shared_below [OF slab_order_key_order sample_async_reachable sample_async_block(2), of None 0] by auto

text \<open>
  Finishing an operation returns, once each, the blocks that were waiting for it, and makes exactly
  these finished and not yet reported.
\<close>

lemma async_op_finished_blocks:
  assumes "slab_order keys" "async_reachable keys add M at"
  shows "\<exists>lst at'. async_op_finished keys at op d = Some (lst, at') \<and> distinct lst \<and>
    set lst = {i. \<exists>b. block_at at i = Some b \<and> has_async_op op b} \<and>
    (\<forall>i. block_at at' i = (if i \<in> set lst then map_option (\<lambda>b. b\<lparr>async_op := Finished d False\<rparr>) (block_at at i) else block_at at i))"
  using async_op_finished_effect [OF assms(1) async_reachable_inv [OF assms], of op d] by (metis (no_types, lifting))

end
