(* ===== verification/Disjoint.thy ===== *)
theory Disjoint
  imports Rust_Collections "HOL-Library.Product_Lexorder"
begin

text \<open>
  The collection of blocks that cannot be verified yet, of \<^verbatim>\<open>src/sync/all_forks/disjoint.rs\<close>. A block
  hash, an array of 32 bytes, is a word of 256 bits: the order of the arrays is that of the words,
  so that \<^verbatim>\<open>[0; 32]\<close> is 0 and \<^verbatim>\<open>[0xff; 32]\<close> is \<open>- 1\<close>. Heights are machine words, with the
  wrap-around of the release build. \<open>None\<close> as the result of an operation is a panic.
\<close>

section \<open>State\<close>

type_synonym block_id = "u64 \<times> block_hash"

record 'b disjoint_block =
  parent_hash :: "block_hash option"
  bad :: bool
  disjoint_data :: 'b

type_synonym 'b disjoint_blocks = "(block_id \<times> 'b disjoint_block) list"

definition disjoint_new :: "'b disjoint_blocks" where
  "disjoint_new = []"

definition disjoint_iter :: "'b disjoint_blocks \<Rightarrow> (u64 \<times> block_hash \<times> 'b) list" where
  "disjoint_iter bs = map (\<lambda>((he, ha), bl). (he, ha, disjoint_data bl)) bs"

definition disjoint_contains :: "'b disjoint_blocks \<Rightarrow> u64 \<Rightarrow> block_hash \<Rightarrow> bool" where
  "disjoint_contains bs height hash \<longleftrightarrow> map_of bs (height, hash) \<noteq> None"

text \<open>\<^verbatim>\<open>checked_sub(1)\<close>.\<close>

definition checked_pred :: "u64 \<Rightarrow> u64 option" where
  "checked_pred n = (if n = 0 then None else Some (n - 1))"

definition known_bad :: "'b disjoint_blocks \<Rightarrow> u64 option \<Rightarrow> block_hash option \<Rightarrow> bool" where
  "known_bad bs height hash = (case (height, hash) of
      (Some h, Some x) \<Rightarrow> (case map_of bs (h, x) of None \<Rightarrow> False | Some b \<Rightarrow> bad b)
    | _ \<Rightarrow> False)"

definition disjoint_insert ::
    "'b disjoint_blocks \<Rightarrow> u64 \<Rightarrow> block_hash \<Rightarrow> block_hash option \<Rightarrow> 'b \<Rightarrow> 'b option \<times> 'b disjoint_blocks" where
  "disjoint_insert bs height hash parent data =
     (let parent_is_bad = known_bad bs (checked_pred height) parent
      in case map_of bs (height, hash) of
           Some entry \<Rightarrow>
             let ph = (case (parent, parent_hash entry) of
                 (Some p, Some ph) \<Rightarrow> Some ph
               | (Some p, None) \<Rightarrow> Some p
               | (None, ph) \<Rightarrow> ph)
             in (Some (disjoint_data entry),
                 btree_insert (height, hash) (entry\<lparr>parent_hash := ph, disjoint_data := data\<rparr>) bs)
         | None \<Rightarrow>
             (None, btree_insert (height, hash) \<lparr>parent_hash = parent, bad = parent_is_bad, disjoint_data = data\<rparr> bs))"

definition disjoint_remove :: "'b disjoint_blocks \<Rightarrow> u64 \<Rightarrow> block_hash \<Rightarrow> ('b \<times> 'b disjoint_blocks) option" where
  "disjoint_remove bs height hash =
     map_option (\<lambda>b. (disjoint_data b, btree_remove (height, hash) bs)) (map_of bs (height, hash))"

definition remove_below_height :: "'b disjoint_blocks \<Rightarrow> u64 \<Rightarrow> (u64 \<times> block_hash \<times> 'b) list \<times> 'b disjoint_blocks" where
  "remove_below_height bs threshold =
     (let above_threshold = filter (\<lambda>(k, _). (threshold, 0) \<le> k) bs;
          below_threshold = filter (\<lambda>(k, _). k < (threshold, 0)) bs
      in (disjoint_iter below_threshold, above_threshold))"

definition disjoint_user_data :: "'b disjoint_blocks \<Rightarrow> u64 \<Rightarrow> block_hash \<Rightarrow> 'b option" where
  "disjoint_user_data bs height hash = map_option disjoint_data (map_of bs (height, hash))"

text \<open>The mutable reference, with what the caller does to the value.\<close>

definition disjoint_user_data_mut :: "'b disjoint_blocks \<Rightarrow> u64 \<Rightarrow> block_hash \<Rightarrow> ('b \<Rightarrow> 'b) \<Rightarrow> 'b disjoint_blocks option" where
  "disjoint_user_data_mut bs height hash f =
     map_option (\<lambda>b. btree_insert (height, hash) (b\<lparr>disjoint_data := f (disjoint_data b)\<rparr>) bs) (map_of bs (height, hash))"

definition disjoint_parent_hash :: "'b disjoint_blocks \<Rightarrow> u64 \<Rightarrow> block_hash \<Rightarrow> block_hash option" where
  "disjoint_parent_hash bs height hash = Option.bind (map_of bs (height, hash)) parent_hash"

section \<open>Children and bad blocks\<close>

text \<open>The blocks of a height whose parent is the given block.\<close>

definition children_at :: "'b disjoint_blocks \<Rightarrow> u64 \<Rightarrow> block_hash \<Rightarrow> (block_id \<times> 'b disjoint_block) list" where
  "children_at bs height hash =
     filter (\<lambda>(_, b). parent_hash b = Some hash) (btree_range (height, 0) (height, - 1) bs)"

definition disjoint_children :: "'b disjoint_blocks \<Rightarrow> u64 \<Rightarrow> block_hash \<Rightarrow> (u64 \<times> block_hash \<times> 'b) list" where
  "disjoint_children bs height hash = disjoint_iter (children_at bs (height + 1) hash)"

text \<open>One round of the inner loop of \<^verbatim>\<open>set_block_bad\<close>, and the loop over the generations.\<close>

definition mark_bad ::
    "block_id \<Rightarrow> 'b disjoint_blocks \<times> block_id list \<Rightarrow> ('b disjoint_blocks \<times> block_id list) option" where
  "mark_bad = (\<lambda>(height, hash) (bs, children).
     map_option (\<lambda>b.
       let bs = btree_insert (height, hash) (b\<lparr>bad := True\<rparr>) bs
       in (bs, children @ map (\<lambda>((_, h), _). (height + 1, h)) (children_at bs (height + 1) hash)))
     (map_of bs (height, hash)))"

partial_function (option) mark_generations :: "'b disjoint_blocks \<Rightarrow> block_id list \<Rightarrow> 'b disjoint_blocks option" where
  "mark_generations bs blocks =
     (if blocks = [] then Some bs
      else Option.bind (for_each mark_bad blocks (bs, [])) (\<lambda>(bs, children). mark_generations bs children))"

definition set_block_bad :: "'b disjoint_blocks \<Rightarrow> u64 \<Rightarrow> block_hash \<Rightarrow> 'b disjoint_blocks option" where
  "set_block_bad bs height hash = mark_generations bs [(height, hash)]"

definition set_parent_hash :: "'b disjoint_blocks \<Rightarrow> u64 \<Rightarrow> block_hash \<Rightarrow> block_hash \<Rightarrow> 'b disjoint_blocks option" where
  "set_parent_hash bs height hash parent =
     (let parent_is_bad = known_bad bs (checked_pred height) (Some parent)
      in Option.bind (map_of bs (height, hash)) (\<lambda>b.
         Option.bind (case parent_hash b of
             Some ph \<Rightarrow> if ph = parent then Some bs else None
           | None \<Rightarrow> Some (btree_insert (height, hash) (b\<lparr>parent_hash := Some parent\<rparr>) bs)) (\<lambda>bs.
         if parent_is_bad then set_block_bad bs height hash else Some bs)))"

definition is_bad :: "'b disjoint_blocks \<Rightarrow> u64 \<Rightarrow> block_hash \<Rightarrow> bool option" where
  "is_bad bs height hash = map_option bad (map_of bs (height, hash))"

definition is_parent_bad :: "'b disjoint_blocks \<Rightarrow> u64 \<Rightarrow> block_hash \<Rightarrow> bool option" where
  "is_parent_bad bs height hash =
     Option.bind (map_of bs (height, hash)) (\<lambda>b.
     Option.bind (parent_hash b) (\<lambda>ph.
       case checked_pred height of
         None \<Rightarrow> Some False
       | Some h \<Rightarrow> Some (case map_of bs (h, ph) of None \<Rightarrow> False | Some parent \<Rightarrow> bad parent)))"

section \<open>Roots and unknown blocks\<close>

record tree_root =
  block_hash :: block_hash
  block_number :: u64
  parent_block_hash :: block_hash

definition good_tree_roots :: "'b disjoint_blocks \<Rightarrow> tree_root list" where
  "good_tree_roots bs = List.map_filter (\<lambda>((height, hash), b).
     Option.bind (parent_hash b) (\<lambda>ph.
       if map_of bs (height - 1, ph) \<noteq> None then None
       else Some \<lparr>block_hash = hash, block_number = height, parent_block_hash = ph\<rparr>))
     (filter (\<lambda>(_, b). \<not> bad b) bs)"

text \<open>The two iterators of \<^verbatim>\<open>unknown_blocks\<close>, and the closure that orders their elements by height.\<close>

definition unknown_parents :: "'b disjoint_blocks \<Rightarrow> block_id list" where
  "unknown_parents bs = map fst (filter (\<lambda>(_, b). parent_hash b = None) (filter (\<lambda>(_, b). \<not> bad b) bs))"

definition missing_parents :: "'b disjoint_blocks \<Rightarrow> block_id list" where
  "missing_parents bs =
     filter (\<lambda>k. map_of bs k = None)
       (List.map_filter (\<lambda>((n, _), b). map_option (\<lambda>h. (n - 1, h)) (parent_hash b)) (filter (\<lambda>(_, b). \<not> bad b) bs))"

fun merge_by_height :: "block_id list \<Rightarrow> block_id list \<Rightarrow> block_id list" where
  "merge_by_height (b1 # iter1) (b2 # iter2) =
     (if fst b1 > fst b2 then b2 # merge_by_height (b1 # iter1) iter2
      else b1 # merge_by_height iter1 (b2 # iter2))"
| "merge_by_height (b1 # iter1) [] = b1 # merge_by_height iter1 []"
| "merge_by_height [] (b2 # iter2) = b2 # merge_by_height [] iter2"
| "merge_by_height [] [] = []"

definition unknown_blocks :: "'b disjoint_blocks \<Rightarrow> block_id list" where
  "unknown_blocks bs = merge_by_height (unknown_parents bs) (missing_parents bs)"

end
