(* ===== verification/Sources.thy ===== *)
theory Sources
  imports Disjoint
begin

text \<open>
  The sources of blocks of \<^verbatim>\<open>src/sync/all_forks/sources.rs\<close> and the blocks they know, kept in two
  ordered sets, one by source and one by block. Tuples are nested pairs, whose order is that of
  Rust's tuples. \<open>None\<close> as the result of an operation is a panic.
\<close>

section \<open>State\<close>

type_synonym source_id = u64

record 's source =
  best_block_number :: u64
  best_block_hash :: block_hash
  source_data :: 's

record 's all_forks_sources =
  sources :: "(source_id \<times> 's source) list"
  next_source_id :: source_id
  known_blocks1 :: "(source_id \<times> u64 \<times> block_hash) list"
  known_blocks2 :: "(u64 \<times> block_hash \<times> source_id) list"
  finalized_block_height :: u64

definition sources_new :: "u64 \<Rightarrow> 's all_forks_sources" where
  "sources_new height = \<lparr>sources = [], next_source_id = 0, known_blocks1 = [], known_blocks2 = [],
     finalized_block_height = height\<rparr>"

definition sources_keys :: "'s all_forks_sources \<Rightarrow> source_id list" where
  "sources_keys s = map fst (sources s)"

definition user_data_iter_mut :: "('s \<Rightarrow> 's) \<Rightarrow> 's all_forks_sources \<Rightarrow> 's all_forks_sources" where
  "user_data_iter_mut f s =
     s\<lparr>sources := map (\<lambda>(i, src). (i, src\<lparr>source_data := f (source_data src)\<rparr>)) (sources s)\<rparr>"

definition num_blocks :: "'s all_forks_sources \<Rightarrow> nat" where
  "num_blocks s = fst (foldl (\<lambda>(uniques, prev) (nn, nh, _).
     case prev of
       Some (pn, ph) \<Rightarrow> if pn = nn \<and> ph = nh then (uniques, Some (pn, ph)) else (uniques + 1, Some (nn, nh))
     | None \<Rightarrow> (uniques + 1, Some (nn, nh))) (0, None) (known_blocks2 s))"

section \<open>Sources\<close>

definition insert_known :: "source_id \<Rightarrow> u64 \<Rightarrow> block_hash \<Rightarrow> 's all_forks_sources \<Rightarrow> 's all_forks_sources" where
  "insert_known i height hash s =
     s\<lparr>known_blocks1 := btset_insert (i, height, hash) (known_blocks1 s),
       known_blocks2 := btset_insert (height, hash, i) (known_blocks2 s)\<rparr>"

definition remove_known :: "source_id \<Rightarrow> u64 \<Rightarrow> block_hash \<Rightarrow> 's all_forks_sources \<Rightarrow> 's all_forks_sources" where
  "remove_known i height hash s =
     s\<lparr>known_blocks1 := btset_remove (i, height, hash) (known_blocks1 s),
       known_blocks2 := btset_remove (height, hash, i) (known_blocks2 s)\<rparr>"

definition add_source :: "'s all_forks_sources \<Rightarrow> u64 \<Rightarrow> block_hash \<Rightarrow> 's \<Rightarrow> source_id \<times> 's all_forks_sources" where
  "add_source s number hash data =
     (let new_id = next_source_id s;
          s = s\<lparr>next_source_id := next_source_id s + 1\<rparr>;
          s = s\<lparr>sources := hash_insert new_id
                 \<lparr>best_block_number = number, best_block_hash = hash, source_data = data\<rparr> (sources s)\<rparr>
      in (new_id, if number > finalized_block_height s then insert_known new_id number hash s else s))"

definition sources_remove :: "'s all_forks_sources \<Rightarrow> source_id \<Rightarrow> ('s \<times> 's all_forks_sources) option" where
  "sources_remove s i =
     map_option (\<lambda>source.
       let s = s\<lparr>sources := hash_remove i (sources s)\<rparr>;
           known_blocks = map snd (btset_range (i, 0, 0) (i, - 1, - 1) (known_blocks1 s))
       in (source_data source, foldl (\<lambda>s (height, hash). remove_known i height hash s) s known_blocks))
     (map_of (sources s) i)"

definition set_finalized_block_height :: "'s all_forks_sources \<Rightarrow> u64 \<Rightarrow> 's all_forks_sources option" where
  "set_finalized_block_height s height =
     (if height < finalized_block_height s then None
      else
        let entries = btset_range (0, 0, 0) (height, - 1, - 1) (known_blocks2 s);
            s = foldl (\<lambda>s (height, hash, i). remove_known i height hash s) s entries
        in Some (s\<lparr>finalized_block_height := height\<rparr>))"

definition add_known_block :: "'s all_forks_sources \<Rightarrow> source_id \<Rightarrow> u64 \<Rightarrow> block_hash \<Rightarrow> 's all_forks_sources" where
  "add_known_block s i height hash =
     (if height > finalized_block_height s then insert_known i height hash s else s)"

definition remove_known_block :: "'s all_forks_sources \<Rightarrow> u64 \<Rightarrow> block_hash \<Rightarrow> 's all_forks_sources" where
  "remove_known_block s height hash =
     (let srcs = map (\<lambda>(_, _, i). i) (btset_range (height, hash, 0) (height, hash, - 1) (known_blocks2 s))
      in foldl (\<lambda>s i. remove_known i height hash s) s srcs)"

definition source_remove_known_block ::
    "'s all_forks_sources \<Rightarrow> source_id \<Rightarrow> u64 \<Rightarrow> block_hash \<Rightarrow> 's all_forks_sources" where
  "source_remove_known_block s i height hash = remove_known i height hash s"

definition add_known_block_and_set_best ::
    "'s all_forks_sources \<Rightarrow> source_id \<Rightarrow> u64 \<Rightarrow> block_hash \<Rightarrow> 's all_forks_sources option" where
  "add_known_block_and_set_best s i height hash =
     (let s = add_known_block s i height hash
      in map_option (\<lambda>source.
           s\<lparr>sources := hash_insert i (source\<lparr>best_block_number := height, best_block_hash := hash\<rparr>) (sources s)\<rparr>)
         (map_of (sources s) i))"

section \<open>Queries\<close>

definition source_best_block :: "'s all_forks_sources \<Rightarrow> source_id \<Rightarrow> (u64 \<times> block_hash) option" where
  "source_best_block s i = map_option (\<lambda>src. (best_block_number src, best_block_hash src)) (map_of (sources s) i)"

definition knows_non_finalized_block :: "'s all_forks_sources \<Rightarrow> u64 \<Rightarrow> block_hash \<Rightarrow> source_id list option" where
  "knows_non_finalized_block s height hash =
     (if height > finalized_block_height s
      then Some (map (\<lambda>(_, _, i). i) (btset_range (height, hash, 0) (height, hash, - 1) (known_blocks2 s)))
      else None)"

definition source_knows_non_finalized_block ::
    "'s all_forks_sources \<Rightarrow> source_id \<Rightarrow> u64 \<Rightarrow> block_hash \<Rightarrow> bool option" where
  "source_knows_non_finalized_block s i height hash =
     (if height > finalized_block_height s then Some ((i, height, hash) \<in> set (known_blocks1 s)) else None)"

definition sources_contains :: "'s all_forks_sources \<Rightarrow> source_id \<Rightarrow> bool" where
  "sources_contains s i \<longleftrightarrow> map_of (sources s) i \<noteq> None"

definition sources_index :: "'s all_forks_sources \<Rightarrow> source_id \<Rightarrow> 's option" where
  "sources_index s i = map_option source_data (map_of (sources s) i)"

definition sources_index_mut :: "'s all_forks_sources \<Rightarrow> source_id \<Rightarrow> ('s \<Rightarrow> 's) \<Rightarrow> 's all_forks_sources option" where
  "sources_index_mut s i f =
     map_option (\<lambda>src. s\<lparr>sources := hash_insert i (src\<lparr>source_data := f (source_data src)\<rparr>) (sources s)\<rparr>)
       (map_of (sources s) i)"

end
