(* ===== verification/Sources_Props.thy ===== *)
theory Sources_Props
  imports Sources
begin

text \<open>
  The two sets of known blocks of the sources are the two views of one relation, of which every
  operation is an update; queries by block and by source agree.
\<close>

section \<open>The relation\<close>

definition known :: "'s all_forks_sources \<Rightarrow> (source_id \<times> u64 \<times> block_hash) set" where
  "known s = set (known_blocks1 s)"

definition sources_ok :: "'s all_forks_sources \<Rightarrow> bool" where
  "sources_ok s \<longleftrightarrow> hash_ok (sources s) \<and> btset_ok (known_blocks1 s) \<and> btset_ok (known_blocks2 s) \<and>
     (\<forall>i h x. (h, x, i) \<in> set (known_blocks2 s) \<longleftrightarrow> (i, h, x) \<in> known s) \<and>
     known s \<subseteq> {(i, h, x). finalized_block_height s < h}"

named_theorems source_fields

lemma insert_known_fields [source_fields]:
  "sources (insert_known i h x s) = sources s" "next_source_id (insert_known i h x s) = next_source_id s"
  "finalized_block_height (insert_known i h x s) = finalized_block_height s"
  "known (insert_known i h x s) = insert (i, h, x) (known s)"
  by (simp_all add: insert_known_def known_def)

lemma remove_known_fields [source_fields]:
  "sources (remove_known i h x s) = sources s" "next_source_id (remove_known i h x s) = next_source_id s"
  "finalized_block_height (remove_known i h x s) = finalized_block_height s"
  "known (remove_known i h x s) = known s - {(i, h, x)}"
  by (simp_all add: remove_known_def known_def)

lemma insert_known_ok: "sources_ok s \<Longrightarrow> finalized_block_height s < h \<Longrightarrow> sources_ok (insert_known i h x s)"
  by (auto simp: sources_ok_def source_fields) (auto simp: insert_known_def)

lemma remove_known_ok: "sources_ok s \<Longrightarrow> sources_ok (remove_known i h x s)"
  by (auto simp: sources_ok_def source_fields) (auto simp: remove_known_def)

text \<open>The loops that remove several blocks.\<close>

lemma remove_loop:
  assumes "sources_ok s" "\<And>e s. f s e = (case g e of (i, h, x) \<Rightarrow> remove_known i h x s)"
  shows "sources_ok (foldl f s es) \<and> sources (foldl f s es) = sources s \<and>
    next_source_id (foldl f s es) = next_source_id s \<and>
    finalized_block_height (foldl f s es) = finalized_block_height s \<and> known (foldl f s es) = known s - g ` set es"
  using assms(1)
proof (induction es arbitrary: s)
  case (Cons e es)
  obtain i h x where e: "g e = (i, h, x)" by (metis prod_cases3)
  have "sources_ok (f s e)" using remove_known_ok [OF Cons.prems] by (simp add: assms(2) e)
  from Cons.IH [OF this] show ?case by (auto simp: assms(2) e source_fields)
qed simp

lemma in_rotated: "(i, h, x) \<in> (\<lambda>(h, x, i). (i, h, x)) ` S \<longleftrightarrow> (h, x, i) \<in> S"
  by force

section \<open>Operations\<close>

lemma add_source_effect:
  assumes "sources_ok s" "add_source s n x d = (i, s')"
  shows "i = next_source_id s \<and> sources_ok s' \<and> finalized_block_height s' = finalized_block_height s \<and>
    map_of (sources s') = (map_of (sources s))(i \<mapsto> \<lparr>best_block_number = n, best_block_hash = x, source_data = d\<rparr>) \<and>
    known s' = known s \<union> (if finalized_block_height s < n then {(i, n, x)} else {})"
proof -
  define s1 where "s1 = s\<lparr>next_source_id := next_source_id s + 1,
    sources := hash_insert (next_source_id s) \<lparr>best_block_number = n, best_block_hash = x, source_data = d\<rparr> (sources s)\<rparr>"
  have ok: "sources_ok s1" using assms(1) by (simp add: s1_def sources_ok_def known_def)
  have "i = next_source_id s" "s' = (if finalized_block_height s < n then insert_known i n x s1 else s1)"
    using assms(2) by (auto simp: add_source_def Let_def s1_def)
  then show ?thesis using ok insert_known_ok [OF ok, of n i x] by (auto simp: source_fields) (auto simp: s1_def known_def)
qed

lemma sources_remove_effect:
  assumes "sources_ok s" "sources_remove s i = Some (d, s')"
  shows "sources_ok s' \<and> finalized_block_height s' = finalized_block_height s \<and> map_of (sources s') = (map_of (sources s))(i := None) \<and>
    known s' = {(j, h, x) \<in> known s. j \<noteq> i}"
proof -
  define s1 where "s1 = s\<lparr>sources := hash_remove i (sources s)\<rparr>"
  define es where "es = map snd (btset_range (i, 0, 0) (i, - 1, - 1) (known_blocks1 s))"
  have s': "s' = foldl (\<lambda>s (height, hash). remove_known i height hash s) s1 es"
    using assms(2) by (auto simp: sources_remove_def Let_def s1_def es_def)
  have ok: "sources_ok s1" using assms(1) by (simp add: s1_def sources_ok_def known_def)
  have "Pair i ` set es = {(j, h, x) \<in> known s. j = i}"
    by (force simp: es_def known_def less_eq_prod_def)
  moreover have "known s1 = known s" by (simp add: s1_def known_def)
  moreover note remove_loop [OF ok, of "\<lambda>s (height, hash). remove_known i height hash s" "Pair i" es, folded s']
  ultimately show ?thesis by (auto simp: s1_def split: prod.split)
qed

lemma set_finalized_effect:
  assumes "sources_ok s" "set_finalized_block_height s height = Some s'"
  shows "sources_ok s' \<and> finalized_block_height s' = height \<and> sources s' = sources s \<and> finalized_block_height s \<le> height \<and>
    known s' = {(i, h, x) \<in> known s. height < h}"
proof -
  define es where "es = btset_range (0, 0, 0) (height, - 1, - 1) (known_blocks2 s)"
  define s1 where "s1 = foldl (\<lambda>s (height, hash, i). remove_known i height hash s) s es"
  have s': "s' = s1\<lparr>finalized_block_height := height\<rparr>" and le: "finalized_block_height s \<le> height"
    using assms(2) by (auto simp: set_finalized_block_height_def Let_def s1_def es_def split: if_splits)
  have es: "(h, x, i) \<in> set es \<longleftrightarrow> (i, h, x) \<in> known s \<and> h \<le> height" for h x i
    using assms(1) by (auto simp: es_def sources_ok_def less_eq_prod_def)
  have loop: "sources_ok s1 \<and> sources s1 = sources s \<and> next_source_id s1 = next_source_id s \<and>
      finalized_block_height s1 = finalized_block_height s \<and> known s1 = known s - (\<lambda>(h, x, i). (i, h, x)) ` set es"
    unfolding s1_def by (rule remove_loop [OF assms(1)]) (simp split: prod.split)
  then have r: "known s1 = {(i, h, x) \<in> known s. height < h}" using es by (auto simp: in_rotated)
  have "sources_ok s'" using loop r by (auto simp: s' sources_ok_def known_def)
  with r le loop show ?thesis by (simp add: s' known_def)
qed

lemma remove_known_block_effect:
  assumes "sources_ok s"
  shows "sources_ok (remove_known_block s h x) \<and> sources (remove_known_block s h x) = sources s \<and>
    finalized_block_height (remove_known_block s h x) = finalized_block_height s \<and>
    known (remove_known_block s h x) = {(i, h', x') \<in> known s. (h', x') \<noteq> (h, x)}"
proof -
  define es where "es = map (\<lambda>(_, _, i). i) (btset_range (h, x, 0) (h, x, - 1) (known_blocks2 s))"
  have "i \<in> set es \<longleftrightarrow> (h, x, i) \<in> set (known_blocks2 s)" for i
    by (force simp: es_def less_eq_prod_def)
  then have es: "i \<in> set es \<longleftrightarrow> (i, h, x) \<in> known s" for i
    using assms by (simp add: sources_ok_def)
  have loop: "sources_ok (foldl (\<lambda>s i. remove_known i h x s) s es) \<and>
      sources (foldl (\<lambda>s i. remove_known i h x s) s es) = sources s \<and>
      next_source_id (foldl (\<lambda>s i. remove_known i h x s) s es) = next_source_id s \<and>
      finalized_block_height (foldl (\<lambda>s i. remove_known i h x s) s es) = finalized_block_height s \<and>
      known (foldl (\<lambda>s i. remove_known i h x s) s es) = known s - (\<lambda>i. (i, h, x)) ` set es"
    by (rule remove_loop [OF assms]) simp
  have "known s - (\<lambda>i. (i, h, x)) ` set es = {(i, h', x') \<in> known s. (h', x') \<noteq> (h, x)}"
    by (auto simp: es)
  with loop show ?thesis by (simp only: remove_known_block_def es_def [symmetric] Let_def simp_thms)
qed

lemma add_known_block_effect:
  "sources_ok s \<Longrightarrow> sources_ok (add_known_block s i h x) \<and> sources (add_known_block s i h x) = sources s \<and>
    finalized_block_height (add_known_block s i h x) = finalized_block_height s \<and>
    known (add_known_block s i h x) = known s \<union> (if finalized_block_height s < h then {(i, h, x)} else {})"
  by (auto simp: add_known_block_def insert_known_ok source_fields)

lemma set_best_effect:
  assumes "sources_ok s" "add_known_block_and_set_best s i h x = Some s'"
  shows "sources_ok s' \<and> finalized_block_height s' = finalized_block_height s \<and> source_best_block s' i = Some (h, x) \<and>
    dom (map_of (sources s')) = dom (map_of (sources s)) \<and>
    known s' = known s \<union> (if finalized_block_height s < h then {(i, h, x)} else {})"
proof -
  define s1 where "s1 = add_known_block s i h x"
  note 1 = add_known_block_effect [OF assms(1), of i h x, folded s1_def]
  obtain src where src: "map_of (sources s1) i = Some src"
      "s' = s1\<lparr>sources := hash_insert i (src\<lparr>best_block_number := h, best_block_hash := x\<rparr>) (sources s1)\<rparr>"
    using assms(2) by (auto simp: add_known_block_and_set_best_def Let_def s1_def [symmetric])
  have "sources_ok s1" using 1 by blast
  then have "sources_ok s'" by (simp add: src(2) sources_ok_def known_def)
  moreover have "dom (map_of (sources s')) = dom (map_of (sources s))" using 1 src by auto
  ultimately show ?thesis using 1 by (simp add: src(2) known_def source_best_block_def)
qed

section \<open>Counting blocks\<close>

definition count_block :: "nat \<times> block_id option \<Rightarrow> u64 \<times> block_hash \<times> source_id \<Rightarrow> nat \<times> block_id option" where
  "count_block = (\<lambda>(uniques, prev) (nn, nh, _).
     case prev of
       Some (pn, ph) \<Rightarrow> if pn = nn \<and> ph = nh then (uniques, Some (pn, ph)) else (uniques + 1, Some (nn, nh))
     | None \<Rightarrow> (uniques + 1, Some (nn, nh)))"

lemma count_block_simps:
  "count_block (c, Some k) (h, x, i) = (if k = (h, x) then (c, Some k) else (Suc c, Some (h, x)))"
  "count_block (c, None) (h, x, i) = (Suc c, Some (h, x))"
  by (cases k) (simp_all add: count_block_def)

lemma count_block_loop:
  assumes "sorted (map (\<lambda>(h, x, _). (h, x)) l)" "\<And>h x i. (h, x, i) \<in> set l \<Longrightarrow> k \<le> (h, x)"
  shows "fst (foldl count_block (c, Some k) l) = c + card ((\<lambda>(h, x, _). (h, x)) ` set l - {k})"
  using assms
proof (induction l arbitrary: c k)
  case (Cons e l)
  obtain h x i where e: "e = (h, x, i)" by (metis prod_cases3)
  have le: "k \<le> (h, x)" by (rule Cons.prems(2) [of h x i]) (simp add: e)
  have above: "(h, x) \<le> (h', x')" if "(h', x', i') \<in> set l" for h' x' i' using Cons.prems(1) that e by fastforce
  have sorted: "sorted (map (\<lambda>(h, x, _). (h, x)) l)" using Cons.prems(1) by simp
  show ?case
  proof (cases "k = (h, x)")
    case True
    then have "fst (foldl count_block (c, Some k) (e # l)) = c + card ((\<lambda>(h, x, _). (h, x)) ` set l - {k})"
      using Cons.IH [OF sorted, of "(h, x)" c] above by (simp add: count_block_simps e)
    with True show ?thesis by (simp add: e insert_Diff_if)
  next
    case False
    then have "fst (foldl count_block (c, Some k) (e # l)) = Suc c + card ((\<lambda>(h, x, _). (h, x)) ` set l - {(h, x)})"
      using Cons.IH [OF sorted, of "(h, x)" "Suc c"] above by (simp add: count_block_simps e)
    moreover have "k \<notin> (\<lambda>(h, x, _). (h, x)) ` set l" using above le False by fastforce
    then have "(\<lambda>(h, x, _). (h, x)) ` set (e # l) - {k} = insert (h, x) ((\<lambda>(h, x, _). (h, x)) ` set l - {(h, x)})"
      using False by (auto simp: e)
    ultimately show ?thesis by (simp add: card.insert_remove)
  qed
qed simp

lemma num_blocks_correct:
  assumes "sources_ok s"
  shows "num_blocks s = card {(h, x). \<exists>i. (i, h, x) \<in> known s}"
proof -
  have "sorted_wrt (\<lambda>e e'. (case e of (h, x, _) \<Rightarrow> (h, x)) \<le> (case e' of (h, x, _) \<Rightarrow> (h, x))) (known_blocks2 s)"
  proof (rule sorted_wrt_mono_rel)
    show "sorted_wrt (<) (known_blocks2 s)" using assms by (simp add: sources_ok_def btset_ok_def)
  qed (auto simp: less_prod_def less_eq_prod_def split: prod.splits)
  then have sorted: "sorted (map (\<lambda>(h, x, _). (h, x)) (known_blocks2 s))" by (simp add: sorted_map)
  have "(\<lambda>(h, x, _). (h, x)) ` set (known_blocks2 s) = {(h, x). \<exists>i. (h, x, i) \<in> set (known_blocks2 s)}" by force
  also have "\<dots> = {(h, x). \<exists>i. (i, h, x) \<in> known s}" using assms by (simp add: sources_ok_def)
  finally have keys: "(\<lambda>(h, x, _). (h, x)) ` set (known_blocks2 s) = {(h, x). \<exists>i. (i, h, x) \<in> known s}" .
  have num: "num_blocks s = fst (foldl count_block (0, None) (known_blocks2 s))"
    by (simp add: num_blocks_def count_block_def)
  show ?thesis
  proof (cases "known_blocks2 s")
    case Nil
    with num keys show ?thesis by simp
  next
    case (Cons e l)
    obtain h x i where e: "e = (h, x, i)" by (metis prod_cases3)
    have sl: "sorted (map (\<lambda>(h, x, _). (h, x)) ((h, x, i) # l))" using sorted unfolding Cons e .
    have "num_blocks s = fst (foldl count_block (1, Some (h, x)) l)"
      unfolding num Cons e by (simp add: count_block_simps)
    also have "\<dots> = 1 + card ((\<lambda>(h, x, _). (h, x)) ` set l - {(h, x)})"
      by (rule count_block_loop) (use sl in force)+
    also have "\<dots> = card ((\<lambda>(h, x, _). (h, x)) ` set (known_blocks2 s))"
      unfolding Cons e by (simp add: card.insert_remove)
    finally show ?thesis unfolding keys .
  qed
qed

section \<open>Reachable states\<close>

inductive sources_reachable :: "'s all_forks_sources \<Rightarrow> bool" where
  new: "sources_reachable (sources_new height)"
| add_source: "sources_reachable s \<Longrightarrow> sources_reachable (snd (add_source s n x d))"
| remove: "sources_reachable s \<Longrightarrow> sources_remove s i = Some (d, s') \<Longrightarrow> sources_reachable s'"
| set_finalized: "sources_reachable s \<Longrightarrow> set_finalized_block_height s height = Some s' \<Longrightarrow> sources_reachable s'"
| add_known: "sources_reachable s \<Longrightarrow> sources_reachable (add_known_block s i h x)"
| remove_known: "sources_reachable s \<Longrightarrow> sources_reachable (remove_known_block s h x)"
| source_remove_known: "sources_reachable s \<Longrightarrow> sources_reachable (source_remove_known_block s i h x)"
| set_best: "sources_reachable s \<Longrightarrow> add_known_block_and_set_best s i h x = Some s' \<Longrightarrow> sources_reachable s'"
| index_mut: "sources_reachable s \<Longrightarrow> sources_index_mut s i f = Some s' \<Longrightarrow> sources_reachable s'"
| iter_mut: "sources_reachable s \<Longrightarrow> sources_reachable (user_data_iter_mut f s)"

lemma index_mut_ok: "sources_ok s \<Longrightarrow> sources_index_mut s i f = Some s' \<Longrightarrow> sources_ok s'"
  by (auto simp: sources_index_mut_def sources_ok_def known_def)

lemma iter_mut_ok: "sources_ok s \<Longrightarrow> sources_ok (user_data_iter_mut f s)"
  by (auto simp: user_data_iter_mut_def sources_ok_def known_def hash_ok_def comp_def case_prod_unfold)

lemma sources_new_ok: "sources_ok (sources_new height)"
  by (simp add: sources_new_def sources_ok_def known_def)

lemma sources_reachable_ok: "sources_reachable s \<Longrightarrow> sources_ok s"
proof (induction rule: sources_reachable.induct)
  case (add_source s n x d)
  show ?case using add_source_effect [OF add_source.IH prod.collapse [symmetric]] by blast
next
  case (remove s i d s')
  show ?case using sources_remove_effect [OF remove.IH remove.hyps(2)] by (rule conjunct1)
next
  case (set_finalized s height s')
  show ?case using set_finalized_effect [OF set_finalized.IH set_finalized.hyps(2)] by (rule conjunct1)
next
  case (set_best s i h x s')
  show ?case using set_best_effect [OF set_best.IH set_best.hyps(2)] by (rule conjunct1)
next
  case (source_remove_known s i h x)
  then show ?case by (simp add: source_remove_known_block_def remove_known_ok)
next
  case (index_mut s i f s')
  show ?case by (rule index_mut_ok [OF index_mut.IH index_mut.hyps(2)])
qed (simp_all add: sources_new_ok add_known_block_effect remove_known_block_effect iter_mut_ok)

lemma knows_correct:
  assumes "sources_ok s" "finalized_block_height s < h"
  shows "\<exists>is. knows_non_finalized_block s h x = Some is \<and> sorted_wrt (<) is \<and> set is = {i. (i, h, x) \<in> known s}"
proof -
  let ?r = "btset_range (h, x, 0) (h, x, - 1) (known_blocks2 s)"
  have r: "set ?r = {(h', x', i). (h', x') = (h, x) \<and> (i, h, x) \<in> known s}"
    using assms(1) by (auto simp: sources_ok_def less_eq_prod_def)
  have "btset_ok ?r" using assms(1) by (simp add: sources_ok_def)
  then have "sorted_wrt (\<lambda>e e'. (case e of (_, _, i) \<Rightarrow> i) < (case e' of (_, _, i) \<Rightarrow> i)) ?r"
    unfolding btset_ok_def by (rule sorted_wrt_mono_rel [rotated]) (use r in \<open>auto simp: less_prod_def\<close>)
  then have "sorted_wrt (<) (map (\<lambda>(_, _, i). i) ?r)" by (simp add: sorted_wrt_map)
  moreover have "set (map (\<lambda>(_, _, i). i) ?r) = {i. (i, h, x) \<in> known s}" unfolding set_map r by force
  ultimately show ?thesis using assms(2) by (simp add: knows_non_finalized_block_def)
qed

section \<open>Properties\<close>

text \<open>A source at block 5 of hash 50, of which block 6 of hash 60 is also known.\<close>

definition sample_sources :: "string all_forks_sources" where
  "sample_sources = add_known_block (snd (add_source (sources_new 4) 5 50 ''a'')) 0 6 60"

lemma sample_sources_reachable: "sources_reachable sample_sources"
  unfolding sample_sources_def by (intro sources_reachable.add_known sources_reachable.add_source sources_reachable.new)

text \<open>
  C16: the queries by block and by source agree: for every block above the finalized one, the sources
  that \<^verbatim>\<open>knows_non_finalized_block\<close> lists, in ascending order and once each, are those for which
  \<^verbatim>\<open>source_knows_non_finalized_block\<close> holds; \<^verbatim>\<open>num_blocks\<close> counts the blocks known by some source.
\<close>

theorem known_blocks_views_agree:
  assumes "sources_reachable s"
  shows "(\<forall>h x. finalized_block_height s < h \<longrightarrow> (\<exists>is. knows_non_finalized_block s h x = Some is \<and> sorted_wrt (<) is \<and>
      (\<forall>i. i \<in> set is \<longleftrightarrow> source_knows_non_finalized_block s i h x = Some True))) \<and>
    num_blocks s = card {(h, x). \<exists>i. source_knows_non_finalized_block s i h x = Some True}"
proof -
  have ok: "sources_ok s" by (rule sources_reachable_ok [OF assms])
  have knows: "source_knows_non_finalized_block s i h x = Some True \<longleftrightarrow> (i, h, x) \<in> known s" for i h x
    using ok by (auto simp: source_knows_non_finalized_block_def known_def sources_ok_def)
  show ?thesis using knows_correct [OF ok] num_blocks_correct [OF ok] by (simp add: knows set_eq_iff)
qed

theorem known_blocks_views_agree_witness:
  "(\<exists>is. knows_non_finalized_block sample_sources 6 60 = Some is \<and> sorted_wrt (<) is) \<and>
    num_blocks sample_sources = card {(h, x). \<exists>i. source_knows_non_finalized_block sample_sources i h x = Some True}"
proof -
  have "finalized_block_height sample_sources < 6"
    by (simp add: sample_sources_def add_known_block_def add_source_def sources_new_def insert_known_def)
  then show ?thesis using known_blocks_views_agree [OF sample_sources_reachable] by blast
qed



end
