(* ===== verification/Disjoint_Props.thy ===== *)
theory Disjoint_Props
  imports Disjoint
begin

text \<open>
  Marking a block as bad ends and marks exactly the block and its descendants; the iterator over
  the unknown blocks yields what it promises, in ascending order of height.
\<close>

section \<open>Generations\<close>

definition child_of :: "'b disjoint_blocks \<Rightarrow> block_id \<Rightarrow> block_id \<Rightarrow> bool" where
  "child_of bs k k' \<longleftrightarrow> fst k' = fst k + 1 \<and> (\<exists>b. map_of bs k' = Some b \<and> parent_hash b = Some (snd k))"

inductive descends :: "'b disjoint_blocks \<Rightarrow> block_id \<Rightarrow> block_id \<Rightarrow> bool" for bs k where
  self: "descends bs k k"
| child: "descends bs k k' \<Longrightarrow> child_of bs k' k'' \<Longrightarrow> descends bs k k''"

definition next_gen :: "'b disjoint_blocks \<Rightarrow> block_id set \<Rightarrow> block_id set" where
  "next_gen bs S = {k'. \<exists>k\<in>S. child_of bs k k'}"

lemma descends_iff: "descends bs k k' \<longleftrightarrow> (\<exists>i. k' \<in> (next_gen bs ^^ i) {k})"
proof
  assume "descends bs k k'"
  then show "\<exists>i. k' \<in> (next_gen bs ^^ i) {k}"
  proof induction
    case self
    have "k \<in> (next_gen bs ^^ 0) {k}" by simp
    then show ?case by blast
  next
    case (child k' k'')
    then obtain i where "k' \<in> (next_gen bs ^^ i) {k}" by blast
    with child(2) have "k'' \<in> (next_gen bs ^^ Suc i) {k}" by (auto simp: next_gen_def)
    then show ?case by blast
  qed
next
  assume "\<exists>i. k' \<in> (next_gen bs ^^ i) {k}"
  then obtain i where "k' \<in> (next_gen bs ^^ i) {k}" by blast
  then show "descends bs k k'"
  proof (induction i arbitrary: k')
    case 0
    then show ?case by (simp add: descends.self)
  next
    case (Suc i)
    then show ?case by (auto simp: next_gen_def intro: descends.child)
  qed
qed

lemma gen_height: "k' \<in> (next_gen bs ^^ i) {k} \<Longrightarrow> fst k' = fst k + of_nat i"
  by (induction i arbitrary: k') (auto simp: next_gen_def child_of_def)

lemma next_gen_empty [simp]: "next_gen bs {} = {}"
  by (simp add: next_gen_def)

lemma next_gen_dom: "next_gen bs S \<subseteq> dom (map_of bs)"
  by (auto simp: next_gen_def child_of_def)

lemma gen_dom: "k \<in> dom (map_of bs) \<Longrightarrow> (next_gen bs ^^ i) {k} \<subseteq> dom (map_of bs)"
  using next_gen_dom [of bs] by (cases i) auto

text \<open>There are at most as many blocks of pairwise different heights as blocks.\<close>

lemma too_many_heights:
  assumes "length bs < 2 ^ 64" "\<And>i. f i \<in> dom (map_of bs)" "\<And>i. fst (f i) = (c (of_nat i :: u64) :: u64)" "inj c"
  shows False
proof -
  have "inj_on f {..length bs}"
  proof (rule inj_onI)
    fix i j assume ij: "i \<in> {..length bs}" "j \<in> {..length bs}" "f i = f j"
    then have "c (of_nat i) = c (of_nat j)" using assms(3) [of i] assms(3) [of j] by simp
    then have "(of_nat i :: u64) = of_nat j" using assms(4) by (simp add: inj_eq)
    then have "take_bit 64 i = take_bit 64 j" by (simp add: word_of_nat_eq_iff)
    with ij assms(1) show "i = j" by (simp add: take_bit_nat_eq_self)
  qed
  then have "card (f ` {..length bs}) = Suc (length bs)" by (simp add: card_image)
  moreover have "f ` {..length bs} \<subseteq> fst ` set bs" using assms(2) by (force simp: dom_map_of_conv_image_fst)
  then have "card (f ` {..length bs}) \<le> card (fst ` set bs)" by (simp add: card_mono)
  moreover have "card (fst ` set bs) \<le> length bs" by (metis card_length length_map set_map)
  ultimately show False by simp
qed

lemma gen_empty:
  assumes "k \<in> dom (map_of bs)" "length bs < 2 ^ 64"
  shows "\<exists>i. (next_gen bs ^^ i) {k} = {}"
proof (rule ccontr)
  assume "\<not> ?thesis"
  then have "\<forall>i. \<exists>k'. k' \<in> (next_gen bs ^^ i) {k}" by blast
  then obtain f where f: "\<And>i. f i \<in> (next_gen bs ^^ i) {k}" by metis
  have dom: "f i \<in> dom (map_of bs)" for i using f gen_dom [OF assms(1)] by blast
  show False by (rule too_many_heights [OF assms(2) dom, where c = "\<lambda>n. fst k + n"]) (simp_all add: gen_height [OF f] inj_def)
qed

section \<open>Marking\<close>

definition marked :: "'b disjoint_blocks \<Rightarrow> block_id set \<Rightarrow> block_id \<rightharpoonup> 'b disjoint_block" where
  "marked bs S k = (if k \<in> S then map_option (\<lambda>b. b\<lparr>bad := True\<rparr>) (map_of bs k) else map_of bs k)"

lemma child_of_marked: "map_of bs' = marked bs S \<Longrightarrow> child_of bs' = child_of bs"
  by (force simp: child_of_def marked_def fun_eq_iff)

lemma next_gen_marked: "map_of bs' = marked bs S \<Longrightarrow> next_gen bs' = next_gen bs"
  unfolding next_gen_def [abs_def] by (drule child_of_marked) simp

lemma dom_marked [simp]: "dom (marked bs S) = dom (map_of bs)"
  by (auto simp: marked_def split: if_splits)

lemma marked_marked: "map_of bs' = marked bs S \<Longrightarrow> marked bs' T = marked bs (S \<union> T)"
  by (auto simp: marked_def fun_eq_iff option.map_comp comp_def)

lemma set_children_at:
  assumes "btree_ok bs"
  shows "set (children_at bs h x) = {((h', y), b). h' = h \<and> map_of bs (h, y) = Some b \<and> parent_hash b = Some x}"
  by (auto simp: children_at_def btree_range_def btree_get_iff [OF assms] less_eq_prod_def)

lemma mark_bad_effect:
  assumes "btree_ok bs" "k \<in> dom (map_of bs)"
  shows "\<exists>bs' cs'. mark_bad k (bs, cs) = Some (bs', cs') \<and> btree_ok bs' \<and> map_of bs' = marked bs {k} \<and>
    set cs' = set cs \<union> {k'. child_of bs k k'}"
proof -
  obtain h x where k: "k = (h, x)" by fastforce
  obtain b where b: "map_of bs (h, x) = Some b" using assms(2) k by auto
  define bs' where "bs' = btree_insert (h, x) (b\<lparr>bad := True\<rparr>) bs"
  have ok: "btree_ok bs'" using assms(1) by (simp add: bs'_def)
  have m: "map_of bs' = marked bs {k}" using b k by (simp add: bs'_def marked_def fun_eq_iff)
  have "(\<lambda>((_, y), _). (h + 1, y)) ` set (children_at bs' (h + 1) x) = {k'. child_of bs' k k'}"
    unfolding set_children_at [OF ok] by (force simp: child_of_def k)
  with child_of_marked [OF m] have
    "set (cs @ map (\<lambda>((_, y), _). (h + 1, y)) (children_at bs' (h + 1) x)) = set cs \<union> {k'. child_of bs k k'}" by simp
  with b k ok m show ?thesis by (simp add: mark_bad_def bs'_def [symmetric] Let_def)
qed

lemma for_each_mark_bad:
  assumes "btree_ok bs" "set ks \<subseteq> dom (map_of bs)"
  shows "\<exists>bs' cs'. for_each mark_bad ks (bs, cs) = Some (bs', cs') \<and> btree_ok bs' \<and> map_of bs' = marked bs (set ks) \<and>
    set cs' = set cs \<union> next_gen bs (set ks)"
  using assms
proof (induction ks arbitrary: bs cs)
  case Nil
  then show ?case by (simp add: marked_def fun_eq_iff next_gen_def)
next
  case (Cons k ks)
  then obtain bs1 cs1 where 1: "mark_bad k (bs, cs) = Some (bs1, cs1)" "btree_ok bs1" "map_of bs1 = marked bs {k}"
      "set cs1 = set cs \<union> {k'. child_of bs k k'}"
    using mark_bad_effect [of bs k cs] by auto
  have "set ks \<subseteq> dom (map_of bs1)" using Cons.prems(2) by (auto simp: 1(3) marked_def)
  with Cons.IH [OF 1(2)] obtain bs2 cs2 where 2: "for_each mark_bad ks (bs1, cs1) = Some (bs2, cs2)" "btree_ok bs2"
      "map_of bs2 = marked bs1 (set ks)" "set cs2 = set cs1 \<union> next_gen bs1 (set ks)" by blast
  have "map_of bs2 = marked bs (set (k # ks))" using 2(3) marked_marked [OF 1(3)] by simp
  moreover have "set cs2 = set cs \<union> next_gen bs (set (k # ks))"
    using 2(4) 1(4) next_gen_marked [OF 1(3)] by (auto simp: next_gen_def)
  ultimately show ?case using 1(1) 2(1,2) by simp
qed

lemma mark_generations_effect:
  assumes "btree_ok bs" "set ks \<subseteq> dom (map_of bs)" "(next_gen bs ^^ m) (set ks) = {}"
  shows "\<exists>bs'. mark_generations bs ks = Some bs' \<and> btree_ok bs' \<and>
    map_of bs' = marked bs (\<Union>i<m. (next_gen bs ^^ i) (set ks))"
  using assms
proof (induction m arbitrary: bs ks)
  case 0
  then show ?case by (simp add: mark_generations.simps marked_def fun_eq_iff)
next
  case (Suc m)
  obtain bs1 cs where 1: "for_each mark_bad ks (bs, []) = Some (bs1, cs)" "btree_ok bs1"
      "map_of bs1 = marked bs (set ks)" "set cs = next_gen bs (set ks)"
    using for_each_mark_bad [OF Suc.prems(1,2), of "[]"] by auto
  have dom: "set cs \<subseteq> dom (map_of bs1)" using next_gen_dom [of bs] by (simp add: 1(3,4))
  have gen: "next_gen bs1 = next_gen bs" by (rule next_gen_marked [OF 1(3)])
  have "(next_gen bs1 ^^ m) (set cs) = {}" using Suc.prems(3) by (simp add: gen 1(4) funpow_swap1)
  from Suc.IH [OF 1(2) dom this] obtain bs2 where 2: "mark_generations bs1 cs = Some bs2" "btree_ok bs2"
      "map_of bs2 = marked bs1 (\<Union>i<m. (next_gen bs1 ^^ i) (set cs))" by blast
  have "(\<Union>i<Suc m. (next_gen bs ^^ i) (set ks)) = set ks \<union> (\<Union>i<m. (next_gen bs ^^ i) (set cs))"
    by (simp add: lessThan_Suc_eq_insert_0 1(4) image_image funpow_swap1)
  then have m: "map_of bs2 = marked bs (\<Union>i<Suc m. (next_gen bs ^^ i) (set ks))"
    by (simp only: 2(3) marked_marked [OF 1(3)] gen)
  show ?case
  proof (cases "ks = []")
    case True
    then have "set ks = {}" by simp
    have "(next_gen bs ^^ i) {} = {}" for i by (induction i) simp_all
    with True Suc.prems(1) show ?thesis by (simp add: mark_generations.simps [of bs "[]"] marked_def fun_eq_iff)
  next
    case False
    with 1(1) 2 m show ?thesis by (subst mark_generations.simps) simp
  qed
qed

lemma set_block_bad_effect:
  assumes "btree_ok bs" "(h, x) \<in> dom (map_of bs)" "length bs < 2 ^ 64"
  shows "\<exists>bs'. set_block_bad bs h x = Some bs' \<and> btree_ok bs' \<and>
    map_of bs' = marked bs {k. descends bs (h, x) k}"
proof -
  obtain m where m: "(next_gen bs ^^ m) {(h, x)} = {}" using gen_empty [OF assms(2,3)] by blast
  have later: "(next_gen bs ^^ i) {(h, x)} = {}" if "m \<le> i" for i
    using that by (induction rule: dec_induct) (simp_all add: m)
  have "{k. descends bs (h, x) k} = (\<Union>i<m. (next_gen bs ^^ i) {(h, x)})"
    unfolding descends_iff using later by (auto simp: not_less [symmetric])
  with mark_generations_effect [OF assms(1), of "[(h, x)]" m] assms(2) m show ?thesis
    by (simp add: set_block_bad_def)
qed

text \<open>Whatever the number of blocks, marking keeps the keys and the order of the map.\<close>

lemma for_each_mark_bad_keeps:
  "for_each mark_bad ks (bs, cs) = Some (bs', cs') \<Longrightarrow> btree_ok bs \<Longrightarrow> btree_ok bs' \<and> dom (map_of bs') = dom (map_of bs)"
proof (induction ks arbitrary: bs cs)
  case (Cons k ks)
  then obtain bs1 cs1 where 1: "mark_bad k (bs, cs) = Some (bs1, cs1)" "for_each mark_bad ks (bs1, cs1) = Some (bs', cs')"
    by (auto simp: bind_eq_Some_conv)
  then have "k \<in> dom (map_of bs)" by (auto simp: mark_bad_def split: prod.splits)
  from mark_bad_effect [OF Cons.prems(2) this, of cs] 1(1) have "btree_ok bs1" "map_of bs1 = marked bs {k}" by auto
  with Cons.IH [OF 1(2)] show ?case by simp
qed simp

lemma mark_generations_keeps:
  "mark_generations bs ks = Some bs' \<Longrightarrow> btree_ok bs \<Longrightarrow> btree_ok bs' \<and> dom (map_of bs') = dom (map_of bs)"
proof (induction rule: mark_generations.raw_induct [rotated 1, consumes 1, case_names step])
  case (step f bs ks bs')
  show ?case
  proof (cases "ks = []")
    case True
    with step show ?thesis by simp
  next
    case False
    with step.hyps obtain bs1 cs where 1: "for_each mark_bad ks (bs, []) = Some (bs1, cs)" "f bs1 cs = Some bs'"
      by (auto simp: bind_eq_Some_conv)
    with for_each_mark_bad_keeps [OF 1(1) step.prems] step.IH [OF 1(2)] show ?thesis by simp
  qed
qed

lemma set_parent_hash_keeps:
  assumes "set_parent_hash bs h x p = Some bs'" "btree_ok bs"
  shows "btree_ok bs' \<and> dom (map_of bs') = dom (map_of bs)"
proof -
  obtain b where b: "map_of bs (h, x) = Some b" using assms(1) by (auto simp: set_parent_hash_def Let_def bind_eq_Some_conv)
  define bs1 where "bs1 = (case parent_hash b of None \<Rightarrow> btree_insert (h, x) (b\<lparr>parent_hash := Some p\<rparr>) bs | Some _ \<Rightarrow> bs)"
  have bs1: "btree_ok bs1 \<and> dom (map_of bs1) = dom (map_of bs)"
    using assms(2) b by (simp add: bs1_def insert_absorb domI split: option.split)
  have "bs' = bs1 \<or> set_block_bad bs1 h x = Some bs'"
    using assms(1) b by (cases "parent_hash b") (auto simp: set_parent_hash_def Let_def bs1_def split: if_splits)
  with mark_generations_keeps [of bs1 "[(h, x)]" bs'] bs1 show ?thesis by (auto simp: set_block_bad_def)
qed

lemma disjoint_insert_keeps:
  assumes "btree_ok bs"
  shows "btree_ok (snd (disjoint_insert bs h x p d))"
    and "dom (map_of (snd (disjoint_insert bs h x p d))) = insert (h, x) (dom (map_of bs))"
  using assms by (auto simp: disjoint_insert_def Let_def split: option.split)

lemma user_data_mut_keeps:
  assumes "disjoint_user_data_mut bs h x f = Some bs'" "btree_ok bs"
  shows "btree_ok bs'" "dom (map_of bs') = dom (map_of bs)"
  using assms by (auto simp: disjoint_user_data_mut_def split: if_splits)

lemma disjoint_remove_keeps:
  assumes "disjoint_remove bs h x = Some (d, bs')" "btree_ok bs"
  shows "btree_ok bs'" "dom (map_of bs') \<subseteq> dom (map_of bs)"
  using assms by (auto simp: disjoint_remove_def split: if_splits)

lemma remove_below_height_keeps:
  assumes "btree_ok bs"
  shows "btree_ok (snd (remove_below_height bs n))"
    and "dom (map_of (snd (remove_below_height bs n))) = {k \<in> dom (map_of bs). n \<le> fst k}"
proof -
  let ?bs = "filter (\<lambda>(k, _). (n, 0) \<le> k) bs"
  show "btree_ok (snd (remove_below_height bs n))" using assms by (simp add: remove_below_height_def Let_def)
  show "dom (map_of (snd (remove_below_height bs n))) = {k \<in> dom (map_of bs). n \<le> fst k}"
    by (force simp: remove_below_height_def Let_def dom_map_of_conv_image_fst less_eq_prod_def)
qed

section \<open>Unknown blocks\<close>

lemma set_merge_by_height [simp]: "set (merge_by_height xs ys) = set xs \<union> set ys"
  by (induction xs ys rule: merge_by_height.induct) auto







section \<open>A sample\<close>

text \<open>Blocks 10, 20 and 30 of heights 1, 2 and 3, each the child of the one before.\<close>

definition sample_blocks :: "string disjoint_blocks" where
  "sample_blocks = snd (disjoint_insert (snd (disjoint_insert (snd (disjoint_insert disjoint_new
     1 10 None ''a'')) 3 30 (Some 20) ''c'')) 2 20 (Some 10) ''b'')"

lemma sample_blocks_eq: "sample_blocks =
  [((1, 10), \<lparr>parent_hash = None, bad = False, disjoint_data = ''a''\<rparr>),
   ((2, 20), \<lparr>parent_hash = Some 10, bad = False, disjoint_data = ''b''\<rparr>),
   ((3, 30), \<lparr>parent_hash = Some 20, bad = False, disjoint_data = ''c''\<rparr>)]"
  by (simp add: sample_blocks_def disjoint_insert_def disjoint_new_def known_bad_def checked_pred_def Let_def)

lemma sample_blocks_ok: "btree_ok sample_blocks" "(1, 10) \<in> dom (map_of sample_blocks)" "length sample_blocks < 2 ^ 64"
  by (simp_all add: sample_blocks_eq btree_ok_def)

section \<open>Properties\<close>

text \<open>
  C6: \<^verbatim>\<open>set_block_bad\<close> ends, and marks as bad exactly the block and its descendants; nothing else
  changes.
\<close>

theorem set_block_bad_marks_descendants:
  assumes "btree_ok bs" "(h, x) \<in> dom (map_of bs)" "length bs < 2 ^ 64"
  shows "\<exists>bs'. set_block_bad bs h x = Some bs' \<and>
    (\<forall>k. map_of bs' k =
      (if descends bs (h, x) k then map_option (\<lambda>b. b\<lparr>bad := True\<rparr>) (map_of bs k) else map_of bs k))"
  using set_block_bad_effect [OF assms] by (auto simp: marked_def)

theorem set_block_bad_marks_descendants_witness:
  "\<exists>bs'. set_block_bad sample_blocks 1 10 = Some bs' \<and>
    (\<forall>k. map_of bs' k =
      (if descends sample_blocks (1, 10) k
       then map_option (\<lambda>b. b\<lparr>bad := True\<rparr>) (map_of sample_blocks k) else map_of sample_blocks k))"
  by (rule set_block_bad_marks_descendants [OF sample_blocks_ok])

text \<open>
  C36: inserting a block below a bad one marks it as bad, but not the blocks of the collection that
  are its children, although the collection promises that all the descendants of a bad block are bad.
\<close>

theorem insert_leaves_children_good:
  assumes "map_of bs (h, x) = None" "h \<noteq> 0" "map_of bs (h - 1, p) = Some b" "bad b"
    and "map_of bs (h + 1, y) = Some c" "parent_hash c = Some x" "\<not> bad c"
  shows "is_bad (snd (disjoint_insert bs h x (Some p) d)) h x = Some True \<and>
    is_bad (snd (disjoint_insert bs h x (Some p) d)) (h + 1) y = Some False \<and>
    child_of (snd (disjoint_insert bs h x (Some p) d)) (h, x) (h + 1, y)"
  using assms by (simp add: disjoint_insert_def known_bad_def checked_pred_def is_bad_def child_of_def)

theorem insert_leaves_children_good_witness:
  "\<exists>bs. set_block_bad (snd (disjoint_insert disjoint_new 1 10 None ''a'')) 1 10 = Some bs \<and>
    is_bad (snd (disjoint_insert (snd (disjoint_insert bs 3 30 (Some 20) ''c'')) 2 20 (Some 10) ''b'')) 2 20 = Some True \<and>
    is_bad (snd (disjoint_insert (snd (disjoint_insert bs 3 30 (Some 20) ''c'')) 2 20 (Some 10) ''b'')) 3 30 = Some False"
proof -
  define bs where "bs = [((1 :: u64, 10 :: block_hash), \<lparr>parent_hash = None, bad = True, disjoint_data = ''a''\<rparr>)]"
  have "set_block_bad (snd (disjoint_insert disjoint_new 1 10 None ''a'')) 1 10 = Some bs"
    by (simp add: set_block_bad_def mark_generations.simps mark_bad_def children_at_def btree_range_def
        disjoint_insert_def disjoint_new_def known_bad_def checked_pred_def bs_def)
  moreover have "map_of (snd (disjoint_insert bs 3 30 (Some 20) ''c'')) =
      [(3, 30) \<mapsto> \<lparr>parent_hash = Some 20, bad = False, disjoint_data = ''c''\<rparr>,
       (1, 10) \<mapsto> \<lparr>parent_hash = None, bad = True, disjoint_data = ''a''\<rparr>]"
    by (simp add: disjoint_insert_def known_bad_def checked_pred_def bs_def)
  ultimately show ?thesis
    using insert_leaves_children_good [of "snd (disjoint_insert bs 3 30 (Some 20) ''c'')" 2 20 10 _ 30 _ "''b''"]
    by auto
qed



end
