(* ===== verification/Pending_Blocks.thy ===== *)
theory Pending_Blocks
  imports Sources_Props Disjoint_Props
begin

text \<open>
  The blocks that are waiting to be verified, their sources and the requests in progress, of
  \<^verbatim>\<open>src/sync/all_forks/pending_blocks.rs\<close>. Requests are in a slab: a partial map from
  identifiers of 64 bits, with the vacant identifier that the slab picks as an argument. \<open>None\<close> as the
  result of an operation is a panic.
\<close>

section \<open>State\<close>

datatype unverified_block_state = HeightHashKnown | HeaderKnown block_hash | HeaderBodyKnown block_hash

definition state_parent_hash :: "unverified_block_state \<Rightarrow> block_hash option" where
  "state_parent_hash st = (case st of
      HeightHashKnown \<Rightarrow> None
    | HeaderKnown ph \<Rightarrow> Some ph
    | HeaderBodyKnown ph \<Rightarrow> Some ph)"

type_synonym request_id = u64

record request_params =
  first_block_height :: u64
  first_block_hash :: block_hash
  request_num_blocks :: u64

record desired_request =
  desired_source_id :: source_id
  desired_params :: request_params

record 'b unverified_block =
  block_state :: unverified_block_state
  unverified_data :: 'b

record 'r request =
  detail :: request_params
  request_source_id :: source_id
  request_data :: 'r

record ('b, 'r, 's) pending_blocks =
  pb_sources :: "'s all_forks_sources"
  pb_blocks :: "'b unverified_block disjoint_blocks"
  verify_bodies :: bool
  blocks_requests :: "(u64 \<times> block_hash \<times> request_id) list"
  requested_blocks :: "(request_id \<times> u64 \<times> block_hash) list"
  source_occupations :: "(source_id \<times> request_id) list"
  requests :: "request_id \<rightharpoonup> 'r request"
  max_requests_per_block :: nat

definition pending_blocks_new :: "u64 \<Rightarrow> bool \<Rightarrow> u32 \<Rightarrow> ('b, 'r, 's) pending_blocks" where
  "pending_blocks_new height bodies max_requests =
     \<lparr>pb_sources = sources_new height, pb_blocks = disjoint_new, verify_bodies = bodies,
      blocks_requests = [], requested_blocks = [], source_occupations = [], requests = Map.empty,
      max_requests_per_block = unat max_requests\<rparr>"

section \<open>Sources\<close>

definition pb_add_source ::
    "('b, 'r, 's) pending_blocks \<Rightarrow> 's \<Rightarrow> u64 \<Rightarrow> block_hash \<Rightarrow> source_id \<times> ('b, 'r, 's) pending_blocks" where
  "pb_add_source pb data number hash =
     (let (i, s) = add_source (pb_sources pb) number hash data in (i, pb\<lparr>pb_sources := s\<rparr>))"

text \<open>The body of the loop of \<^verbatim>\<open>remove_source\<close>, for one request of the source.\<close>

definition drop_request ::
    "source_id \<Rightarrow> request_id \<Rightarrow> ('b, 'r, 's) pending_blocks \<times> (request_id \<times> request_params \<times> 'r) list \<Rightarrow>
     (('b, 'r, 's) pending_blocks \<times> (request_id \<times> request_params \<times> 'r) list) option" where
  "drop_request i r = (\<lambda>(pb, pending).
     map_option (\<lambda>rq.
       (pb\<lparr>requests := (requests pb)(r := None),
           source_occupations := btset_remove (i, r) (source_occupations pb),
           blocks_requests := btset_remove (first_block_height (detail rq), first_block_hash (detail rq), r) (blocks_requests pb),
           requested_blocks := btset_remove (r, first_block_height (detail rq), first_block_hash (detail rq)) (requested_blocks pb)\<rparr>,
        pending @ [(r, detail rq, request_data rq)]))
     (requests pb r))"

definition remove_source ::
    "('b, 'r, 's) pending_blocks \<Rightarrow> source_id \<Rightarrow>
     (('s \<times> (request_id \<times> request_params \<times> 'r) list) \<times> ('b, 'r, 's) pending_blocks) option" where
  "remove_source pb i =
     Option.bind (sources_remove (pb_sources pb) i) (\<lambda>(data, s).
       let pb = pb\<lparr>pb_sources := s\<rparr>;
           entries = btset_range (i, 0) (i, - 1) (source_occupations pb)
       in map_option (\<lambda>(pb, pending). ((data, pending), pb))
            (for_each (\<lambda>(_, r). drop_request i r) entries (pb, [])))"

definition pb_sources_list :: "('b, 'r, 's) pending_blocks \<Rightarrow> source_id list" where
  "pb_sources_list pb = sources_keys (pb_sources pb)"

definition add_known_block_to_source ::
    "('b, 'r, 's) pending_blocks \<Rightarrow> source_id \<Rightarrow> u64 \<Rightarrow> block_hash \<Rightarrow> ('b, 'r, 's) pending_blocks" where
  "add_known_block_to_source pb i height hash = pb\<lparr>pb_sources := add_known_block (pb_sources pb) i height hash\<rparr>"

definition remove_known_block_of_source ::
    "('b, 'r, 's) pending_blocks \<Rightarrow> source_id \<Rightarrow> u64 \<Rightarrow> block_hash \<Rightarrow> ('b, 'r, 's) pending_blocks" where
  "remove_known_block_of_source pb i height hash =
     pb\<lparr>pb_sources := source_remove_known_block (pb_sources pb) i height hash\<rparr>"

definition add_known_block_to_source_and_set_best ::
    "('b, 'r, 's) pending_blocks \<Rightarrow> source_id \<Rightarrow> u64 \<Rightarrow> block_hash \<Rightarrow> ('b, 'r, 's) pending_blocks option" where
  "add_known_block_to_source_and_set_best pb i height hash =
     map_option (\<lambda>s. pb\<lparr>pb_sources := s\<rparr>) (add_known_block_and_set_best (pb_sources pb) i height hash)"

definition source_num_ongoing_requests :: "('b, 'r, 's) pending_blocks \<Rightarrow> source_id \<Rightarrow> nat" where
  "source_num_ongoing_requests pb i = length (btset_range (i, 0) (i, - 1) (source_occupations pb))"

definition remove_sources_known_block :: "('b, 'r, 's) pending_blocks \<Rightarrow> u64 \<Rightarrow> block_hash \<Rightarrow> ('b, 'r, 's) pending_blocks" where
  "remove_sources_known_block pb height hash = pb\<lparr>pb_sources := remove_known_block (pb_sources pb) height hash\<rparr>"

section \<open>Blocks\<close>

definition pb_set_finalized_block_height ::
    "('b, 'r, 's) pending_blocks \<Rightarrow> u64 \<Rightarrow> ('b list \<times> ('b, 'r, 's) pending_blocks) option" where
  "pb_set_finalized_block_height pb height =
     map_option (\<lambda>s.
       let (removed, bs) = remove_below_height (pb_blocks pb) (height + 1)
       in (map (\<lambda>(_, _, bl). unverified_data bl) removed, pb\<lparr>pb_sources := s, pb_blocks := bs\<rparr>))
     (set_finalized_block_height (pb_sources pb) height)"

definition insert_unverified_block ::
    "('b, 'r, 's) pending_blocks \<Rightarrow> u64 \<Rightarrow> block_hash \<Rightarrow> unverified_block_state \<Rightarrow> 'b \<Rightarrow>
     ('b \<times> unverified_block_state) option \<times> ('b, 'r, 's) pending_blocks" where
  "insert_unverified_block pb height hash st data =
     (if height \<le> finalized_block_height (pb_sources pb) then (None, pb)
      else
        let (old, bs) = disjoint_insert (pb_blocks pb) height hash (state_parent_hash st)
              \<lparr>block_state = st, unverified_data = data\<rparr>
        in (map_option (\<lambda>b. (unverified_data b, block_state b)) old, pb\<lparr>pb_blocks := bs\<rparr>))"

definition contains_unverified_block :: "('b, 'r, 's) pending_blocks \<Rightarrow> u64 \<Rightarrow> block_hash \<Rightarrow> bool" where
  "contains_unverified_block pb height hash = disjoint_contains (pb_blocks pb) height hash"

definition unverified_block_user_data :: "('b, 'r, 's) pending_blocks \<Rightarrow> u64 \<Rightarrow> block_hash \<Rightarrow> 'b option" where
  "unverified_block_user_data pb height hash = map_option unverified_data (disjoint_user_data (pb_blocks pb) height hash)"

definition unverified_block_user_data_mut ::
    "('b, 'r, 's) pending_blocks \<Rightarrow> u64 \<Rightarrow> block_hash \<Rightarrow> ('b \<Rightarrow> 'b) \<Rightarrow> ('b, 'r, 's) pending_blocks option" where
  "unverified_block_user_data_mut pb height hash f =
     map_option (\<lambda>bs. pb\<lparr>pb_blocks := bs\<rparr>)
       (disjoint_user_data_mut (pb_blocks pb) height hash (\<lambda>ub. ub\<lparr>unverified_data := f (unverified_data ub)\<rparr>))"

definition set_state :: "unverified_block_state \<Rightarrow> 'b unverified_block \<Rightarrow> 'b unverified_block" where
  "set_state st ub = ub\<lparr>block_state := st\<rparr>"

definition set_unverified_block_state ::
    "('b, 'r, 's) pending_blocks \<Rightarrow> u64 \<Rightarrow> block_hash \<Rightarrow> unverified_block_state \<Rightarrow> ('b, 'r, 's) pending_blocks option" where
  "set_unverified_block_state pb height hash st =
     Option.bind (case state_parent_hash st of
         Some ph \<Rightarrow> set_parent_hash (pb_blocks pb) height hash ph
       | None \<Rightarrow> Some (pb_blocks pb)) (\<lambda>bs.
     map_option (\<lambda>bs. pb\<lparr>pb_blocks := bs\<rparr>) (disjoint_user_data_mut bs height hash (set_state st)))"

text \<open>The end of the two functions that learn the header of a block.\<close>

definition learn_header ::
    "('b, 'r, 's) pending_blocks \<Rightarrow> u64 \<Rightarrow> block_hash \<Rightarrow> block_hash \<Rightarrow> unverified_block_state \<Rightarrow>
     ('b, 'r, 's) pending_blocks option" where
  "learn_header pb height hash ph st =
     Option.bind (disjoint_user_data_mut (pb_blocks pb) height hash (set_state st)) (\<lambda>bs.
     map_option (\<lambda>bs. pb\<lparr>pb_blocks := bs\<rparr>) (set_parent_hash bs height hash ph))"

definition set_unverified_block_header_known ::
    "('b, 'r, 's) pending_blocks \<Rightarrow> u64 \<Rightarrow> block_hash \<Rightarrow> block_hash \<Rightarrow> ('b, 'r, 's) pending_blocks option" where
  "set_unverified_block_header_known pb height hash ph =
     Option.bind (disjoint_user_data (pb_blocks pb) height hash) (\<lambda>ub.
       case block_state ub of
         HeaderKnown cur_ph \<Rightarrow> if cur_ph = ph then Some pb else None
       | HeaderBodyKnown cur_ph \<Rightarrow> if cur_ph = ph then Some pb else None
       | HeightHashKnown \<Rightarrow> learn_header pb height hash ph (HeaderKnown ph))"

definition set_unverified_block_header_body_known ::
    "('b, 'r, 's) pending_blocks \<Rightarrow> u64 \<Rightarrow> block_hash \<Rightarrow> block_hash \<Rightarrow> ('b, 'r, 's) pending_blocks option" where
  "set_unverified_block_header_body_known pb height hash ph =
     Option.bind (disjoint_user_data (pb_blocks pb) height hash) (\<lambda>ub.
       case block_state ub of
         HeaderKnown cur_ph \<Rightarrow> if cur_ph = ph then learn_header pb height hash ph (HeaderBodyKnown ph) else None
       | HeaderBodyKnown cur_ph \<Rightarrow> if cur_ph = ph then Some pb else None
       | HeightHashKnown \<Rightarrow> learn_header pb height hash ph (HeaderBodyKnown ph))"

definition remove_unverified_block ::
    "('b, 'r, 's) pending_blocks \<Rightarrow> u64 \<Rightarrow> block_hash \<Rightarrow> ('b \<times> ('b, 'r, 's) pending_blocks) option" where
  "remove_unverified_block pb height hash =
     map_option (\<lambda>(ub, bs). (unverified_data ub, pb\<lparr>pb_blocks := bs\<rparr>)) (disjoint_remove (pb_blocks pb) height hash)"

definition mark_unverified_block_as_bad ::
    "('b, 'r, 's) pending_blocks \<Rightarrow> u64 \<Rightarrow> block_hash \<Rightarrow> ('b, 'r, 's) pending_blocks option" where
  "mark_unverified_block_as_bad pb height hash =
     map_option (\<lambda>bs. pb\<lparr>pb_blocks := bs\<rparr>) (set_block_bad (pb_blocks pb) height hash)"

definition unverified_leaves :: "('b, 'r, 's) pending_blocks \<Rightarrow> tree_root list option" where
  "unverified_leaves pb =
     filter_option (\<lambda>pending.
       map_option (\<lambda>ub. case block_state ub of
           HeightHashKnown \<Rightarrow> False
         | HeaderKnown _ \<Rightarrow> \<not> verify_bodies pb
         | HeaderBodyKnown _ \<Rightarrow> True)
       (disjoint_user_data (pb_blocks pb) (block_number pending) (tree_root.block_hash pending)))
     (good_tree_roots (pb_blocks pb))"

definition unnecessary_unverified_blocks :: "('b, 'r, 's) pending_blocks \<Rightarrow> (u64 \<times> block_hash) list" where
  "unnecessary_unverified_blocks pb =
     (let bs = pb_blocks pb;
          bad_parent_iter = filter (\<lambda>(height, hash, _). is_parent_bad bs height hash = Some True) (disjoint_iter bs);
          parent_known_iter = filter (\<lambda>(height, hash, _).
            case (checked_pred height, disjoint_parent_hash bs height hash) of
              (Some n, Some h) \<Rightarrow> disjoint_contains bs n h
            | _ \<Rightarrow> False) (disjoint_iter bs);
          bad_iter = filter (\<lambda>(height, hash, _). is_parent_bad bs height hash \<noteq> Some True)
            (filter (\<lambda>(height, hash, _). is_bad bs height hash = Some True) (disjoint_iter bs))
      in filter (\<lambda>(height, hash).
           \<not> list_ex (\<lambda>i. source_best_block (pb_sources pb) i = Some (height, hash)) (sources_keys (pb_sources pb)))
         (map (\<lambda>(height, hash, _). (height, hash)) (bad_parent_iter @ parent_known_iter @ bad_iter)))"

section \<open>Requests\<close>

text \<open>The loop of \<^verbatim>\<open>add_request\<close> from a block to its known ancestors.\<close>

partial_function (option) add_request_blocks ::
    "'x disjoint_blocks \<Rightarrow> request_id \<Rightarrow> block_id \<Rightarrow>
     (u64 \<times> block_hash \<times> request_id) list \<times> (request_id \<times> u64 \<times> block_hash) list \<Rightarrow>
     ((u64 \<times> block_hash \<times> request_id) list \<times> (request_id \<times> u64 \<times> block_hash) list) option" where
  "add_request_blocks bs r iter st =
     (let st = (btset_insert (fst iter, snd iter, r) (fst st), btset_insert (r, fst iter, snd iter) (snd st))
      in case disjoint_parent_hash bs (fst iter) (snd iter) of
           Some p \<Rightarrow> add_request_blocks bs r (fst iter - 1, p) st
         | None \<Rightarrow> Some st)"

definition add_request ::
    "request_id \<Rightarrow> ('b, 'r, 's) pending_blocks \<Rightarrow> source_id \<Rightarrow> request_params \<Rightarrow> 'r \<Rightarrow>
     (request_id \<times> ('b, 'r, 's) pending_blocks) option" where
  "add_request r pb i params data =
     (if \<not> sources_contains (pb_sources pb) i then None
      else
        let pb = pb\<lparr>requests := (requests pb)(r \<mapsto> \<lparr>detail = params, request_source_id = i, request_data = data\<rparr>),
                    source_occupations := btset_insert (i, r) (source_occupations pb)\<rparr>
        in map_option (\<lambda>(br, rb). (r, pb\<lparr>blocks_requests := br, requested_blocks := rb\<rparr>))
             (add_request_blocks (pb_blocks pb) r (first_block_height params, first_block_hash params)
               (blocks_requests pb, requested_blocks pb)))"

definition finish_request ::
    "('b, 'r, 's) pending_blocks \<Rightarrow> request_id \<Rightarrow> ((request_params \<times> source_id \<times> 'r) \<times> ('b, 'r, 's) pending_blocks) option" where
  "finish_request pb r =
     map_option (\<lambda>rq.
       let blocks_to_remove = btset_range (r, 0, 0) (r, - 1, - 1) (requested_blocks pb);
           (br, rb) = foldl (\<lambda>(br, rb) (r, height, hash).
             (btset_remove (height, hash, r) br, btset_remove (r, height, hash) rb))
             (blocks_requests pb, requested_blocks pb) blocks_to_remove
       in ((detail rq, request_source_id rq, request_data rq),
           pb\<lparr>requests := (requests pb)(r := None), blocks_requests := br, requested_blocks := rb,
              source_occupations := btset_remove (request_source_id rq, r) (source_occupations pb)\<rparr>))
     (requests pb r)"

definition request_source :: "('b, 'r, 's) pending_blocks \<Rightarrow> request_id \<Rightarrow> source_id option" where
  "request_source pb r = map_option request_source_id (requests pb r)"

text \<open>\<^verbatim>\<open>obsolete_requests\<close>, with the order in which the slab iterates as an argument.\<close>

definition obsolete_requests ::
    "((request_id \<rightharpoonup> 'r request) \<Rightarrow> request_id list) \<Rightarrow> ('b, 'r, 's) pending_blocks \<Rightarrow> (request_id \<times> 'r) list" where
  "obsolete_requests keys pb =
     List.map_filter (\<lambda>r. Option.bind (requests pb r) (\<lambda>rq.
       if first_block_height (detail rq) \<le> finalized_block_height (pb_sources pb) then Some (r, request_data rq) else None))
     (keys (requests pb))"

section \<open>Desired requests\<close>

text \<open>The requests that concern a block.\<close>

definition requests_of_block :: "('b, 'r, 's) pending_blocks \<Rightarrow> u64 \<Rightarrow> block_hash \<Rightarrow> request_id list" where
  "requests_of_block pb height hash =
     map (\<lambda>(_, _, r). r) (btset_range (height, hash, 0) (height, hash, - 1) (blocks_requests pb))"

definition wanted_blocks :: "('b, 'r, 's) pending_blocks \<Rightarrow> block_id list" where
  "wanted_blocks pb =
     (let unknown_body_iter =
            (if verify_bodies pb
             then map (\<lambda>(height, hash, _). (height, hash))
                    (filter (\<lambda>(_, _, ub). case block_state ub of HeaderKnown _ \<Rightarrow> True | _ \<Rightarrow> False) (disjoint_iter (pb_blocks pb)))
             else []);
          unknown_header_iter =
            filter (\<lambda>(height, _). height > finalized_block_height (pb_sources pb)) (unknown_blocks (pb_blocks pb))
      in filter (\<lambda>(height, hash). length (requests_of_block pb height hash) < max_requests_per_block pb)
           (unknown_body_iter @ unknown_header_iter))"

text \<open>\<^verbatim>\<open>flat_map\<close> with a closure that can panic.\<close>

fun flat_map_option :: "('x \<Rightarrow> 'y list option) \<Rightarrow> 'x list \<Rightarrow> 'y list option" where
  "flat_map_option f [] = Some []"
| "flat_map_option f (x # xs) = Option.bind (f x) (\<lambda>ys. map_option ((@) ys) (flat_map_option f xs))"

definition no_request_to :: "('b, 'r, 's) pending_blocks \<Rightarrow> u64 \<Rightarrow> block_hash \<Rightarrow> source_id \<Rightarrow> bool option" where
  "no_request_to pb height hash i =
     all_option (\<lambda>r. map_option (\<lambda>rq. request_source_id rq \<noteq> i) (requests pb r)) (requests_of_block pb height hash)"

definition desired_of_block ::
    "('b, 'r, 's) pending_blocks \<Rightarrow> source_id option \<Rightarrow> block_id \<Rightarrow> desired_request list option" where
  "desired_of_block pb force_source = (\<lambda>(height, hash).
     Option.bind (case force_source of
         Some i \<Rightarrow> map_option (\<lambda>k. if k then [i] else []) (source_knows_non_finalized_block (pb_sources pb) i height hash)
       | None \<Rightarrow> knows_non_finalized_block (pb_sources pb) height hash) (\<lambda>possible_sources.
     Option.bind (filter_option (no_request_to pb height hash) possible_sources) (\<lambda>srcs.
       let n = height - finalized_block_height (pb_sources pb)
       in if n = 0 \<and> srcs \<noteq> [] then None
          else Some (map (\<lambda>i. \<lparr>desired_source_id = i,
                 desired_params = \<lparr>first_block_height = height, first_block_hash = hash, request_num_blocks = n\<rparr>\<rparr>) srcs))))"

definition desired_requests_inner :: "('b, 'r, 's) pending_blocks \<Rightarrow> source_id option \<Rightarrow> desired_request list option" where
  "desired_requests_inner pb force_source = flat_map_option (desired_of_block pb force_source) (wanted_blocks pb)"

definition desired_requests :: "('b, 'r, 's) pending_blocks \<Rightarrow> desired_request list option" where
  "desired_requests pb = desired_requests_inner pb None"

definition source_desired_requests :: "('b, 'r, 's) pending_blocks \<Rightarrow> source_id \<Rightarrow> request_params list option" where
  "source_desired_requests pb i = map_option (map desired_params) (desired_requests_inner pb (Some i))"

end
