(* ===== verification/Pending_Blocks_Props.thy ===== *)
theory Pending_Blocks_Props
  imports Pending_Blocks
begin

text \<open>
  The indexes of the requests in progress agree with each other, and the desired requests are those
  that the blocks and the sources call for.
\<close>

section \<open>Adding a request\<close>

text \<open>What the two indexes hold, as a relation between requests and blocks.\<close>

definition index_ok ::
    "(u64 \<times> block_hash \<times> request_id) list \<times> (request_id \<times> u64 \<times> block_hash) list \<Rightarrow> bool" where
  "index_ok st \<longleftrightarrow> btset_ok (fst st) \<and> btset_ok (snd st) \<and>
     (\<forall>h x r. (h, x, r) \<in> set (fst st) \<longleftrightarrow> (r, h, x) \<in> set (snd st))"

lemma index_insert:
  "index_ok st \<Longrightarrow> index_ok (btset_insert (h, x, r) (fst st), btset_insert (r, h, x) (snd st))"
  by (auto simp: index_ok_def)

lemma index_remove:
  "index_ok st \<Longrightarrow> index_ok (btset_remove (h, x, r) (fst st), btset_remove (r, h, x) (snd st))"
  by (auto simp: index_ok_def)

lemma add_request_blocks_effect:
  "add_request_blocks bs r iter st = Some st' \<Longrightarrow> index_ok st \<Longrightarrow>
     index_ok st' \<and> (fst iter, snd iter, r) \<in> set (fst st') \<and> set (fst st) \<subseteq> set (fst st') \<and>
     (\<forall>h x r'. (h, x, r') \<in> set (fst st') \<longrightarrow> (h, x, r') \<in> set (fst st) \<or> r' = r)"
proof (induction rule: add_request_blocks.raw_induct [rotated 1, consumes 1, case_names step])
  case (step f bs r iter st st')
  define st1 where "st1 = (btset_insert (fst iter, snd iter, r) (fst st), btset_insert (r, fst iter, snd iter) (snd st))"
  have ok: "index_ok st1" unfolding st1_def by (rule index_insert [OF step.prems])
  have set1: "set (fst st1) = insert (fst iter, snd iter, r) (set (fst st))" by (simp add: st1_def)
  show ?case
  proof (cases "disjoint_parent_hash bs (fst iter) (snd iter)")
    case None
    with step.hyps have "st' = st1" by (simp add: st1_def)
    with ok set1 show ?thesis by auto
  next
    case (Some p)
    with step.hyps have "f bs r (fst iter - 1, p) st1 = Some st'" by (simp add: st1_def)
    from step.IH [OF this ok] set1 show ?thesis by (simp, blast)
  qed
qed

text \<open>The known ancestors of a block; there are at most as many as blocks.\<close>

primrec ancestor :: "'x disjoint_blocks \<Rightarrow> block_id \<Rightarrow> nat \<Rightarrow> block_id option" where
  "ancestor bs k 0 = Some k"
| "ancestor bs k (Suc i) =
     Option.bind (ancestor bs k i) (\<lambda>k. map_option (Pair (fst k - 1)) (disjoint_parent_hash bs (fst k) (snd k)))"

lemma ancestor_shift:
  "disjoint_parent_hash bs (fst k) (snd k) = Some p \<Longrightarrow> ancestor bs k (Suc i) = ancestor bs (fst k - 1, p) i"
  by (induction i) simp_all

lemma ancestor_height: "ancestor bs k i = Some k' \<Longrightarrow> fst k' = fst k - of_nat i"
  by (induction i arbitrary: k') (auto simp: bind_eq_Some_conv)

lemma ancestor_known: "ancestor bs k (Suc i) \<noteq> None \<Longrightarrow> \<exists>k'. ancestor bs k i = Some k' \<and> k' \<in> dom (map_of bs)"
  by (force simp: bind_eq_Some_conv disjoint_parent_hash_def)

lemma ancestors_end:
  assumes "length bs < 2 ^ 64"
  shows "\<exists>i. ancestor bs k i = None"
proof (rule ccontr)
  assume "\<nexists>i. ancestor bs k i = None"
  then have some: "ancestor bs k i = Some (the (ancestor bs k i))" for i by simp
  have dom: "the (ancestor bs k i) \<in> dom (map_of bs)" for i 
    using ancestor_known [of bs k i] some [of i] some [of "Suc i"] by (metis option.distinct(1) option.sel)
  have height: "fst (the (ancestor bs k i)) = fst k - of_nat i" for i by (rule ancestor_height [OF some])
  show False by (rule too_many_heights [OF assms dom, where c = "\<lambda>n. fst k - n"]) (simp_all add: height inj_def)
qed

lemma add_request_blocks_returns:
  assumes "length bs < 2 ^ 64"
  shows "\<exists>st'. add_request_blocks bs r k st = Some st'"
proof -
  obtain i where "ancestor bs k i = None" using ancestors_end [OF assms] by blast
  then show ?thesis
  proof (induction i arbitrary: k st)
    case (Suc i)
    show ?case
    proof (cases "disjoint_parent_hash bs (fst k) (snd k)")
      case None
      then show ?thesis by (simp add: add_request_blocks.simps [of bs r k])
    next
      case (Some p)
      from Suc.IH [of "(fst k - 1, p)"] Suc.prems ancestor_shift [of bs k p i, OF Some] Some show ?thesis
        by (simp add: add_request_blocks.simps [of bs r k])
    qed
  qed simp
qed

section \<open>The invariant\<close>

definition pb_ok :: "('b, 'r, 's) pending_blocks \<Rightarrow> bool" where
  "pb_ok pb \<longleftrightarrow> sources_ok (pb_sources pb) \<and> btree_ok (pb_blocks pb) \<and>
     dom (map_of (pb_blocks pb)) \<subseteq> {k. finalized_block_height (pb_sources pb) < fst k} \<and>
     index_ok (blocks_requests pb, requested_blocks pb) \<and> btset_ok (source_occupations pb) \<and>
     set (source_occupations pb) = {(i, r). request_source pb r = Some i}"

text \<open>Every request of the index is in progress. Removing a source does not keep this.\<close>

definition requests_live :: "('b, 'r, 's) pending_blocks \<Rightarrow> bool" where
  "requests_live pb \<longleftrightarrow> (\<forall>(h, x, r) \<in> set (blocks_requests pb). request_source pb r \<noteq> None)"

definition same_requests :: "('b, 'r, 's) pending_blocks \<Rightarrow> ('b, 'r, 's) pending_blocks \<Rightarrow> bool" where
  "same_requests pb pb' \<longleftrightarrow> blocks_requests pb' = blocks_requests pb \<and> requested_blocks pb' = requested_blocks pb \<and>
     source_occupations pb' = source_occupations pb \<and> requests pb' = requests pb"

lemma same_requests_live: "same_requests pb pb' \<Longrightarrow> requests_live pb \<Longrightarrow> requests_live pb'"
  by (simp add: same_requests_def requests_live_def request_source_def)

lemma same_requests_ok:
  "same_requests pb pb' \<Longrightarrow> pb_ok pb \<Longrightarrow> sources_ok (pb_sources pb') \<Longrightarrow> btree_ok (pb_blocks pb') \<Longrightarrow>
     dom (map_of (pb_blocks pb')) \<subseteq> {k. finalized_block_height (pb_sources pb') < fst k} \<Longrightarrow> pb_ok pb'"
  by (simp add: same_requests_def pb_ok_def request_source_def)

lemma pb_ok_parts:
  assumes "pb_ok pb"
  shows "sources_ok (pb_sources pb)" "btree_ok (pb_blocks pb)"
    "dom (map_of (pb_blocks pb)) \<subseteq> {k. finalized_block_height (pb_sources pb) < fst k}"
  using assms by (simp_all add: pb_ok_def)

text \<open>Operations on the sources, and on the blocks, that leave the height of the finalized block.\<close>

lemma sources_change_ok:
  assumes "pb_ok pb" "sources_ok s" "finalized_block_height s = finalized_block_height (pb_sources pb)"
  shows "pb_ok (pb\<lparr>pb_sources := s\<rparr>)" "same_requests pb (pb\<lparr>pb_sources := s\<rparr>)"
proof -
  show same: "same_requests pb (pb\<lparr>pb_sources := s\<rparr>)" by (simp add: same_requests_def)
  show "pb_ok (pb\<lparr>pb_sources := s\<rparr>)"
    by (rule same_requests_ok [OF same assms(1)]) (use assms pb_ok_parts [OF assms(1)] in simp_all)
qed

lemma blocks_change_ok:
  assumes "pb_ok pb" "btree_ok bs" "dom (map_of bs) \<subseteq> {k. finalized_block_height (pb_sources pb) < fst k}"
  shows "pb_ok (pb\<lparr>pb_blocks := bs\<rparr>)" "same_requests pb (pb\<lparr>pb_blocks := bs\<rparr>)"
proof -
  show same: "same_requests pb (pb\<lparr>pb_blocks := bs\<rparr>)" by (simp add: same_requests_def)
  show "pb_ok (pb\<lparr>pb_blocks := bs\<rparr>)"
    by (rule same_requests_ok [OF same assms(1)]) (use assms pb_ok_parts [OF assms(1)] in simp_all)
qed

lemma pending_blocks_new_ok: "pb_ok (pending_blocks_new height bodies n)" "requests_live (pending_blocks_new height bodies n)"
  using sources_new_ok [of height]
  by (simp_all add: pb_ok_def pending_blocks_new_def disjoint_new_def index_ok_def request_source_def requests_live_def)

section \<open>Requests\<close>

lemma add_request_ok:
  assumes "pb_ok pb" "requests pb r = None" "add_request r pb i params d = Some (r', pb')"
  shows "pb_ok pb' \<and> (requests_live pb \<longrightarrow> requests_live pb') \<and> r' = r \<and> request_source pb' = (request_source pb)(r \<mapsto> i) \<and>
    (first_block_height params, first_block_hash params, r) \<in> set (blocks_requests pb')"
proof -
  obtain br rb where add: "add_request_blocks (pb_blocks pb) r (first_block_height params, first_block_hash params)
      (blocks_requests pb, requested_blocks pb) = Some (br, rb)"
    and pb': "pb' = pb\<lparr>requests := (requests pb)(r \<mapsto> \<lparr>detail = params, request_source_id = i, request_data = d\<rparr>),
      source_occupations := btset_insert (i, r) (source_occupations pb), blocks_requests := br, requested_blocks := rb\<rparr>" and "r' = r"
    using assms(3) by (auto simp: add_request_def Let_def split: if_splits)
  have ix: "index_ok (blocks_requests pb, requested_blocks pb)" using assms(1) by (simp add: pb_ok_def)
  from add_request_blocks_effect [OF add ix]
  have e: "index_ok (br, rb)" "(first_block_height params, first_block_hash params, r) \<in> set br"
      "\<And>h x r'. (h, x, r') \<in> set br \<Longrightarrow> (h, x, r') \<in> set (blocks_requests pb) \<or> r' = r" by auto
  have src: "request_source pb' = (request_source pb)(r \<mapsto> i)" by (auto simp: pb' request_source_def)
  have "request_source pb r = None" using assms(2) by (simp add: request_source_def)
  then have occ: "set (source_occupations pb') = {(i, r). request_source pb' r = Some i}"
    using assms(1) by (auto simp: pb_ok_def src) (auto simp: pb' pb_ok_def)
  have "requests_live pb'" if "requests_live pb"
  proof -
    have "request_source pb' r' \<noteq> None" if "(h, x, r') \<in> set br" for h x r'
      using e(3) [OF that] \<open>requests_live pb\<close> by (auto simp: src requests_live_def)
    then show ?thesis by (auto simp: requests_live_def pb')
  qed
  moreover have "pb_ok pb'" using assms(1) e(1) occ unfolding pb_ok_def by (simp add: pb')
  ultimately show ?thesis using src e(2) \<open>r' = r\<close> by (simp add: pb')
qed

lemma add_request_returns:
  assumes "sources_contains (pb_sources pb) i" "length (pb_blocks pb) < 2 ^ 64"
  shows "add_request r pb i params d \<noteq> None"
proof -
  obtain st where "add_request_blocks (pb_blocks pb) r (first_block_height params, first_block_hash params)
      (blocks_requests pb, requested_blocks pb) = Some st"
    using add_request_blocks_returns [OF assms(2)] by blast
  with assms(1) show ?thesis by (auto simp: add_request_def Let_def)
qed

lemma remove_blocks_loop:
  assumes "index_ok st"
  shows "index_ok (foldl (\<lambda>(br, rb) (r, h, x). (btset_remove (h, x, r) br, btset_remove (r, h, x) rb)) st es) \<and>
    set (fst (foldl (\<lambda>(br, rb) (r, h, x). (btset_remove (h, x, r) br, btset_remove (r, h, x) rb)) st es)) =
      {(h, x, r). (h, x, r) \<in> set (fst st) \<and> (r, h, x) \<notin> set es}"
  using assms
proof (induction es arbitrary: st)
  case (Cons e es)
  obtain r h x where e: "e = (r, h, x)" by (metis prod_cases3)
  obtain br rb where st: "st = (br, rb)" by fastforce
  have "index_ok (btset_remove (h, x, r) br, btset_remove (r, h, x) rb)" using index_remove [OF Cons.prems] by (simp add: st)
  from Cons.IH [OF this] show ?case by (auto simp: e st)
qed auto

lemma finish_request_ok:
  assumes "pb_ok pb" "finish_request pb r = Some (res, pb')"
  shows "pb_ok pb' \<and> (requests_live pb \<longrightarrow> requests_live pb') \<and> request_source pb' = (request_source pb)(r := None) \<and>
    set (blocks_requests pb') = {(h, x, r'). (h, x, r') \<in> set (blocks_requests pb) \<and> r' \<noteq> r}"
proof -
  define es where "es = btset_range (r, 0, 0) (r, - 1, - 1) (requested_blocks pb)"
  define st where "st = foldl (\<lambda>(br, rb) (r, h, x). (btset_remove (h, x, r) br, btset_remove (r, h, x) rb))
    (blocks_requests pb, requested_blocks pb) es"
  obtain rq where rq: "requests pb r = Some rq"
    and pb': "pb' = pb\<lparr>requests := (requests pb)(r := None), blocks_requests := fst st, requested_blocks := snd st,
      source_occupations := btset_remove (request_source_id rq, r) (source_occupations pb)\<rparr>"
    using assms(2) by (cases st) (auto simp: finish_request_def Let_def es_def [symmetric] st_def [symmetric])
  have ix: "index_ok (blocks_requests pb, requested_blocks pb)" using assms(1) by (simp add: pb_ok_def)
  note loop = remove_blocks_loop [OF ix, of es, folded st_def]
  have es: "(r', h, x) \<in> set es \<longleftrightarrow> r' = r \<and> (h, x, r) \<in> set (blocks_requests pb)" for r' h x
    using ix by (auto simp: es_def index_ok_def less_eq_prod_def)
  have br: "set (blocks_requests pb') = {(h, x, r'). (h, x, r') \<in> set (blocks_requests pb) \<and> r' \<noteq> r}"
    using loop by (auto simp: pb' es)
  have src: "request_source pb' = (request_source pb)(r := None)" by (auto simp: pb' request_source_def)
  have "request_source pb r = Some (request_source_id rq)" using rq by (simp add: request_source_def)
  then have occ: "set (source_occupations pb') = {(i, r). request_source pb' r = Some i}"
    using assms(1) by (auto simp: pb_ok_def src) (auto simp: pb' pb_ok_def)
  have "requests_live pb'" if "requests_live pb" using that unfolding requests_live_def br src by auto
  moreover have "pb_ok pb'" using assms(1) loop occ unfolding pb_ok_def by (simp add: pb')
  ultimately show ?thesis using src br by blast
qed

text \<open>Removing a source drops its requests, one after the other.\<close>

lemma drop_request_ok:
  assumes "pb_ok pb" "request_source pb r = Some i"
  shows "\<exists>pb' p. drop_request i r (pb, acc) = Some (pb', acc @ [p]) \<and> fst p = r \<and> pb_ok pb' \<and>
    request_source pb' = (request_source pb)(r := None)"
proof -
  obtain rq where rq: "requests pb r = Some rq" "request_source_id rq = i" using assms(2) by (auto simp: request_source_def)
  define pb' where "pb' = pb\<lparr>requests := (requests pb)(r := None),
     source_occupations := btset_remove (i, r) (source_occupations pb),
     blocks_requests := btset_remove (first_block_height (detail rq), first_block_hash (detail rq), r) (blocks_requests pb),
     requested_blocks := btset_remove (r, first_block_height (detail rq), first_block_hash (detail rq)) (requested_blocks pb)\<rparr>"
  have ix: "index_ok (blocks_requests pb, requested_blocks pb)" using assms(1) by (simp add: pb_ok_def)
  have "index_ok (blocks_requests pb', requested_blocks pb')" using index_remove [OF ix] by (simp add: pb'_def)
  moreover have src: "request_source pb' = (request_source pb)(r := None)" by (auto simp: pb'_def request_source_def)
  moreover have "set (source_occupations pb') = {(i, r). request_source pb' r = Some i}"
    using assms by (auto simp: pb_ok_def src) (auto simp: pb'_def pb_ok_def)
  ultimately have "pb_ok pb'" using assms(1) unfolding pb_ok_def by (simp add: pb'_def)
  moreover have "drop_request i r (pb, acc) = Some (pb', acc @ [(r, detail rq, request_data rq)])"
    using rq by (simp add: drop_request_def pb'_def)
  ultimately show ?thesis using src by auto
qed

lemma drop_requests_ok:
  assumes "pb_ok pb" "distinct rs" "\<And>r. r \<in> set rs \<Longrightarrow> request_source pb r = Some i"
  shows "\<exists>pb' ps. for_each (\<lambda>(_, r). drop_request i r) (map (Pair i) rs) (pb, acc) = Some (pb', acc @ ps) \<and> map fst ps = rs \<and>
    pb_ok pb' \<and> request_source pb' = (\<lambda>r. if r \<in> set rs then None else request_source pb r)"
  using assms
proof (induction rs arbitrary: pb acc)
  case (Cons r rs)
  obtain pb1 p where 1: "drop_request i r (pb, acc) = Some (pb1, acc @ [p])" "fst p = r" "pb_ok pb1"
      "request_source pb1 = (request_source pb)(r := None)"
    using drop_request_ok [OF Cons.prems(1), of r i acc] Cons.prems(3) by auto
  have "request_source pb1 r' = Some i" if "r' \<in> set rs" for r' using that Cons.prems(2,3) by (auto simp: 1(4))
  from Cons.IH [OF 1(3) _ this, of "acc @ [p]"] Cons.prems(2) obtain pb2 ps where
    2: "for_each (\<lambda>(_, r). drop_request i r) (map (Pair i) rs) (pb1, acc @ [p]) = Some (pb2, (acc @ [p]) @ ps)" "map fst ps = rs" "pb_ok pb2"
      "request_source pb2 = (\<lambda>r. if r \<in> set rs then None else request_source pb1 r)" by auto
  have "request_source pb2 = (\<lambda>r'. if r' \<in> set (r # rs) then None else request_source pb r')" by (auto simp: 2(4) 1(4))
  with 1(1,2) 2(1-3) show ?case by (intro exI [of _ pb2] exI [of _ "p # ps"]) simp
qed simp

lemma remove_source_ok:
  assumes "pb_ok pb" "sources_contains (pb_sources pb) i"
  shows "\<exists>d ps pb'. remove_source pb i = Some ((d, ps), pb') \<and> pb_ok pb' \<and> distinct (map fst ps) \<and>
    set (map fst ps) = {r. request_source pb r = Some i} \<and>
    request_source pb' = (\<lambda>r. if request_source pb r = Some i then None else request_source pb r)"
proof -
  obtain d s where s: "sources_remove (pb_sources pb) i = Some (d, s)"
    using assms(2) by (auto simp: sources_remove_def sources_contains_def Let_def)
  define pb1 where "pb1 = pb\<lparr>pb_sources := s\<rparr>"
  have "sources_ok s" "finalized_block_height s = finalized_block_height (pb_sources pb)"
    using sources_remove_effect [OF pb_ok_parts(1) [OF assms(1)] s] by simp_all
  from sources_change_ok(1) [OF assms(1) this] have ok: "pb_ok pb1" by (simp add: pb1_def)
  have src: "request_source pb1 = request_source pb" by (auto simp: pb1_def request_source_def)
  define es where "es = btset_range (i, 0) (i, - 1) (source_occupations pb)"
  define rs where "rs = map snd es"
  have "fst e = i" if "e \<in> set es" for e using that by (auto simp: es_def less_eq_prod_def)
  then have es: "map (Pair i) rs = es" by (auto simp: rs_def comp_def intro!: map_idI)
  have occ: "set (source_occupations pb) = {(i, r). request_source pb r = Some i}" using assms(1) by (simp add: pb_ok_def)
  have "(j, r) \<in> set es \<longleftrightarrow> j = i \<and> request_source pb r = Some i" for j r
    unfolding es_def set_btset_range occ by (auto simp: less_eq_prod_def)
  then have rs: "r \<in> set rs \<longleftrightarrow> request_source pb r = Some i" for r
    by (auto simp: rs_def intro: image_eqI [of _ _ "(i, r)"])
  have "btset_ok es" using assms(1) by (simp add: es_def pb_ok_def)
  from btset_ok_distinct [OF this] have dist: "distinct rs" unfolding es [symmetric] by (simp add: distinct_map)
  have "\<exists>pb' ps. for_each (\<lambda>(_, r). drop_request i r) (map (Pair i) rs) (pb1, []) = Some (pb', [] @ ps) \<and> map fst ps = rs \<and>
    pb_ok pb' \<and> request_source pb' = (\<lambda>r. if r \<in> set rs then None else request_source pb r)"
    unfolding src [symmetric] by (rule drop_requests_ok [OF ok dist]) (simp add: rs src)
  then obtain pb' ps where
    "for_each (\<lambda>(_, r). drop_request i r) es (pb1, []) = Some (pb', ps)" "map fst ps = rs" "pb_ok pb'"
    "request_source pb' = (\<lambda>r. if r \<in> set rs then None else request_source pb r)" unfolding es by auto
  with s dist rs show ?thesis
    by (intro exI [of _ d] exI [of _ ps] exI [of _ pb'])
      (simp add: remove_source_def pb1_def [symmetric] es_def [symmetric] Let_def set_eq_iff)
qed

end
