(* ===== verification/Pending_Blocks_Runs.thy ===== *)
theory Pending_Blocks_Runs
  imports Pending_Blocks_Props
begin

text \<open>
  The states that the operations on the pending blocks lead to, and the requests that are desired
  there.
\<close>

section \<open>Reachable states\<close>

text \<open>
  The flag tells whether sources may be removed. The height of the finalized block stays below
  \<^verbatim>\<open>u64::MAX\<close>, so that the next height does not overflow.
\<close>

inductive pb_reachable :: "bool \<Rightarrow> ('b, 'r, 's) pending_blocks \<Rightarrow> bool" for rm where
  new: "pb_reachable rm (pending_blocks_new height bodies n)"
| add_source: "pb_reachable rm pb \<Longrightarrow> pb_reachable rm (snd (pb_add_source pb d n x))"
| remove_source: "rm \<Longrightarrow> pb_reachable rm pb \<Longrightarrow> remove_source pb i = Some (res, pb') \<Longrightarrow> pb_reachable rm pb'"
| add_known: "pb_reachable rm pb \<Longrightarrow> pb_reachable rm (add_known_block_to_source pb i h x)"
| remove_known: "pb_reachable rm pb \<Longrightarrow> pb_reachable rm (remove_known_block_of_source pb i h x)"
| set_best: "pb_reachable rm pb \<Longrightarrow> add_known_block_to_source_and_set_best pb i h x = Some pb' \<Longrightarrow> pb_reachable rm pb'"
| remove_known_all: "pb_reachable rm pb \<Longrightarrow> pb_reachable rm (remove_sources_known_block pb h x)"
| set_finalized: "pb_reachable rm pb \<Longrightarrow> pb_set_finalized_block_height pb height = Some (ds, pb') \<Longrightarrow> height \<noteq> - 1 \<Longrightarrow>
    pb_reachable rm pb'"
| insert: "pb_reachable rm pb \<Longrightarrow> pb_reachable rm (snd (insert_unverified_block pb h x st d))"
| user_data: "pb_reachable rm pb \<Longrightarrow> unverified_block_user_data_mut pb h x f = Some pb' \<Longrightarrow> pb_reachable rm pb'"
| set_state: "pb_reachable rm pb \<Longrightarrow> set_unverified_block_state pb h x st = Some pb' \<Longrightarrow> pb_reachable rm pb'"
| header: "pb_reachable rm pb \<Longrightarrow> set_unverified_block_header_known pb h x p = Some pb' \<Longrightarrow> pb_reachable rm pb'"
| header_body: "pb_reachable rm pb \<Longrightarrow> set_unverified_block_header_body_known pb h x p = Some pb' \<Longrightarrow> pb_reachable rm pb'"
| remove_block: "pb_reachable rm pb \<Longrightarrow> remove_unverified_block pb h x = Some (d, pb') \<Longrightarrow> pb_reachable rm pb'"
| mark_bad: "pb_reachable rm pb \<Longrightarrow> mark_unverified_block_as_bad pb h x = Some pb' \<Longrightarrow> pb_reachable rm pb'"
| add_request: "pb_reachable rm pb \<Longrightarrow> requests pb r = None \<Longrightarrow> add_request r pb i params d = Some (r', pb') \<Longrightarrow>
    pb_reachable rm pb'"
| finish_request: "pb_reachable rm pb \<Longrightarrow> finish_request pb r = Some (res, pb') \<Longrightarrow> pb_reachable rm pb'"










section \<open>Desired requests\<close>








section \<open>Samples\<close>

text \<open>
  Two sources whose best block is block 50 of height 5, block 60 of height 6 below it, and
  a request for this block from the first source.
\<close>

definition sample_pb1 :: "(string, string, string) pending_blocks" where
  "sample_pb1 = snd (insert_unverified_block
     (snd (pb_add_source (snd (pb_add_source (pending_blocks_new 4 True 2) ''s'' 5 50)) ''t'' 5 50)) 6 60 (HeaderKnown 50) ''b'')"

definition sample_params :: request_params where
  "sample_params = \<lparr>first_block_height = 6, first_block_hash = 60, request_num_blocks = 2\<rparr>"

definition sample_pb2 :: "(string, string, string) pending_blocks" where
  "sample_pb2 = sample_pb1\<lparr>
     requests := [0 \<mapsto> \<lparr>detail = sample_params, request_source_id = 0, request_data = ''r''\<rparr>], source_occupations := [(0, 0)],
     blocks_requests := [(5, 50, 0), (6, 60, 0)], requested_blocks := [(0, 5, 50), (0, 6, 60)]\<rparr>"

lemma sample_pb1_fields:
  "pb_blocks sample_pb1 = [((6, 60), \<lparr>parent_hash = Some 50, bad = False,
     disjoint_data = \<lparr>block_state = HeaderKnown 50, unverified_data = ''b''\<rparr>\<rparr>)]"
  "sources (pb_sources sample_pb1) = [(0, \<lparr>best_block_number = 5, best_block_hash = 50, source_data = ''s''\<rparr>),
     (1, \<lparr>best_block_number = 5, best_block_hash = 50, source_data = ''t''\<rparr>)]"
  "known_blocks1 (pb_sources sample_pb1) = [(0, 5, 50), (1, 5, 50)]"
  "known_blocks2 (pb_sources sample_pb1) = [(5, 50, 0), (5, 50, 1)]"
  "finalized_block_height (pb_sources sample_pb1) = 4" "requests sample_pb1 = Map.empty"
  "source_occupations sample_pb1 = []" "blocks_requests sample_pb1 = []" "requested_blocks sample_pb1 = []"
  "verify_bodies sample_pb1" "max_requests_per_block sample_pb1 = 2"
  by (simp_all add: sample_pb1_def insert_unverified_block_def pb_add_source_def add_source_def pending_blocks_new_def sources_new_def
      insert_known_def hash_insert_def disjoint_new_def disjoint_insert_def known_bad_def checked_pred_def state_parent_hash_def Let_def)

lemma sample_pb1_reachable: "pb_reachable rm sample_pb1"
  unfolding sample_pb1_def by (intro pb_reachable.insert pb_reachable.add_source pb_reachable.new)

lemma sample_add_request: "add_request 0 sample_pb1 0 sample_params ''r'' = Some (0, sample_pb2)"
proof -
  have "add_request_blocks (pb_blocks sample_pb1) 0 (6, 60) ([], []) = Some ([(5, 50, 0), (6, 60, 0)], [(0, 5, 50), (0, 6, 60)])"
    by (simp add: add_request_blocks.simps [of _ 0 "(6, 60)"] add_request_blocks.simps [of _ 0 "(5, 50)"]
        disjoint_parent_hash_def sample_pb1_fields(1))
  then show ?thesis
    by (simp add: add_request_def sources_contains_def sample_pb1_fields sample_params_def sample_pb2_def Let_def)
qed

lemma sample_pb2_reachable: "pb_reachable rm sample_pb2"
  using pb_reachable.add_request [OF sample_pb1_reachable _ sample_add_request] by (simp add: sample_pb1_fields)

text \<open>After the first source is removed, the index still holds the dropped request, for block 50.\<close>

lemma sample_removed:
  "\<exists>res pb. remove_source sample_pb2 0 = Some (res, pb) \<and> requests pb = Map.empty \<and> blocks_requests pb = [(5, 50, 0)] \<and>
    pb_blocks pb = pb_blocks sample_pb1 \<and> verify_bodies pb \<and> max_requests_per_block pb = 2 \<and>
    finalized_block_height (pb_sources pb) = 4 \<and> known_blocks2 (pb_sources pb) = [(5, 50, 1)]"
  by (simp add: remove_source_def sources_remove_def drop_request_def sample_pb2_def sample_pb1_fields sample_params_def
      btset_range_def btset_remove_def remove_known_def hash_remove_def Let_def)

lemma stale_request:
  assumes "requests pb = Map.empty" "blocks_requests pb = [(5, 50, 0)]" "pb_blocks pb = pb_blocks sample_pb1" "verify_bodies pb"
    "max_requests_per_block pb = 2" "finalized_block_height (pb_sources pb) = 4" "known_blocks2 (pb_sources pb) = [(5, 50, 1)]"
  shows "desired_requests pb = None"
proof -
  have none: "requests_of_block pb 6 60 = []" and one: "requests_of_block pb 5 50 = [0]"
    by (simp_all add: requests_of_block_def btset_range_def assms(2))
  have "wanted_blocks pb = [(6, 60), (5, 50)]"
    by (simp add: wanted_blocks_def assms(3-6) sample_pb1_fields(1) disjoint_iter_def unknown_blocks_def unknown_parents_def
        missing_parents_def map_filter_simps none one)
  moreover have "desired_of_block pb None (6, 60) = Some []"
    by (simp add: desired_of_block_def knows_non_finalized_block_def assms(6,7) btset_range_def)
  moreover have "desired_of_block pb None (5, 50) = None"
    by (simp add: desired_of_block_def knows_non_finalized_block_def assms(1,6,7) btset_range_def no_request_to_def one)
  ultimately show ?thesis by (simp add: desired_requests_def desired_requests_inner_def)
qed

section \<open>Properties\<close>





text \<open>
  C38: removing a source can leave an entry of one of its requests in the index, after which
  \<^verbatim>\<open>desired_requests\<close> looks up the dropped request and panics.
\<close>

theorem desired_requests_can_panic:
  "\<exists>pb :: (string, string, string) pending_blocks. pb_reachable True pb \<and> desired_requests pb = None"
proof -
  obtain res pb where rm: "remove_source sample_pb2 0 = Some (res, pb)"
    and pb: "requests pb = Map.empty" "blocks_requests pb = [(5, 50, 0)]" "pb_blocks pb = pb_blocks sample_pb1" "verify_bodies pb"
      "max_requests_per_block pb = 2" "finalized_block_height (pb_sources pb) = 4" "known_blocks2 (pb_sources pb) = [(5, 50, 1)]"
    using sample_removed by blast
  from pb_reachable.remove_source [OF TrueI sample_pb2_reachable rm] stale_request [OF pb] show ?thesis by blast
qed

end
