(* ===== verification/Spec2Isabelle.thy ===== *)
theory Spec2Isabelle
  imports Nibble Leb128 Allocator_Runs Fork_Tree_Props Storage_Diff Verification_Queue_Runs Addresses KBuckets_Props Async_Tree_Props Pending_Blocks_Runs
begin

text \<open>
  \<^bold>\<open>A verification of the data structures of smoldot.\<close>

  smoldot is a client for Substrate-based blockchains: it runs the runtime of a chain in a WebAssembly
  virtual machine, downloads and verifies blocks, and talks to peers over a network of its own. Most
  of the library is state machines without I/O, driven by their user, and these rest on a set of
  data structures that have no dependency on cryptography, parsing or sockets. This development
  models those data structures operation by operation and proves what their users rely on. All the
  paths below are relative to \<^verbatim>\<open>src/\<close>, the root of the repository.

  \<^bold>\<open>Parts of the program and the theories that model them.\<close>

  \<^item> \<^verbatim>\<open>src/trie/nibble.rs\<close>: theory \<open>Nibble\<close>. \<open>nibble\<close> is the type \<^verbatim>\<open>Nibble\<close> with its conversions;
    \<open>bytes_to_nibbles_next\<close> and \<open>nibbles_to_bytes_next\<close> are the \<^verbatim>\<open>next\<close> methods of the two
    iterators. Shown: the round trip from bytes to nibbles and back, and that nibbles keep the order
    of the keys, on which the ordered walks of the trie depend.
  \<^item> \<^verbatim>\<open>src/util/leb128.rs\<close>: theory \<open>Leb128\<close>. The encoder, the decoder, and \<^verbatim>\<open>Framed\<close>, the reader of
    length-prefixed messages of the network protocols. Shown: the decoder accepts exactly the
    encodings, and a framed message is received whole however its bytes are cut into pieces.
  \<^item> \<^verbatim>\<open>src/executor/allocator.rs\<close>: theories \<open>Allocator\<close> (the freeing-bump allocator with its headers
    and free lists in linear memory), \<open>Allocator_Safety\<close> (the invariant; the contract of a memory as the
    locale \<open>linear_memory\<close>) and \<open>Allocator_Runs\<close> (runs with the program that is served). Shown:
    live allocations are apart and in bounds in every run, what every allocation returns, the reuse
    of freed blocks, poisoning after an error, and the wrap-around of the bound check close to 4 GiB.
  \<^item> \<^verbatim>\<open>src/executor/storage_diff.rs\<close>: theory \<open>Storage_Diff\<close>. Shown: queries on a difference and a base
    storage are queries on the storage with the difference applied; merging is composition.
  \<^item> \<^verbatim>\<open>src/chain/fork_tree.rs\<close>: theories \<open>Fork_Tree\<close> (the slab of linked nodes and every operation,
    with the pruning iterator as the code runs it), \<open>Fork_Tree_Spec\<close> (forests of rose trees and
    \<open>represents\<close>, the simulation relation), \<open>Fork_Tree_Paths\<close>, \<open>Fork_Tree_Prune\<close> and
    \<open>Fork_Tree_Props\<close>. Shown: the loops end and no \<^verbatim>\<open>unwrap\<close> or \<^verbatim>\<open>unreachable!()\<close> is reached; ancestry,
    common ancestors, iteration and the two prunings are what the documentation says.
  \<^item> \<^verbatim>\<open>src/chain/async_tree.rs\<close>: theories \<open>Async_Tree\<close> (input, asynchronous operations and output, on the
    model of the fork tree), \<open>Async_Tree_Inv\<close> and \<open>Async_Tree_Props\<close>. Shown: blocks are reported after their
    parents, and advancing the output ends as close to the input as the finished operations allow.
  \<^item> \<^verbatim>\<open>src/sync/all_forks/disjoint.rs\<close>, \<^verbatim>\<open>sources.rs\<close> and \<^verbatim>\<open>pending_blocks.rs\<close>: theories \<open>Disjoint\<close>,
    \<open>Sources\<close> and \<open>Pending_Blocks\<close> with their \<open>_Props\<close> and \<open>Pending_Blocks_Runs\<close>. Pending blocks are a
    client of the two others. Shown: marking bad blocks reaches exactly the descendants; the indexes
    of the known blocks and of the requests agree; the desired requests are exactly those called for.
  \<^item> \<^verbatim>\<open>src/sync/optimistic/verification_queue.rs\<close>: theories \<open>Verification_Queue\<close>,
    \<open>Verification_Queue_Props\<close> and \<open>Verification_Queue_Runs\<close>. Shown: blocks come out in order without
    gap or repetition whatever the order of the answers, and what short or empty answers break.
  \<^item> \<^verbatim>\<open>src/network/service/addresses.rs\<close>: theory \<open>Addresses\<close>. Shown: a refinement of a map from addresses to
    states, and that shuffling reaches every address.
  \<^item> \<^verbatim>\<open>src/network/kademlia/kbuckets.rs\<close>: theories \<open>KBuckets\<close> and \<open>KBuckets_Props\<close>. Shown: the shape of the
    buckets, the effect of inserting with eviction, and the logarithmic distance.

  \<open>Smoldot_Prelude\<close> holds what all of them share: the integer types, \<^verbatim>\<open>Result\<close> and panics, loops that can
  panic, and iterators with the locale \<open>list_iterator\<close>. \<open>Rust_Collections\<close> models \<^verbatim>\<open>BTreeMap\<close>, \<^verbatim>\<open>BTreeSet\<close> and
  \<^verbatim>\<open>HashMap\<close>, with their common contract as the locale \<open>rust_map\<close>.

  \<^bold>\<open>Conventions.\<close> A struct is a record and an enum a datatype, with the names of the source. A method
  with \<^verbatim>\<open>&mut self\<close> returns the new state; a method that may panic returns an option, with \<open>None\<close> for
  the panic; a \<^verbatim>\<open>Result\<close> is a sum. \<^verbatim>\<open>u8\<close>, \<^verbatim>\<open>u32\<close> and \<^verbatim>\<open>u64\<close> are words, whose arithmetic wraps around as in
  the release profile; \<^verbatim>\<open>debug_assert!\<close> is therefore not a panic, and where the invariants show that one
  holds they do so as lemmas. A block hash is a 256-bit word, whose order is that of the array of
  bytes. \<^verbatim>\<open>BTreeMap\<close> is a sorted association list, \<^verbatim>\<open>BTreeSet\<close> a sorted list, \<^verbatim>\<open>HashMap\<close> an association list
  whose order stands for the unspecified order of iteration. The slab crate is a partial map: the
  vacant key it picks is an argument of the operation that inserts, and the order in which it
  iterates is an argument \<open>keys\<close>, with the hypothesis \<open>slab_order\<close> that it lists the keys once each. Hash
  functions (SHA-256, BLAKE2), the arithmetic of instants, user data and the types of addresses
  and of errors are arguments or type parameters. A method that returns a mutable reference takes
  the function that its caller applies to the reference.

  \<^bold>\<open>Loops and bounds.\<close> Loops whose end is not structural are partial functions, for which not
  returning is \<open>None\<close>, and the properties show that they return. Iterators are collected with \<open>drain\<close>,
  which takes a number of calls of \<^verbatim>\<open>next\<close>: 11 for the encoder of variable-length integers, as an encoding has at
  most ten bytes; twice the number of bytes plus two for the nibbles. The lemmas of \<open>list_iterator\<close> show
  that any number of calls above the number of items gives the same result. The argument \<open>M\<close> of the
  paths of the fork tree is \<^verbatim>\<open>usize::MAX\<close>, an index that no node has. Hypotheses that a height or a
  number of entries stays below its maximum are stated where they are needed, since no run of
  the program gets there.

  \<^bold>\<open>Reachability.\<close> The properties of a data structure with state are about the states that its operations
  reach, given as inductive predicates whose rules are the calls of its user, with the preconditions that the
  documentation asks for.

  \<^bold>\<open>Not modelled.\<close> The virtual machines, the host functions and the runtime calls, which run
  third-party engines; hashing, signatures, key derivation and the encryption of connections, which are
  third-party libraries; decoding of headers, justifications, protocol messages and
  multiaddresses, which is written with parser combinators of third-party crates; JSON, SQL and the text formats; the
  connections and the network service above them; the trie structure, the root calculation and the proofs,
  and the syncing state machines and the tree of blocks, whose work is the
  verification of headers and finality; the light client, the full node and the JavaScript bindings,
  which are asynchronous tasks and I/O around the library. Inside the modelled files, capacity hints,
  \<^verbatim>\<open>Debug\<close> implementations and accessors that only return a field are left out.
\<close>

end
